(* ===== verification/Racer_Prelude.thy ===== *)
theory Racer_Prelude
  imports Main "HOL-Library.Multiset" "HOL-Library.Product_Lexorder"
begin

section \<open>Shared vocabulary of the development\<close>

text \<open>
  What every component of the Racer decision logic uses: clock readings, bounded machine
  arithmetic, results, and the two kinds of standard-library map the sources keep their state
  in.

  \<^item> An \<open>Instant\<close> of the source is a number of nanoseconds on the caller's monotonic clock and
    a \<open>Duration\<close> a number of nanoseconds; both are \<open>nat\<close> here, so that
    \<open>saturating_duration_since\<close> is truncated subtraction.
  \<^item> An unsigned machine integer of width \<open>w\<close> is a \<open>nat\<close>, with the bound written out wherever
    the source checks, saturates or could wrap (\<open>checked_sub\<close>, \<open>checked_add\<close>,
    \<open>saturating_add\<close>, \<open>saturating_mul\<close>). Bit-mixing code uses \<open>64 word\<close> instead.
  \<^item> A \<open>HashMap\<close> is an association list with distinct keys. Its order stands for the
    unspecified iteration order of the hash map, so a fact proved for every list holds for every
    iteration order. A \<open>BTreeMap\<close> is an association list strictly sorted by key.
  \<^item> A fallible operation returns a sum, \<open>Inl\<close> for the error.
\<close>

named_theorems inv_intros \<open>invariant preservation, one rule per operation\<close>
named_theorems op_simps \<open>unfolding of the model's small operations\<close>

type_synonym instant = nat
type_synonym duration = nat

subsection \<open>Machine arithmetic\<close>

abbreviation u8_max :: nat where "u8_max \<equiv> 255"
abbreviation u16_max :: nat where "u16_max \<equiv> 65535"
abbreviation u32_max :: nat where "u32_max \<equiv> 4294967295"
abbreviation u64_max :: nat where "u64_max \<equiv> 18446744073709551615"

text \<open>The longest \<open>Duration\<close>: \<open>u64::MAX\<close> seconds and 999999999 nanoseconds.\<close>

abbreviation dur_max :: nat where "dur_max \<equiv> 18446744073709551615999999999"

definition secs :: "nat \<Rightarrow> duration" where
  "secs n = n * 1000000000"

definition millis :: "nat \<Rightarrow> duration" where
  "millis n = n * 1000000"

definition checked_sub :: "nat \<Rightarrow> nat \<Rightarrow> nat option" where
  "checked_sub a b = (if b \<le> a then Some (a - b) else None)"

definition checked_add :: "nat \<Rightarrow> nat \<Rightarrow> nat \<Rightarrow> nat option" where
  "checked_add bound a b = (if a + b \<le> bound then Some (a + b) else None)"

definition sat_add :: "nat \<Rightarrow> nat \<Rightarrow> nat \<Rightarrow> nat" where
  "sat_add bound a b = min bound (a + b)"

definition sat_mul :: "nat \<Rightarrow> nat \<Rightarrow> nat \<Rightarrow> nat" where
  "sat_mul bound a b = min bound (a * b)"

definition div_ceil :: "nat \<Rightarrow> nat \<Rightarrow> nat" where
  "div_ceil a b = (a + b - 1) div b"

lemma checked_sub_simps [simp]:
  "checked_sub a b = Some c \<longleftrightarrow> b \<le> a \<and> c = a - b"
  "checked_sub a b = None \<longleftrightarrow> a < b"
  by (auto simp: checked_sub_def)

lemma checked_add_simps [simp]:
  "checked_add m a b = Some c \<longleftrightarrow> a + b \<le> m \<and> c = a + b"
  "checked_add m a b = None \<longleftrightarrow> m < a + b"
  by (auto simp: checked_add_def)

lemma div_ceil_ge: "0 < b \<Longrightarrow> a \<le> div_ceil a b * b"
proof -
  assume b: "0 < b"
  have "a + b - 1 = (a + b - 1) div b * b + (a + b - 1) mod b"
    by simp
  moreover have "(a + b - 1) mod b < b"
    using b by simp
  ultimately show ?thesis
    unfolding div_ceil_def using b by linarith
qed

lemma div_ceil_least: "0 < b \<Longrightarrow> a \<le> k * b \<Longrightarrow> div_ceil a b \<le> k"
proof -
  assume b: "0 < b" and le: "a \<le> k * b"
  have "a + b - 1 < Suc k * b"
    using b le by simp
  then have "(a + b - 1) div b < Suc k"
    by (simp only: div_less_iff_less_mult [OF b])
  then show ?thesis
    by (simp add: div_ceil_def)
qed

subsection \<open>Results\<close>

definition ok_or :: "'e \<Rightarrow> 'a option \<Rightarrow> 'e + 'a" where
  "ok_or e x = (case x of None \<Rightarrow> Inl e | Some v \<Rightarrow> Inr v)"

lemma ok_or_simps [simp]:
  "ok_or e x = Inr v \<longleftrightarrow> x = Some v"
  "ok_or e x = Inl e' \<longleftrightarrow> x = None \<and> e' = e"
  by (auto simp: ok_or_def split: option.splits)

fun is_ok :: "'e + 'a \<Rightarrow> bool" where
  "is_ok (Inl _) = False"
| "is_ok (Inr _) = True"

subsection \<open>Iterators\<close>

text \<open>\<open>Iterator::position\<close>: index of the first element a predicate accepts.\<close>

fun position :: "('a \<Rightarrow> bool) \<Rightarrow> 'a list \<Rightarrow> nat option" where
  "position P [] = None"
| "position P (x # xs) = (if P x then Some 0 else map_option Suc (position P xs))"

lemma position_Some:
  "position P xs = Some i \<longleftrightarrow> i < length xs \<and> P (xs ! i) \<and> (\<forall>j < i. \<not> P (xs ! j))"
proof (induction xs arbitrary: i)
  case Nil
  then show ?case by simp
next
  case (Cons x xs)
  show ?case
  proof (cases i)
    case 0
    then show ?thesis by (auto split: if_splits)
  next
    case (Suc n)
    have "position P (x # xs) = Some (Suc n) \<longleftrightarrow> \<not> P x \<and> position P xs = Some n"
      by auto
    also have "\<dots> \<longleftrightarrow> \<not> P x \<and> n < length xs \<and> P (xs ! n) \<and> (\<forall>j < n. \<not> P (xs ! j))"
      by (simp add: Cons.IH)
    also have "\<dots> \<longleftrightarrow> Suc n < length (x # xs) \<and> P ((x # xs) ! Suc n) \<and>
        (\<forall>j < Suc n. \<not> P ((x # xs) ! j))"
      by (auto simp: All_less_Suc2)
    finally show ?thesis using Suc by simp
  qed
qed

lemma position_None: "position P xs = None \<longleftrightarrow> (\<forall>x \<in> set xs. \<not> P x)"
  by (induction xs) auto

text \<open>\<open>Iterator::min_by_key\<close>: the first element whose key is least.\<close>

fun min_by_key :: "('a \<Rightarrow> 'b::linorder) \<Rightarrow> 'a list \<Rightarrow> 'a option" where
  "min_by_key f [] = None"
| "min_by_key f (x # xs) =
     (case min_by_key f xs of
        None \<Rightarrow> Some x
      | Some y \<Rightarrow> if f x \<le> f y then Some x else Some y)"

lemma min_by_key_None [simp]: "min_by_key f xs = None \<longleftrightarrow> xs = []"
  by (cases xs) (auto split: option.splits)

lemma min_by_key_Some:
  "min_by_key f xs = Some x \<Longrightarrow> x \<in> set xs \<and> (\<forall>y \<in> set xs. f x \<le> f y)"
proof (induction xs arbitrary: x)
  case Nil
  then show ?case by simp
next
  case (Cons a xs)
  show ?case
  proof (cases "min_by_key f xs")
    case None
    with Cons.prems show ?thesis by simp
  next
    case (Some y)
    with Cons.IH have "y \<in> set xs" "\<forall>z \<in> set xs. f y \<le> f z"
      by auto
    with Some Cons.prems show ?thesis
      by (auto split: if_splits)
  qed
qed

text \<open>With distinct keys the least element does not depend on the iteration order.\<close>

lemma min_by_key_perm:
  assumes "mset xs = mset ys" and "inj_on f (set xs)"
  shows "min_by_key f xs = min_by_key f ys"
proof (cases "min_by_key f xs")
  case None
  with assms(1) show ?thesis by simp
next
  case (Some x)
  have sets: "set xs = set ys" using assms(1) by (rule mset_eq_setD)
  from Some have "ys \<noteq> []" using assms(1) by auto
  then obtain y where y: "min_by_key f ys = Some y"
    by (cases "min_by_key f ys") auto
  from min_by_key_Some [OF Some] min_by_key_Some [OF y] sets
  have "x \<in> set xs" "y \<in> set xs" "f x = f y" by (auto intro: antisym)
  with assms(2) have "x = y" by (auto dest: inj_onD)
  with Some y show ?thesis by simp
qed

end
