(* ===== verification/Racer_Maps.thy ===== *)
theory Racer_Maps
  imports Racer_Prelude
begin

section \<open>Hash maps and ordered maps\<close>

text \<open>
  The two standard-library maps the sources keep state in, and the interface every component
  uses them through.

  \<^item> \<open>HashMap\<close>: an association list with distinct keys (\<open>hm_ok\<close>); the order of the list is the
    iteration order, which the library leaves unspecified.
  \<^item> \<open>BTreeMap\<close>: an association list strictly increasing in its keys (\<open>bt_ok\<close>), which is the
    iteration order the library promises; \<open>range\<close> queries are filters that keep it.
  \<^item> The locale \<open>keyed_table\<close> states what both promise (lookup after insert and remove, the
    number of entries), and proves the counting facts the components' bounds rest on; it is
    interpreted for both maps.
\<close>

subsection \<open>The map interface\<close>

locale keyed_table =
  fixes get :: "'m \<Rightarrow> 'k \<Rightarrow> 'v option"
    and put :: "'k \<Rightarrow> 'v \<Rightarrow> 'm \<Rightarrow> 'm"
    and del :: "'k \<Rightarrow> 'm \<Rightarrow> 'm"
    and count :: "'m \<Rightarrow> nat"
    and ok :: "'m \<Rightarrow> bool"
  assumes get_put: "ok m \<Longrightarrow> get (put k v m) = (get m)(k \<mapsto> v)"
    and get_del: "ok m \<Longrightarrow> get (del k m) = (get m)(k := None)"
    and ok_put: "ok m \<Longrightarrow> ok (put k v m)"
    and ok_del: "ok m \<Longrightarrow> ok (del k m)"
    and finite_get: "ok m \<Longrightarrow> finite (dom (get m))"
    and count_card: "ok m \<Longrightarrow> count m = card (dom (get m))"
begin

lemma count_put_new: "ok m \<Longrightarrow> get m k = None \<Longrightarrow> count (put k v m) = Suc (count m)"
  by (simp add: count_card ok_put get_put finite_get domIff)

lemma count_put_old: "ok m \<Longrightarrow> get m k \<noteq> None \<Longrightarrow> count (put k v m) = count m"
  by (simp add: count_card ok_put get_put finite_get domIff insert_absorb)

lemma count_put_le: "ok m \<Longrightarrow> count (put k v m) \<le> Suc (count m)"
  by (cases "get m k") (simp_all add: count_put_new count_put_old)

lemma count_del_present: "ok m \<Longrightarrow> get m k \<noteq> None \<Longrightarrow> Suc (count (del k m)) = count m"
  using card.remove [of "dom (get m)" k]
  by (simp add: count_card ok_del get_del finite_get domIff)

lemma count_del_absent: "ok m \<Longrightarrow> get m k = None \<Longrightarrow> count (del k m) = count m"
  by (simp add: count_card ok_del get_del domIff)

lemma count_del_le: "ok m \<Longrightarrow> count (del k m) \<le> count m"
  using count_del_present [of m k] count_del_absent [of m k] by (cases "get m k") auto

end

subsection \<open>Hash maps\<close>

type_synonym ('k, 'v) hmap = "('k \<times> 'v) list"

definition hm_ok :: "('k, 'v) hmap \<Rightarrow> bool" where
  "hm_ok m \<longleftrightarrow> distinct (map fst m)"

definition hm_get :: "('k, 'v) hmap \<Rightarrow> 'k \<Rightarrow> 'v option" where
  "hm_get m = map_of m"

definition hm_remove :: "'k \<Rightarrow> ('k, 'v) hmap \<Rightarrow> ('k, 'v) hmap" where
  "hm_remove k m = filter (\<lambda>p. fst p \<noteq> k) m"

definition hm_insert :: "'k \<Rightarrow> 'v \<Rightarrow> ('k, 'v) hmap \<Rightarrow> ('k, 'v) hmap" where
  "hm_insert k v m = (k, v) # hm_remove k m"

definition hm_retain :: "('k \<Rightarrow> 'v \<Rightarrow> bool) \<Rightarrow> ('k, 'v) hmap \<Rightarrow> ('k, 'v) hmap" where
  "hm_retain keep m = filter (\<lambda>p. keep (fst p) (snd p)) m"

text \<open>\<open>get_mut\<close> followed by a change of the entry; an absent key changes nothing.\<close>

definition hm_update :: "'k \<Rightarrow> ('v \<Rightarrow> 'v) \<Rightarrow> ('k, 'v) hmap \<Rightarrow> ('k, 'v) hmap" where
  "hm_update k f m = map (\<lambda>p. if fst p = k then (fst p, f (snd p)) else p) m"

lemma hm_keys_remove [simp]: "map fst (hm_remove k m) = filter (\<lambda>x. x \<noteq> k) (map fst m)"
  by (simp add: hm_remove_def filter_map comp_def)

lemma hm_keys_update [simp]: "map fst (hm_update k f m) = map fst m"
  by (simp add: hm_update_def)

lemma length_hm_update [simp]: "length (hm_update k f m) = length m"
  by (simp add: hm_update_def)

lemma hm_ok_Nil [simp]: "hm_ok []"
  by (simp add: hm_ok_def)

lemma hm_ok_remove [simp]: "hm_ok m \<Longrightarrow> hm_ok (hm_remove k m)"
  by (simp add: hm_ok_def)

lemma hm_ok_insert [simp]: "hm_ok m \<Longrightarrow> hm_ok (hm_insert k v m)"
  by (simp add: hm_ok_def hm_insert_def hm_remove_def image_iff flip: hm_keys_remove)
    (auto simp: filter_map distinct_map_filter)

lemma hm_ok_retain [simp]: "hm_ok m \<Longrightarrow> hm_ok (hm_retain P m)"
  by (simp add: hm_ok_def hm_retain_def distinct_map_filter)

lemma hm_ok_update [simp]: "hm_ok (hm_update k f m) \<longleftrightarrow> hm_ok m"
  by (simp add: hm_ok_def)

lemma hm_get_Nil [simp]: "hm_get [] k = None"
  by (simp add: hm_get_def)

lemma hm_get_remove [simp]: "hm_get (hm_remove k m) = (hm_get m)(k := None)"
  by (rule ext) (induction m, auto simp: hm_get_def hm_remove_def)

lemma hm_get_insert [simp]: "hm_get (hm_insert k v m) = (hm_get m)(k \<mapsto> v)"
proof (rule ext)
  fix x
  have "map_of (hm_remove k m) x = ((hm_get m)(k := None)) x"
    by (metis hm_get_def hm_get_remove)
  then show "hm_get (hm_insert k v m) x = ((hm_get m)(k \<mapsto> v)) x"
    by (simp add: hm_get_def hm_insert_def)
qed

lemma hm_get_update [simp]:
  "hm_get (hm_update k f m) = (hm_get m)(k := map_option f (hm_get m k))"
  by (rule ext) (induction m, auto simp: hm_get_def hm_update_def)

lemma hm_get_Some_iff: "hm_ok m \<Longrightarrow> hm_get m k = Some v \<longleftrightarrow> (k, v) \<in> set m"
  by (simp add: hm_get_def hm_ok_def map_of_eq_Some_iff eq_commute)

lemma hm_get_SomeD: "hm_get m k = Some v \<Longrightarrow> (k, v) \<in> set m"
  by (simp add: hm_get_def map_of_SomeD)

lemma hm_get_None_iff: "hm_get m k = None \<longleftrightarrow> k \<notin> fst ` set m"
  by (simp add: hm_get_def map_of_eq_None_iff)

lemma hm_get_present: "(k, v) \<in> set m \<Longrightarrow> hm_get m k \<noteq> None"
  using image_eqI [of k fst "(k, v)" "set m"] by (simp add: hm_get_None_iff)

lemma hm_get_retain:
  "hm_ok m \<Longrightarrow> hm_get (hm_retain P m) k =
     (case hm_get m k of None \<Rightarrow> None | Some v \<Rightarrow> if P k v then Some v else None)"
proof (induction m)
  case Nil
  then show ?case by (simp add: hm_retain_def hm_get_def)
next
  case (Cons p m)
  then have "hm_ok m" and new: "fst p \<notin> fst ` set m"
    by (simp_all add: hm_ok_def)
  moreover have "fst p \<notin> fst ` set (hm_retain P m)"
    using new by (auto simp: hm_retain_def)
  ultimately show ?case
    using Cons.IH by (auto simp: hm_get_def hm_retain_def map_of_eq_None_iff split: option.splits)
qed

lemma hm_get_perm: "hm_ok m \<Longrightarrow> mset m = mset m' \<Longrightarrow> hm_get m = hm_get m'"
proof -
  assume ok: "hm_ok m" and eq: "mset m = mset m'"
  from eq have "mset (map fst m) = mset (map fst m')"
    by simp
  with ok have ok': "hm_ok m'"
    unfolding hm_ok_def by (metis mset_eq_imp_distinct_iff)
  have "set m = set m'"
    using eq by (rule mset_eq_setD)
  then show ?thesis
    unfolding hm_get_def using ok ok' by (simp add: hm_ok_def map_of_inject_set)
qed

lemma dom_hm_get: "dom (hm_get m) = fst ` set m"
  unfolding hm_get_def by (rule dom_map_of_conv_image_fst)

lemma hm_set_remove: "set (hm_remove k m) = {p \<in> set m. fst p \<noteq> k}"
  by (simp add: hm_remove_def)

lemma hm_set_insert: "set (hm_insert k v m) = insert (k, v) {p \<in> set m. fst p \<noteq> k}"
  by (simp add: hm_insert_def hm_set_remove)

lemma hm_set_retain: "set (hm_retain P m) = {p \<in> set m. P (fst p) (snd p)}"
  by (simp add: hm_retain_def)

lemma hm_set_update:
  "set (hm_update k f m) = (\<lambda>p. if fst p = k then (fst p, f (snd p)) else p) ` set m"
  by (simp add: hm_update_def)

interpretation hm: keyed_table hm_get hm_insert hm_remove length hm_ok
proof
  fix m :: "('k, 'v) hmap"
  assume ok: "hm_ok m"
  show "finite (dom (hm_get m))"
    by (simp add: dom_hm_get)
  show "length m = card (dom (hm_get m))"
    using ok unfolding dom_hm_get hm_ok_def by (metis distinct_card length_map list.set_map)
qed simp_all

lemma length_hm_retain: "length (hm_retain P m) \<le> length m"
  by (simp add: hm_retain_def)

subsection \<open>Ordered maps\<close>

type_synonym ('k, 'v) bmap = "('k \<times> 'v) list"

definition bt_ok :: "('k::linorder, 'v) bmap \<Rightarrow> bool" where
  "bt_ok m \<longleftrightarrow> sorted_wrt (<) (map fst m)"

definition bt_get :: "('k, 'v) bmap \<Rightarrow> 'k \<Rightarrow> 'v option" where
  "bt_get m = map_of m"

fun bt_insert :: "'k::linorder \<Rightarrow> 'v \<Rightarrow> ('k, 'v) bmap \<Rightarrow> ('k, 'v) bmap" where
  "bt_insert k v [] = [(k, v)]"
| "bt_insert k v ((k', v') # m) =
     (if k < k' then (k, v) # (k', v') # m
      else if k = k' then (k, v) # m
      else (k', v') # bt_insert k v m)"

definition bt_remove :: "'k \<Rightarrow> ('k, 'v) bmap \<Rightarrow> ('k, 'v) bmap" where
  "bt_remove k m = filter (\<lambda>p. fst p \<noteq> k) m"

text \<open>Changing every value in place (\<open>values_mut\<close>) or one value (\<open>get_mut\<close>) keeps the keys.\<close>

definition bt_update :: "'k \<Rightarrow> ('v \<Rightarrow> 'v) \<Rightarrow> ('k, 'v) bmap \<Rightarrow> ('k, 'v) bmap" where
  "bt_update k f m = map (\<lambda>p. if fst p = k then (fst p, f (snd p)) else p) m"

text \<open>The \<open>range\<close> queries the sources use: keys above a bound, keys up to a bound.\<close>

definition bt_above :: "'k::linorder \<Rightarrow> ('k, 'v) bmap \<Rightarrow> ('k, 'v) bmap" where
  "bt_above k m = filter (\<lambda>p. k < fst p) m"

definition bt_upto :: "'k::linorder \<Rightarrow> ('k, 'v) bmap \<Rightarrow> ('k, 'v) bmap" where
  "bt_upto k m = filter (\<lambda>p. fst p \<le> k) m"

lemma bt_ok_Nil [simp]: "bt_ok []"
  by (simp add: bt_ok_def)

lemma bt_ok_Cons: "bt_ok (p # m) \<longleftrightarrow> (\<forall>q \<in> set m. fst p < fst q) \<and> bt_ok m"
  by (auto simp: bt_ok_def)

lemma bt_ok_filter: "bt_ok m \<Longrightarrow> bt_ok (filter P m)"
  by (induction m) (auto simp: bt_ok_Cons)

lemma bt_ok_remove [simp]: "bt_ok m \<Longrightarrow> bt_ok (bt_remove k m)"
  by (simp add: bt_remove_def bt_ok_filter)

lemma bt_ok_update [simp]: "bt_ok (bt_update k f m) \<longleftrightarrow> bt_ok m"
proof -
  have "map fst (bt_update k f m) = map fst m"
    by (simp add: bt_update_def)
  then show ?thesis by (simp add: bt_ok_def)
qed

lemma bt_ok_distinct: "bt_ok m \<Longrightarrow> distinct (map fst m)"
  by (simp add: bt_ok_def strict_sorted_iff)

lemma set_bt_insert:
  "bt_ok m \<Longrightarrow> set (bt_insert k v m) = insert (k, v) {p \<in> set m. fst p \<noteq> k}"
  by (induction m rule: bt_insert.induct) (auto simp: bt_ok_Cons)

lemma bt_ok_insert [simp]: "bt_ok m \<Longrightarrow> bt_ok (bt_insert k v m)"
proof (induction k v m rule: bt_insert.induct)
  case (1 k v)
  then show ?case by (simp add: bt_ok_Cons)
next
  case (2 k v k' v' m)
  then have ok: "bt_ok m" "\<forall>q \<in> set m. k' < fst q"
    by (auto simp: bt_ok_Cons)
  show ?case
  proof (cases "k' < k")
    case True
    then have "bt_insert k v ((k', v') # m) = (k', v') # bt_insert k v m"
      by auto
    with 2 ok True show ?thesis
      by (auto simp: bt_ok_Cons set_bt_insert)
  next
    case False
    with ok show ?thesis
      by (fastforce simp: bt_ok_Cons)
  qed
qed

lemma set_bt_remove: "set (bt_remove k m) = {p \<in> set m. fst p \<noteq> k}"
  by (simp add: bt_remove_def)

lemma bt_get_Nil [simp]: "bt_get [] k = None"
  by (simp add: bt_get_def)

lemma bt_get_Some_iff: "bt_ok m \<Longrightarrow> bt_get m k = Some v \<longleftrightarrow> (k, v) \<in> set m"
  by (simp add: bt_get_def bt_ok_distinct map_of_eq_Some_iff eq_commute)

lemma bt_get_None_iff: "bt_get m k = None \<longleftrightarrow> k \<notin> fst ` set m"
  by (simp add: bt_get_def map_of_eq_None_iff)

lemma bt_get_remove [simp]: "bt_get (bt_remove k m) = (bt_get m)(k := None)"
  by (rule ext) (induction m, auto simp: bt_get_def bt_remove_def)

lemma bt_get_update [simp]:
  "bt_get (bt_update k f m) = (bt_get m)(k := map_option f (bt_get m k))"
  by (rule ext) (induction m, auto simp: bt_get_def bt_update_def)

lemma bt_get_insert [simp]: "bt_get (bt_insert k v m) = (bt_get m)(k \<mapsto> v)"
  by (rule ext, induction m rule: bt_insert.induct) (auto simp: bt_get_def)

lemma dom_bt_get: "dom (bt_get m) = fst ` set m"
  unfolding bt_get_def by (rule dom_map_of_conv_image_fst)

interpretation bt: keyed_table bt_get bt_insert bt_remove length bt_ok
proof
  fix m :: "('k::linorder, 'v) bmap"
  assume ok: "bt_ok m"
  show "finite (dom (bt_get m))"
    by (simp add: dom_bt_get)
  show "length m = card (dom (bt_get m))"
    using bt_ok_distinct [OF ok] unfolding dom_bt_get
    by (metis distinct_card length_map list.set_map)
qed simp_all

text \<open>
  Splitting an ordered map at a bound: the part above it followed by the part up to it, which is
  how the sources visit a map from a cursor and wrap around, is a permutation of the map.
\<close>

lemma bt_wrap_mset: "mset (bt_above k m @ bt_upto k m) = mset m"
proof -
  have "bt_upto k m = filter (\<lambda>p. \<not> k < fst p) m"
    by (auto simp: bt_upto_def intro: filter_cong)
  then show ?thesis
    by (simp add: bt_above_def)
qed

end
