(* ===== verification/Racer_Time.thy ===== *)
theory Racer_Time
  imports Racer_Prelude "HOL-Library.Word"
begin

unbundle bit_operations_syntax

section \<open>Deterministic randomness (core/src/time.rs)\<close>

text \<open>
  The \<open>SplitMix64\<close> generator that callers pass into the decision code. Its state and outputs are
  \<open>64 word\<close>, where \<open>+\<close> and \<open>*\<close> wrap as \<open>wrapping_add\<close> and \<open>wrapping_mul\<close> do. An operation on
  \<open>&mut self\<close> returns its value and the generator after it.
\<close>

record splitmix64 =
  rng_state :: "64 word"

definition rng_new :: "64 word \<Rightarrow> splitmix64" where
  "rng_new seed = \<lparr>rng_state = seed\<rparr>"

definition xorshift :: "nat \<Rightarrow> 64 word \<Rightarrow> 64 word" where
  "xorshift n z = z XOR drop_bit n z"

definition next_u64 :: "splitmix64 \<Rightarrow> 64 word \<times> splitmix64" where
  "next_u64 g =
     (let s = rng_state g + 0x9E3779B97F4A7C15;
          z1 = xorshift 30 s * 0xBF58476D1CE4E5B9;
          z2 = xorshift 27 z1 * 0x94D049BB133111EB
      in (xorshift 31 z2, g\<lparr>rng_state := s\<rparr>))"

definition rng_fork :: "splitmix64 \<Rightarrow> 64 word \<Rightarrow> splitmix64 \<times> splitmix64" where
  "rng_fork g stream =
     (let (v, g') = next_u64 g in (rng_new (v XOR (stream * 0xD6E8FEB86659FD93)), g'))"

text \<open>
  The product of two 64-bit values is taken at 128 bits before the shift, so it is a product of
  natural numbers here.
\<close>

definition rng_below :: "splitmix64 \<Rightarrow> 64 word \<Rightarrow> 64 word \<times> splitmix64" where
  "rng_below g bound =
     (if bound = 0 then (0, g)
      else let (v, g') = next_u64 g
           in (of_nat ((unat v * unat bound) div 2 ^ 64), g'))"

definition to_le_bytes :: "64 word \<Rightarrow> 8 word list" where
  "to_le_bytes v = map (\<lambda>i. ucast (drop_bit (8 * i) v)) [0..<8]"

text \<open>\<open>fill\<close> overwrites a slice of \<open>len\<close> bytes, eight at a time; only its length is read.\<close>

function rng_fill :: "splitmix64 \<Rightarrow> nat \<Rightarrow> 8 word list \<times> splitmix64" where
  "rng_fill g len =
     (if len = 0 then ([], g)
      else let (v, g') = next_u64 g;
               chunk = take len (to_le_bytes v);
               (rest, g'') = rng_fill g' (len - 8)
           in (chunk @ rest, g''))"
  by pat_completeness auto
termination
  by (relation "measure snd") simp_all

declare rng_fill.simps [simp del]

subsection \<open>The output function is a bijection of the state\<close>

lemma drop_bit_fixpoint: "drop_bit n (d :: 64 word) = d \<Longrightarrow> 0 < n \<Longrightarrow> d = 0"
proof -
  assume eq: "drop_bit n d = d" and n: "0 < n"
  have "unat (drop_bit n d) = unat d div 2 ^ n"
    by (simp only: unat_drop_bit_eq drop_bit_nat_def)
  with eq have same: "unat d div 2 ^ n = unat d"
    by simp
  have "(1::nat) < 2 ^ n"
    using n one_less_power [of "2::nat" n] by simp
  then have "0 < unat d \<Longrightarrow> unat d div 2 ^ n < unat d"
    by (rule div_less_dividend)
  with same have "unat d = 0"
    by auto
  then show ?thesis
    by (simp only: unat_eq_zero)
qed

lemma xorshift_xor: "xorshift n (a XOR b) = xorshift n a XOR xorshift n b"
  by (rule bit_word_eqI) (auto simp: xorshift_def bit_simps)

lemma xor_zero_eq: "a XOR b = (0 :: 64 word) \<Longrightarrow> a = b"
proof -
  assume "a XOR b = 0"
  then have "(a XOR b) XOR b = 0 XOR b"
    by (rule arg_cong)
  then show ?thesis
    by (simp only: xor.assoc xor_self_eq xor.right_neutral xor.left_neutral)
qed

lemma xorshift_inj: "0 < n \<Longrightarrow> xorshift n a = xorshift n b \<Longrightarrow> a = b"
proof -
  assume n: "0 < n" and eq: "xorshift n a = xorshift n b"
  then have "xorshift n (a XOR b) = 0"
    by (simp only: xorshift_xor xor_self_eq)
  then have "a XOR b = drop_bit n (a XOR b)"
    unfolding xorshift_def by (rule xor_zero_eq)
  then have "a XOR b = 0"
    by (intro drop_bit_fixpoint [OF _ n]) (rule sym)
  then show ?thesis
    by (rule xor_zero_eq)
qed

lemma mult_inj_of_inverse: "c * d = (1 :: 64 word) \<Longrightarrow> a * c = b * c \<Longrightarrow> a = b"
proof -
  assume inv: "c * d = 1" and eq: "a * c = b * c"
  from eq have "a * c * d = b * c * d"
    by (rule arg_cong)
  then show ?thesis
    by (simp only: mult.assoc inv mult_1_right)
qed

lemma splitmix_mult_inj:
  "a * 0xBF58476D1CE4E5B9 = b * (0xBF58476D1CE4E5B9 :: 64 word) \<Longrightarrow> a = b"
  "a * 0x94D049BB133111EB = b * (0x94D049BB133111EB :: 64 word) \<Longrightarrow> a = b"
proof -
  have "(0xBF58476D1CE4E5B9 :: 64 word) * 0x96DE1B173F119089 = 1"
    and "(0x94D049BB133111EB :: 64 word) * 0x319642B2D24D8EC3 = 1"
    by simp_all
  from this [THEN mult_inj_of_inverse]
  show "a * 0xBF58476D1CE4E5B9 = b * (0xBF58476D1CE4E5B9 :: 64 word) \<Longrightarrow> a = b"
    "a * 0x94D049BB133111EB = b * (0x94D049BB133111EB :: 64 word) \<Longrightarrow> a = b"
    by blast+
qed

lemma next_u64_value:
  "fst (next_u64 g) = xorshift 31 (xorshift 27 (xorshift 30
     (rng_state g + 0x9E3779B97F4A7C15) * 0xBF58476D1CE4E5B9) * 0x94D049BB133111EB)"
  by (simp add: next_u64_def Let_def)

lemma next_u64_state: "rng_state (snd (next_u64 g)) = rng_state g + 0x9E3779B97F4A7C15"
  by (simp add: next_u64_def Let_def)

text \<open>
  Every state of the generator produces a different 64-bit output, so one stream visits each
  64-bit value exactly once per period and two generators in different states never agree on their
  next value.
\<close>

lemma next_u64_injective: "inj (\<lambda>g. fst (next_u64 g))"
proof (rule injI)
  fix g h :: splitmix64
  assume "fst (next_u64 g) = fst (next_u64 h)"
  then have "rng_state g + 0x9E3779B97F4A7C15 = rng_state h + 0x9E3779B97F4A7C15"
    unfolding next_u64_value
    by (blast dest: xorshift_inj [rotated] splitmix_mult_inj intro: zero_less_numeral)
  then show "g = h"
    by simp
qed

subsection \<open>Bounded draws and filled buffers\<close>

lemma unat64_less: "unat (x :: 64 word) < 2 ^ 64"
  using unsigned_less [of x, where ?'a = nat] by simp

lemma unat64_of_nat: "n < 2 ^ 64 \<Longrightarrow> unat (of_nat n :: 64 word) = n"
  by (simp add: unat_of_nat)

lemma scaled_product_less: "v < 2 ^ 64 \<Longrightarrow> 0 < n \<Longrightarrow> (v * n) div 2 ^ 64 < (n::nat)"
  by (simp add: div_less_iff_less_mult)

text \<open>
  A bounded draw lies below its bound whenever the bound is nonzero, and a zero bound draws 0
  without advancing the generator.
\<close>

lemma rng_below_bound:
  "if bound = 0 then rng_below g bound = (0, g)
   else fst (rng_below g bound) < bound \<and>
        rng_state (snd (rng_below g bound)) = rng_state g + 0x9E3779B97F4A7C15"
proof (cases "bound = 0")
  case True
  then show ?thesis by (simp add: rng_below_def)
next
  case False
  let ?v = "fst (next_u64 g)"
  have "unat ?v < 2 ^ 64"
    by (rule unat64_less)
  then have q: "(unat ?v * unat bound) div 2 ^ 64 < unat bound"
    using False by (intro scaled_product_less) (simp_all add: unat_gt_0)
  moreover have "unat bound < 2 ^ 64"
    by (rule unat64_less)
  ultimately have "(of_nat ((unat ?v * unat bound) div 2 ^ 64) :: 64 word) < bound"
    by (simp only: word_less_nat_alt unat64_of_nat less_trans)
  with False show ?thesis
    by (simp add: rng_below_def case_prod_beta next_u64_state)
qed

lemma length_to_le_bytes [simp]: "length (to_le_bytes v) = 8"
  by (simp add: to_le_bytes_def)

lemma rng_fill_length: "length (fst (rng_fill g len)) = len"
proof (induction g len rule: rng_fill.induct)
  case (1 g len)
  show ?case
  proof (cases "len = 0")
    case True
    then show ?thesis by (simp add: rng_fill.simps)
  next
    case False
    obtain v g' where next_v: "next_u64 g = (v, g')"
      by fastforce
    with False "1.IH" have "length (fst (rng_fill g' (len - 8))) = len - 8"
      by simp
    with False next_v show ?thesis
      by (subst rng_fill.simps) (simp add: case_prod_beta Let_def)
  qed
qed

end
