(* ===== verification/Racer_Route.thy ===== *)
theory Racer_Route
  imports Racer_Prelude
begin

section \<open>Route budgets and hop decisions (core/src/route.rs)\<close>

text \<open>
  The route budget rule shared by the dataplane and the peer wire format, the hop decision at a
  node, the failure tables of relays and destinations, the link evidence of an exchange, and the
  validity rules of signed responses.

  Link counts (\<open>u8\<close>) and the page and byte budgets (\<open>u64\<close>) are \<open>nat\<close>; additions the source checks
  or saturates are written with their bound. Constructor prefixes keep the source's overlapping
  variant names apart: \<open>F_\<close> for \<open>Fault\<close>, \<open>R_\<close> for \<open>Response\<close>, \<open>O_\<close> for \<open>Outcome\<close>.
\<close>

definition MAX_LINKS :: nat where
  "MAX_LINKS = 8"

datatype route_fault = RouteDeadlineExceeded | RouteHopBudgetExhausted | RouteInvalid

subsection \<open>Wire form and search form\<close>

definition within_wire :: "nat \<Rightarrow> nat \<Rightarrow> bool" where
  "within_wire visited links \<longleftrightarrow> sat_add u64_max visited links \<le> MAX_LINKS + 1"

definition check_wire :: "nat \<Rightarrow> nat \<Rightarrow> route_fault + unit" where
  "check_wire visited links =
     (if links = 0 \<or> links > MAX_LINKS \<or> visited = 0 \<or> \<not> within_wire visited links
      then Inl RouteHopBudgetExhausted else Inr ())"

definition check_wire_transition :: "nat \<Rightarrow> nat \<Rightarrow> route_fault + unit" where
  "check_wire_transition old_links new_links =
     (if old_links \<le> 1 \<or> new_links \<noteq> old_links - 1
      then Inl RouteHopBudgetExhausted else Inr ())"

text \<open>The scan \<open>visited[..i].contains(node)\<close> over every index.\<close>

definition has_repeat :: "'n list \<Rightarrow> bool" where
  "has_repeat visited = list_ex (\<lambda>i. visited ! i \<in> set (take i visited)) [0..<length visited]"

definition validate ::
  "'n list \<Rightarrow> 'n \<Rightarrow> 'n \<Rightarrow> nat \<Rightarrow> instant \<Rightarrow> instant \<Rightarrow> route_fault + unit" where
  "validate visited holder destination links deadline now =
     (if now \<ge> deadline then Inl RouteDeadlineExceeded
      else if length visited > MAX_LINKS \<or> length visited + links > MAX_LINKS
        then Inl RouteHopBudgetExhausted
      else if holder \<in> set visited \<or> destination \<in> set visited \<or> has_repeat visited
        then Inl RouteInvalid
      else Inr ())"

definition forward ::
  "'n list \<Rightarrow> 'n \<Rightarrow> 'n \<Rightarrow> 'n \<Rightarrow> nat \<Rightarrow> instant \<Rightarrow> instant \<Rightarrow> route_fault + nat" where
  "forward visited holder nxt destination links deadline now =
     (case validate visited holder destination links deadline now of
        Inl e \<Rightarrow> Inl e
      | Inr _ \<Rightarrow>
          if links = 0 then Inl RouteHopBudgetExhausted
          else if nxt = holder \<or> nxt \<in> set visited then Inl RouteInvalid
          else Inr (links - 1))"

definition search_budget :: "'n list \<Rightarrow> nat \<Rightarrow> 'n \<Rightarrow> route_fault + nat \<times> nat" where
  "search_budget visited links local =
     (if visited \<noteq> [] \<and> last visited = local then Inr (length visited - 1, links)
      else case checked_sub links 1 of
             None \<Rightarrow> Inl RouteHopBudgetExhausted
           | Some links' \<Rightarrow> Inr (length visited, links'))"

definition relay :: "'n list \<Rightarrow> 'n \<Rightarrow> nat \<Rightarrow> 'n \<Rightarrow> route_fault + nat" where
  "relay visited destination links local =
     (if destination = local \<or> local \<in> set visited then Inl RouteInvalid
      else ok_or RouteHopBudgetExhausted (checked_sub links 1))"

text \<open>
  Milliseconds of backoff. The shift is at most 8, so the \<open>u64\<close> base never overflows; the result is
  the millisecond count handed to \<open>Duration::from_millis\<close>.
\<close>

definition backoff_base :: "nat \<Rightarrow> nat" where
  "backoff_base failures = min (100 * 2 ^ min (failures - 1) 8) 20000"

definition link_backoff :: "nat \<Rightarrow> nat \<Rightarrow> nat" where
  "link_backoff failures jitter =
     (let base = backoff_base failures in base + jitter mod (base div 4 + 1))"

subsection \<open>The hop decision\<close>

datatype fault =
    F_Overloaded | F_Unavailable | F_Io | F_Os | F_DeadlineExceeded | F_BadGateway
  | F_CorruptRecord | F_Cancelled | F_HopBudgetExhausted | F_IncompatibleMembership
  | F_NotFound | F_VersionUnavailable | F_Unauthorized | F_OriginForbidden | F_MissingKey
  | F_Other

record relay_plan =
  plan_search :: "route_fault + nat \<times> nat"
  plan_outbound :: "route_fault + nat"

datatype hop = HopStaleMembership | HopServe | HopRelay relay_plan

definition decide_hop :: "'n \<Rightarrow> 'n list \<Rightarrow> 'n \<Rightarrow> nat \<Rightarrow> bool \<Rightarrow> hop" where
  "decide_hop local visited destination links membership_known =
     (if \<not> membership_known then HopStaleMembership
      else if destination = local then HopServe
      else HopRelay \<lparr>plan_search = search_budget visited links local,
                     plan_outbound = relay visited destination links local\<rparr>)"

subsection \<open>Failure tables\<close>

datatype response =
    R_Overloaded | R_Unavailable | R_NotFound | R_VersionUnavailable | R_OriginRejected
  | R_OriginForbidden | R_StaleMembership

datatype relay_failure_action =
    RelayRespond response
  | RelayRespondIfLive response
  | RelayPropagate

definition relay_failure :: "fault \<Rightarrow> bool \<Rightarrow> relay_failure_action" where
  "relay_failure f ping =
     (if (f = F_Io \<or> f = F_Os) \<and> ping then RelayPropagate
      else case f of
             F_Overloaded \<Rightarrow> RelayRespond R_Overloaded
           | F_Unavailable \<Rightarrow> RelayRespondIfLive R_Unavailable
           | F_Io \<Rightarrow> RelayRespondIfLive R_Unavailable
           | F_Os \<Rightarrow> RelayRespondIfLive R_Unavailable
           | F_HopBudgetExhausted \<Rightarrow> RelayRespondIfLive R_Unavailable
           | F_IncompatibleMembership \<Rightarrow> RelayRespondIfLive R_Unavailable
           | _ \<Rightarrow> RelayPropagate)"

fun serve_failure :: "fault \<Rightarrow> response option" where
  "serve_failure F_NotFound = Some R_NotFound"
| "serve_failure F_VersionUnavailable = Some R_VersionUnavailable"
| "serve_failure F_Overloaded = Some R_Overloaded"
| "serve_failure F_Unauthorized = Some R_OriginRejected"
| "serve_failure F_OriginForbidden = Some R_OriginForbidden"
| "serve_failure F_Unavailable = Some R_Unavailable"
| "serve_failure F_Io = Some R_Unavailable"
| "serve_failure F_Os = Some R_Unavailable"
| "serve_failure F_MissingKey = Some R_Unavailable"
| "serve_failure F_CorruptRecord = Some R_Unavailable"
| "serve_failure _ = None"

definition waiter_failure :: "fault \<Rightarrow> response option" where
  "waiter_failure f = (if f = F_Overloaded then Some R_Overloaded else None)"

subsection \<open>Link evidence\<close>

datatype link_outcome = LinkSuccess | LinkTimeout | LinkRefused | LinkProtocolFailure

definition operation_link_outcome :: "fault + unit \<Rightarrow> link_outcome option" where
  "operation_link_outcome result =
     (case result of
        Inr _ \<Rightarrow> Some LinkSuccess
      | Inl f \<Rightarrow>
          if f = F_Io \<or> f = F_Os \<or> f = F_Unavailable then Some LinkRefused
          else if f = F_DeadlineExceeded then Some LinkTimeout
          else if f = F_BadGateway \<or> f = F_CorruptRecord then Some LinkProtocolFailure
          else if f = F_Cancelled \<or> f = F_Overloaded then None
          else Some LinkSuccess)"

datatype exchange =
    ExchangeComplete bool
  | ExchangeStreaming
  | ExchangeFailed fault bool

text \<open>\<open>flow_control::AdaptiveOutcome\<close> (flow/src/admission.rs).\<close>

datatype adaptive_outcome =
  AdaptiveVerified | AdaptivePeerFailure | AdaptiveLocalPressure | AdaptiveNeutral

fun exchange_evidence ::
  "exchange \<Rightarrow> bool \<Rightarrow> link_outcome option \<times> adaptive_outcome \<times> bool option" where
  "exchange_evidence (ExchangeComplete True) admitted =
     (Some LinkSuccess, AdaptiveNeutral, Some True)"
| "exchange_evidence (ExchangeComplete False) admitted =
     (Some LinkSuccess, AdaptiveVerified, Some True)"
| "exchange_evidence ExchangeStreaming admitted = (None, AdaptiveNeutral, Some True)"
| "exchange_evidence (ExchangeFailed f socket_failure) admitted =
     ((if socket_failure \<and> \<not> admitted then Some LinkRefused else None),
      (if f = F_Overloaded then AdaptiveLocalPressure else AdaptiveNeutral),
      (if \<not> socket_failure \<and> (f = F_DeadlineExceeded \<or> f = F_Cancelled)
       then Some False else None))"

subsection \<open>Response validity\<close>

datatype wire_outcome =
    O_Page | O_Metadata | O_Bootstrap | O_Selected | O_NotFound | O_Prefetch | O_Other

definition outcome_from_wire :: "string \<Rightarrow> wire_outcome" where
  "outcome_from_wire v =
     (if v = ''page'' then O_Page
      else if v = ''metadata'' then O_Metadata
      else if v = ''bootstrap'' then O_Bootstrap
      else if v = ''selected'' then O_Selected
      else if v = ''not-found'' then O_NotFound
      else if v = ''prefetch'' then O_Prefetch
      else O_Other)"

definition asserts_success :: "wire_outcome \<Rightarrow> bool" where
  "asserts_success x \<longleftrightarrow> x \<noteq> O_Other"

definition is_prefetch :: "wire_outcome \<Rightarrow> bool" where
  "is_prefetch x \<longleftrightarrow> x = O_Prefetch"

definition echoes_operation :: "wire_outcome \<Rightarrow> bool" where
  "echoes_operation x \<longleftrightarrow> x = O_Page \<or> x = O_Metadata \<or> x = O_Bootstrap"

definition not_found_ok :: "string \<Rightarrow> string \<Rightarrow> string \<Rightarrow> bool" where
  "not_found_ok operation mode selector \<longleftrightarrow>
     (operation = ''metadata'' \<or> operation = ''bootstrap'') \<and> mode = ''acquire'' \<and>
     selector = ''fresh''"

definition grant_membership_ok :: "nat \<Rightarrow> nat \<Rightarrow> bool" where
  "grant_membership_ok grant route \<longleftrightarrow> grant = route"

definition grant_receiver_ok :: "'n list \<Rightarrow> 'n \<Rightarrow> bool" where
  "grant_receiver_ok visited receiver \<longleftrightarrow> (case visited of [] \<Rightarrow> False | v # _ \<Rightarrow> v = receiver)"

definition grant_deadline_ok :: "nat \<Rightarrow> nat \<Rightarrow> nat \<Rightarrow> bool" where
  "grant_deadline_ok grant_ms route_ms now_ms \<longleftrightarrow> grant_ms \<le> route_ms \<and> grant_ms > now_ms"

definition page_budget_ok :: "nat \<Rightarrow> nat \<Rightarrow> bool" where
  "page_budget_ok granted requested \<longleftrightarrow> checked_add u64_max granted 1 = Some requested"

definition byte_budget_ok :: "nat \<Rightarrow> nat \<Rightarrow> nat \<Rightarrow> bool" where
  "byte_budget_ok granted ciphertext requested \<longleftrightarrow>
     checked_add u64_max granted ciphertext = Some requested"

text \<open>\<open>Option\<close> is ordered with \<open>None\<close> below every \<open>Some\<close>.\<close>

definition flights_ok :: "nat option \<Rightarrow> nat option \<Rightarrow> bool" where
  "flights_ok granted requested \<longleftrightarrow>
     (granted \<noteq> None) = (requested \<noteq> None) \<and>
     (case granted of
        None \<Rightarrow> True
      | Some g \<Rightarrow> (case requested of None \<Rightarrow> False | Some r \<Rightarrow> g \<le> r))"

definition bootstrap_presence_ok :: "nat \<Rightarrow> nat \<Rightarrow> bool" where
  "bootstrap_presence_ok len present \<longleftrightarrow> present = (if len \<noteq> 0 then 1 else 0)"

subsection \<open>Routes are bounded and never revisit a node\<close>

lemma in_take_iff: "i < length xs \<Longrightarrow> xs ! i \<in> set (take i xs) \<longleftrightarrow> (\<exists>j < i. xs ! j = xs ! i)"
  by (auto simp: in_set_conv_nth)

lemma has_repeat_iff: "has_repeat visited \<longleftrightarrow> \<not> distinct visited"
proof
  assume "has_repeat visited"
  then obtain i j where "i < length visited" "j < i" "visited ! j = visited ! i"
    by (auto simp: has_repeat_def list_ex_iff in_take_iff)
  then show "\<not> distinct visited"
    using nth_eq_iff_index_eq [of visited j i] by auto
next
  assume "\<not> distinct visited"
  then obtain i j where ij: "i < length visited" "j < length visited" "i \<noteq> j"
      "visited ! i = visited ! j"
    by (auto simp: distinct_conv_nth)
  then have "max i j < length visited" "\<exists>k < max i j. visited ! k = visited ! max i j"
    by (auto simp: max_def min_def intro!: exI [of _ "min i j"])
  then show "has_repeat visited"
    by (auto simp: has_repeat_def list_ex_iff in_take_iff)
qed

lemma validate_ok_iff:
  "validate visited holder destination links deadline now = Inr () \<longleftrightarrow>
     now < deadline \<and> length visited + links \<le> MAX_LINKS \<and> distinct (visited @ [holder]) \<and>
     destination \<notin> set visited"
  by (auto simp: validate_def has_repeat_iff not_le)

lemma forward_ok_iff:
  "forward visited holder nxt destination links deadline now = Inr links' \<longleftrightarrow>
     validate visited holder destination links deadline now = Inr () \<and>
     nxt \<notin> set (visited @ [holder]) \<and> links = Suc links'"
  by (cases "validate visited holder destination links deadline now")
    (auto simp: forward_def split: if_splits)

text \<open>
  A route in search form: the visited prefix, the node that holds the request and the links it may
  still spend. It starts at an origin with some budget; each hop is one successful \<open>forward\<close>, at any
  time, after which the holder joins the visited prefix.
\<close>

inductive route_run :: "'n \<Rightarrow> 'n \<Rightarrow> instant \<Rightarrow> nat \<Rightarrow> 'n list \<Rightarrow> 'n \<Rightarrow> nat \<Rightarrow> bool"
  for origin destination :: 'n and deadline :: instant and budget :: nat where
  route_start: "route_run origin destination deadline budget [] origin budget"
| route_hop: "route_run origin destination deadline budget visited holder links \<Longrightarrow>
    forward visited holder nxt destination links deadline now = Inr links' \<Longrightarrow>
    route_run origin destination deadline budget (visited @ [holder]) nxt links'"

text \<open>
  C8: however a request is forwarded, its route visits no node twice, spends at most \<open>MAX_LINKS\<close>
  links, accounts for every link of the budget it started with, and is never forwarded on by its
  destination more than once (the destination only ever closes the visited prefix).
\<close>

theorem route_run_safe:
  assumes "route_run origin destination deadline budget visited holder links"
  shows "distinct (visited @ [holder]) \<and> length visited \<le> MAX_LINKS \<and>
    length visited + links = budget \<and> destination \<notin> set (butlast visited)"
  using assms
proof (induction rule: route_run.induct)
  case route_start
  then show ?case by simp
next
  case (route_hop visited holder links nxt now links')
  then have v: "validate visited holder destination links deadline now = Inr ()"
    and n: "nxt \<notin> set (visited @ [holder])" and l: "links = Suc links'"
    by (auto simp: forward_ok_iff)
  from v l have "Suc (length visited) \<le> MAX_LINKS" and "destination \<notin> set visited"
    by (auto simp: validate_ok_iff)
  with route_hop.IH n l show ?case
    by auto
qed

theorem route_run_safe_witness:
  "route_run (1::nat) 3 10 2 [1, 2] 3 0 \<and> distinct [1::nat, 2, 3] \<and> 2 \<le> MAX_LINKS"
proof -
  have "route_run (1::nat) 3 10 2 [] 1 2"
    by (rule route_start)
  then have "route_run (1::nat) 3 10 2 ([] @ [1]) 2 1"
    by (rule route_hop [where now = 0])
      (simp add: forward_ok_iff validate_ok_iff MAX_LINKS_def)
  then have run: "route_run (1::nat) 3 10 2 (([] @ [1]) @ [2]) 3 0"
    by (rule route_hop [where now = 1])
      (simp add: forward_ok_iff validate_ok_iff MAX_LINKS_def)
  with route_run_safe [OF run] show ?thesis
    by simp
qed

subsection \<open>Wire form implements search form\<close>

lemma within_wire_iff: "within_wire visited links \<longleftrightarrow> visited + links \<le> MAX_LINKS + 1"
  by (auto simp: within_wire_def sat_add_def MAX_LINKS_def)

lemma check_wire_ok_iff:
  "check_wire visited links = Inr () \<longleftrightarrow>
     0 < links \<and> links \<le> MAX_LINKS \<and> 0 < visited \<and> visited + links \<le> MAX_LINKS + 1"
  by (auto simp: check_wire_def within_wire_iff)

lemma relay_ok_iff:
  "relay visited destination links local = Inr links' \<longleftrightarrow>
     destination \<noteq> local \<and> local \<notin> set visited \<and> links = Suc links'"
  by (auto simp: relay_def)

text \<open>
  C30: what a relay sends on is a valid route again. If a received route passes the wire check and the
  relay accepts it, then the search budget it derives keeps the whole visited prefix and obeys the
  search-form rule, the outbound route obeys the wire sum rule with the relay appended, and unless
  its last link was just spent it passes the wire check and is a legal one-link transition of the
  signed count.
\<close>

theorem relay_preserves_wire:
  assumes "check_wire (length visited) links = Inr ()"
    and "relay visited destination links local = Inr links'"
  shows "search_budget visited links local = Inr (length visited, links') \<and>
    length visited + links' \<le> MAX_LINKS \<and>
    within_wire (length (visited @ [local])) links' \<and>
    (0 < links' \<longrightarrow> check_wire (length (visited @ [local])) links' = Inr () \<and>
      check_wire_transition links links' = Inr ())"
proof -
  from assms have wire: "0 < length visited" "length visited + links \<le> MAX_LINKS + 1"
      "links \<le> MAX_LINKS"
    and fresh: "local \<notin> set visited" and links: "links = Suc links'"
    by (auto simp: check_wire_ok_iff relay_ok_iff)
  have "visited \<noteq> [] \<Longrightarrow> last visited \<noteq> local"
    using fresh last_in_set by metis
  then have "search_budget visited links local = Inr (length visited, links')"
    using links by (auto simp: search_budget_def checked_sub_def)
  with wire links show ?thesis
    by (auto simp: within_wire_iff check_wire_ok_iff check_wire_transition_def)
qed

theorem relay_preserves_wire_witness:
  "check_wire 1 4 = Inr () \<and> relay [1::nat] 9 4 2 = Inr 3 \<and>
   search_budget [1::nat] 4 2 = Inr (1, 3) \<and> check_wire (length [1::nat, 2]) 3 = Inr ()"
proof -
  have a: "check_wire (length [1::nat]) 4 = Inr ()"
    by (simp add: check_wire_ok_iff MAX_LINKS_def)
  have b: "relay [1::nat] 9 4 2 = Inr 3"
    by (simp add: relay_ok_iff)
  from relay_preserves_wire [OF a b] a b show ?thesis
    by simp
qed

subsection \<open>Backoff, failure tables and evidence\<close>

lemma backoff_base_mono: "m \<le> n \<Longrightarrow> backoff_base m \<le> backoff_base n"
proof -
  assume "m \<le> n"
  then have "(2::nat) ^ min (m - 1) 8 \<le> 2 ^ min (n - 1) 8"
    by (intro power_increasing) auto
  then show ?thesis
    unfolding backoff_base_def by (intro min.mono mult_le_mono2) simp_all
qed

lemma backoff_base_bounds: "100 \<le> backoff_base n \<and> backoff_base n \<le> 20000"
  by (auto simp: backoff_base_def)

text \<open>
  The link retry backoff starts at 100 ms, never exceeds 25 s, adds at most a quarter of its base
  as jitter, and its base never shrinks as failures accumulate.
\<close>

lemma link_backoff_bounds:
  "100 \<le> link_backoff failures jitter \<and> link_backoff failures jitter \<le> 25000 \<and>
   link_backoff failures jitter \<le> backoff_base failures + backoff_base failures div 4 \<and>
   backoff_base failures \<le> backoff_base (failures + k) \<and>
   backoff_base failures \<le> link_backoff failures jitter"
proof -
  let ?b = "backoff_base failures"
  have j: "jitter mod (?b div 4 + 1) \<le> ?b div 4"
    using mod_less_divisor [of "?b div 4 + 1" jitter] by linarith
  have eq: "link_backoff failures jitter = ?b + jitter mod (?b div 4 + 1)"
    by (simp add: link_backoff_def Let_def)
  have "?b div 4 \<le> 5000"
    using backoff_base_bounds [of failures] by linarith
  with j eq backoff_base_bounds [of failures] backoff_base_mono [of failures "failures + k"]
  show ?thesis
    by linarith
qed



text \<open>
  only a failed socket of an exchange that had not been admitted blames the immediate peer's link;
  a downstream failure never does, and silence evidence against the peer is recorded only when the
  socket itself worked and the exchange timed out or was cancelled.
\<close>

lemma exchange_evidence_blame:
  "exchange_evidence x admitted = (link, adaptive, silence) \<Longrightarrow>
   (link \<in> {Some LinkRefused, Some LinkTimeout, Some LinkProtocolFailure} \<longleftrightarrow>
      \<not> admitted \<and> (\<exists>f. x = ExchangeFailed f True)) \<and>
   (silence = Some False \<longleftrightarrow>
      x \<in> {ExchangeFailed F_DeadlineExceeded False, ExchangeFailed F_Cancelled False}) \<and>
   (adaptive = AdaptiveVerified \<longleftrightarrow> x = ExchangeComplete False) \<and> adaptive \<noteq> AdaptivePeerFailure"
  by (cases "(x, admitted)" rule: exchange_evidence.cases) (auto split: if_splits)

end
