(* ===== verification/Racer_Errors.thy ===== *)
theory Racer_Errors
  imports Racer_Prelude
begin

section \<open>Read-path errors (core/src/read/mod.rs)\<close>

text \<open>
  The errors the read decisions produce or interpret. \<open>Os\<close> carries the operating system's error
  number. \<open>'a res\<close> is the source's \<open>Result<T>\<close>.
\<close>

datatype error =
    InvalidConfiguration
  | InvalidRequest
  | HeaderTooLarge
  | NotFound
  | Internal
  | VersionUnavailable
  | Unavailable
  | Overloaded
  | DeadlineExceeded
  | Cancelled
  | Unauthorized
  | OriginRejected
  | OriginForbidden
  | IncompatibleMembership
  | HopBudgetExhausted
  | CorruptRecord
  | MissingKey
  | Io
  | Os int

type_synonym 'a res = "error + 'a"

end
