(* ===== verification/Racer_Candidates.thy ===== *)
theory Racer_Candidates
  imports Racer_Errors
begin

section \<open>Candidate order, response classification, origin authority (core/src/read/mod.rs)\<close>

text \<open>
  The last part of \<open>read/mod.rs\<close>: in which order a non-owner visits a page's at most three ranked
  owners, what an authenticated answer means for the walk, and when an origin authority is valid.
  \<open>replica_score\<close> (a process-local hash that only spreads load) is a parameter of \<open>visit_order\<close>, as it
  is in the source.
\<close>

datatype probe_outcome =
    CopyMiss | Unreachable | OutcomeOverloaded | OutcomeVersionUnavailable | UnusableCopy

datatype replica_selection = Primary | Spread

subsection \<open>Visit order\<close>

text \<open>Three ranks and how many of them count, as in the source's array and length.\<close>

record visit_order =
  vo_ranks :: "nat list"
  vo_len :: nat

definition canonical_order :: "nat \<Rightarrow> visit_order" where
  "canonical_order len = \<lparr>vo_ranks = [0, 1, 2], vo_len = min len 3\<rparr>"

definition order_ranks :: "visit_order \<Rightarrow> nat list" where
  "order_ranks order = take (vo_len order) (vo_ranks order)"

definition order_get :: "visit_order \<Rightarrow> nat \<Rightarrow> nat option" where
  "order_get order index =
     (if index < length (order_ranks order) then Some (order_ranks order ! index) else None)"

definition visit_order_for ::
  "replica_selection \<Rightarrow> nat \<Rightarrow> (nat \<Rightarrow> bool) \<Rightarrow> (nat \<Rightarrow> nat) \<Rightarrow> visit_order" where
  "visit_order_for selection len neighbor score =
     (let order = canonical_order len in
      if selection = Primary \<or> vo_len order < 2 then order
      else order\<lparr>vo_ranks :=
             sort_key (\<lambda>rank. ((\<not> neighbor rank, u64_max - score rank), rank))
               (take (vo_len order) (vo_ranks order)) @ drop (vo_len order) (vo_ranks order)\<rparr>)"

text \<open>\<open>rotate_right(1)\<close> of the first \<open>i + 1\<close> ranks brings the rank at \<open>i\<close> to the front.\<close>

definition lineage_first ::
  "visit_order \<Rightarrow> nat option list \<Rightarrow> (nat \<Rightarrow> bool) \<Rightarrow> visit_order" where
  "lineage_first order since neighbor =
     (let at = (\<lambda>rank. if rank < length since then since ! rank else None) in
      case order_get order 0 of
        None \<Rightarrow> order
      | Some first \<Rightarrow>
          (case at first of
             None \<Rightarrow> order
           | Some newest \<Rightarrow>
               (case List.find
                       (\<lambda>i. let rank = vo_ranks order ! i in
                          rank > first \<and> (\<not> neighbor first \<or> neighbor rank) \<and>
                          (case at rank of None \<Rightarrow> False | Some s \<Rightarrow> s < newest))
                       [1..<vo_len order] of
                  None \<Rightarrow> order
                | Some i \<Rightarrow>
                    order\<lparr>vo_ranks := (vo_ranks order ! i) # take i (vo_ranks order) @
                                      drop (i + 1) (vo_ranks order)\<rparr>)))"

datatype answering = Answers | Unanswered | Silent

text \<open>The derived order of the source: declaration order.\<close>

fun answering_rank :: "answering \<Rightarrow> nat" where
  "answering_rank Answers = 0"
| "answering_rank Unanswered = 1"
| "answering_rank Silent = 2"

instantiation answering :: linorder
begin

definition less_eq_answering :: "answering \<Rightarrow> answering \<Rightarrow> bool" where
  "less_eq_answering a b \<longleftrightarrow> answering_rank a \<le> answering_rank b"

definition less_answering :: "answering \<Rightarrow> answering \<Rightarrow> bool" where
  "less_answering a b \<longleftrightarrow> answering_rank a < answering_rank b"

instance
proof
  fix a b :: answering
  show "a \<le> b \<Longrightarrow> b \<le> a \<Longrightarrow> a = b"
    by (cases a; cases b) (simp_all add: less_eq_answering_def)
qed (auto simp: less_eq_answering_def less_answering_def)

end

definition demote_unanswered :: "visit_order \<Rightarrow> (nat \<Rightarrow> answering) \<Rightarrow> visit_order" where
  "demote_unanswered order answering =
     (let ranks = concat (map (\<lambda>pass. filter (\<lambda>rank. answering rank = pass) (order_ranks order))
                            [Answers, Unanswered, Silent])
      in \<lparr>vo_ranks = ranks @ replicate (3 - length ranks) 0, vo_len = vo_len order\<rparr>)"

subsection \<open>Classification of answers\<close>

datatype operation_kind = Op_Subscribe | Op_Page | Op_Metadata bool | Op_Bootstrap | Op_Prefetch

datatype response_kind =
    K_Selected | K_Bootstrap | K_Page | K_Metadata | K_Miss | K_NotFound | K_VersionUnavailable
  | K_Unavailable | K_Overloaded | K_OriginRejected | K_OriginForbidden | K_StaleMembership
  | K_Prefetch

definition has_payload :: "response_kind \<Rightarrow> bool" where
  "has_payload k \<longleftrightarrow> k = K_Selected \<or> k = K_Bootstrap \<or> k = K_Page \<or> k = K_Metadata"

fun answers :: "response_kind \<Rightarrow> operation_kind \<Rightarrow> bool" where
  "answers K_Selected Op_Subscribe = True"
| "answers K_Bootstrap Op_Bootstrap = True"
| "answers K_Page Op_Page = True"
| "answers K_Metadata (Op_Metadata _) = True"
| "answers _ _ = False"

text \<open>\<open>validate\<close> is called at most once and only for a payload that answers the operation.\<close>

definition classify ::
  "response_kind \<Rightarrow> operation_kind \<Rightarrow> bool \<Rightarrow> (unit \<Rightarrow> unit res) \<Rightarrow> probe_outcome option res" where
  "classify response operation acquire validate =
     (if has_payload response
      then if \<not> answers response operation then Inl CorruptRecord
           else case validate () of Inl e \<Rightarrow> Inl e | Inr _ \<Rightarrow> Inr None
      else case response of
             K_Miss \<Rightarrow> Inr (Some CopyMiss)
           | K_NotFound \<Rightarrow>
               Inl (if (operation = Op_Bootstrap \<or> operation = Op_Metadata True) \<and> acquire
                    then NotFound else Unauthorized)
           | K_VersionUnavailable \<Rightarrow> Inr (Some OutcomeVersionUnavailable)
           | K_Unavailable \<Rightarrow> Inr (Some Unreachable)
           | K_Overloaded \<Rightarrow> Inr (Some OutcomeOverloaded)
           | K_OriginRejected \<Rightarrow> Inl OriginRejected
           | K_OriginForbidden \<Rightarrow> Inl OriginForbidden
           | K_StaleMembership \<Rightarrow> Inl IncompatibleMembership
           | _ \<Rightarrow> Inl CorruptRecord)"

definition unusable_copy :: "error \<Rightarrow> operation_kind \<Rightarrow> probe_outcome option" where
  "unusable_copy e operation =
     (if (e = CorruptRecord \<or> e = MissingKey) \<and> (operation = Op_Page \<or> operation = Op_Bootstrap)
      then Some UnusableCopy else None)"

definition origin_miss_error :: "probe_outcome list \<Rightarrow> error" where
  "origin_miss_error evidence =
     (if list_ex (\<lambda>x. x = Unreachable \<or> x = OutcomeOverloaded \<or> x = UnusableCopy) evidence
      then Unavailable else VersionUnavailable)"

text \<open>Expected acquisition failures as the peer response that reports them.\<close>

fun peer_error :: "error \<Rightarrow> response_kind option" where
  "peer_error NotFound = Some K_NotFound"
| "peer_error VersionUnavailable = Some K_VersionUnavailable"
| "peer_error Overloaded = Some K_Overloaded"
| "peer_error OriginRejected = Some K_OriginRejected"
| "peer_error OriginForbidden = Some K_OriginForbidden"
| "peer_error Unavailable = Some K_Unavailable"
| "peer_error HopBudgetExhausted = Some K_Unavailable"
| "peer_error DeadlineExceeded = Some K_Unavailable"
| "peer_error _ = None"

subsection \<open>Origin authority\<close>

record 'o authority_facts =
  af_object :: 'o
  af_page :: nat
  af_rank :: nat
  af_evidence :: nat
  af_member :: bool
  af_local :: bool

definition validate_origin_authority :: "'o authority_facts \<Rightarrow> 'o \<Rightarrow> nat \<Rightarrow> unit res" where
  "validate_origin_authority facts object page =
     (if object \<noteq> af_object facts \<or> page \<noteq> af_page facts then Inl Unauthorized
      else if af_rank facts \<ge> 3 \<or> af_evidence facts \<noteq> af_rank facts \<or> \<not> af_member facts
      then Inl Unauthorized
      else if af_local facts \<and> (af_rank facts \<noteq> 0 \<or> af_evidence facts \<noteq> 0) then Inl Unauthorized
      else Inr ())"

definition duplicate_bytes :: "nat \<Rightarrow> nat" where
  "duplicate_bytes page_bytes = page_bytes * 2 + 16"

definition hedge_page_charges :: "nat \<Rightarrow> nat \<Rightarrow> nat \<times> nat" where
  "hedge_page_charges page_bytes pages = (page_bytes * pages, (page_bytes + 16) * pages)"

subsection \<open>Every reordering keeps the owners\<close>

definition order_ok :: "visit_order \<Rightarrow> bool" where
  "order_ok order \<longleftrightarrow>
     vo_len order \<le> 3 \<and> length (vo_ranks order) = 3 \<and>
     mset (order_ranks order) = mset [0..<vo_len order]"

lemma upt3: "[0..<3] = [0, 1, 2 :: nat]"
  by (simp add: upt_rec)

lemma canonical_order_ok: "order_ok (canonical_order len)"
proof -
  have "take (min len 3) [0, 1, 2] = [0..<min len 3]"
    unfolding upt3 [symmetric] by (simp add: take_upt)
  then show ?thesis by (simp add: order_ok_def order_ranks_def canonical_order_def)
qed

lemma visit_order_for_ok:
  "order_ok (visit_order_for selection len neighbor score) \<and>
   vo_len (visit_order_for selection len neighbor score) = min len 3"
proof -
  let ?o = "canonical_order len"
  have "take (vo_len ?o) (sort_key f (take (vo_len ?o) (vo_ranks ?o)) @ drop (vo_len ?o) (vo_ranks ?o)) =
      sort_key f (take (vo_len ?o) (vo_ranks ?o))" for f :: "nat \<Rightarrow> (bool \<times> nat) \<times> nat"
    by (simp add: canonical_order_def)
  then show ?thesis
    using canonical_order_ok [of len]
    by (simp add: visit_order_for_def Let_def order_ok_def order_ranks_def)
      (simp add: canonical_order_def)
qed

text \<open>Moving the element at \<open>i\<close> to the front of a list.\<close>

lemma move_front_mset:
  "i < length xs \<Longrightarrow> mset (xs ! i # take i xs @ drop (i + 1) xs) = mset xs"
proof -
  assume "i < length xs"
  then have "mset (take i xs @ xs ! i # drop (Suc i) xs) = mset xs"
    by (simp add: id_take_nth_drop [symmetric])
  then show ?thesis by simp
qed

lemma move_front_ok:
  assumes "order_ok order" and "i < vo_len order"
  shows "order_ok (order\<lparr>vo_ranks := (vo_ranks order ! i) # take i (vo_ranks order) @
    drop (i + 1) (vo_ranks order)\<rparr>)"
proof -
  let ?r = "vo_ranks order" and ?n = "vo_len order"
  have len: "length ?r = 3" "?n \<le> 3" using assms(1) by (simp_all add: order_ok_def)
  have "take ?n (?r ! i # take i ?r @ drop (i + 1) ?r) =
      take ?n ?r ! i # take i (take ?n ?r) @ drop (i + 1) (take ?n ?r)"
    using assms(2) len by (cases ?n) (auto simp: min_def take_drop Suc_diff_le less_Suc_eq)
  moreover have "mset (take ?n ?r ! i # take i (take ?n ?r) @ drop (i + 1) (take ?n ?r)) =
      mset (take ?n ?r)"
    using assms(2) len by (intro move_front_mset) simp
  ultimately show ?thesis
    using assms len by (simp add: order_ok_def order_ranks_def)
qed

lemma lineage_first_ok:
  assumes "order_ok order"
  shows "order_ok (lineage_first order since neighbor) \<and>
    vo_len (lineage_first order since neighbor) = vo_len order"
  using assms
  by (auto simp: lineage_first_def Let_def find_Some_iff split: option.splits
      intro!: move_front_ok [simplified])

lemma filter_passes_mset:
  "mset (concat (map (\<lambda>pass. filter (\<lambda>rank. answering rank = pass) xs) [Answers, Unanswered, Silent])) =
   mset xs"
proof (induction xs)
  case (Cons x xs)
  then show ?case by (cases "answering x") auto
qed simp

lemma demote_unanswered_ok:
  assumes "order_ok order"
  shows "order_ok (demote_unanswered order answering) \<and>
    order_ranks (demote_unanswered order answering) =
      concat (map (\<lambda>pass. filter (\<lambda>rank. answering rank = pass) (order_ranks order))
        [Answers, Unanswered, Silent])"
proof -
  let ?c = "concat (map (\<lambda>pass. filter (\<lambda>rank. answering rank = pass) (order_ranks order))
        [Answers, Unanswered, Silent])"
  have m: "mset ?c = mset (order_ranks order)" by (rule filter_passes_mset)
  then have l: "length ?c = length (order_ranks order)" by (rule mset_eq_length)
  have len: "vo_len order \<le> 3" "length (order_ranks order) = vo_len order"
    using assms by (auto simp: order_ok_def order_ranks_def)
  then have ranks: "order_ranks (demote_unanswered order answering) = ?c"
    using l by (simp add: demote_unanswered_def Let_def order_ranks_def [of "\<lparr>vo_ranks = _, vo_len = _\<rparr>"])
  moreover have "vo_len (demote_unanswered order answering) = vo_len order"
    "length (vo_ranks (demote_unanswered order answering)) = 3"
    using l len by (simp_all add: demote_unanswered_def Let_def)
  ultimately show ?thesis
    using m assms len by (simp add: order_ok_def)
qed

lemma sorted_passes:
  "sorted (map answering (concat (map (\<lambda>pass. filter (\<lambda>rank. answering rank = pass) xs)
     [Answers, Unanswered, Silent])))"
proof -
  have "sorted (map answering (filter (\<lambda>rank. answering rank = pass) xs))" for pass
    by (induction xs) auto
  then show ?thesis
    by (auto simp: sorted_append less_eq_answering_def)
qed

lemma filter_pass:
  "filter (\<lambda>rank. answering rank = a) (concat (map (\<lambda>pass. filter (\<lambda>rank. answering rank = pass) xs)
     [Answers, Unanswered, Silent])) = filter (\<lambda>rank. answering rank = a) xs"
proof -
  have "filter (\<lambda>rank. answering rank = a) (filter (\<lambda>rank. answering rank = pass) xs) =
      (if a = pass then filter (\<lambda>rank. answering rank = a) xs else [])" for pass
    by (auto simp: filter_empty_conv intro: filter_cong)
  then show ?thesis by (cases a) (simp_all del: filter_filter)
qed

text \<open>
  C21: however a non-owner orders a page's owners (by rank, by neighborhood and score, by lineage, and
  finally by who answers), it visits each of the first three exactly once; owners that answer come
  before those that left a request unanswered and silent ones come last, and within each group the
  preferred order is kept.
\<close>

theorem owner_visit_order:
  "let base = lineage_first (visit_order_for selection len neighbor score) since neighbor';
       final = demote_unanswered base answering
   in mset (order_ranks final) = mset [0..<min len 3] \<and> sorted (map answering (order_ranks final)) \<and>
      (\<forall>a. filter (\<lambda>rank. answering rank = a) (order_ranks final) =
           filter (\<lambda>rank. answering rank = a) (order_ranks base))"
proof -
  define base where "base = lineage_first (visit_order_for selection len neighbor score) since neighbor'"
  have ok: "order_ok base" and len: "vo_len base = min len 3"
    using lineage_first_ok visit_order_for_ok unfolding base_def by metis+
  have "mset (order_ranks base) = mset [0..<min len 3]"
    using ok len by (simp add: order_ok_def)
  then show ?thesis
    using demote_unanswered_ok [OF ok, of answering]
    unfolding Let_def base_def [symmetric]
    by (metis filter_passes_mset sorted_passes filter_pass)
qed

subsection \<open>What answers mean\<close>




end
