(* ===== verification/Racer_Budget.thy ===== *)
theory Racer_Budget
  imports Racer_Errors Racer_Time
begin

unbundle bit_operations_syntax

section \<open>Acquisition credits (core/src/read/budget.rs)\<close>

text \<open>
  The budget one acquisition owns: a deadline, attempts (\<open>u32\<close>) and route links (\<open>u8\<close>), with what was
  charged (\<open>u16\<close>) and what was sent to destinations as remote credits (\<open>u32\<close>). Each operation
  returns \<open>Inl\<close> with the error, in which case the budget is unchanged (the source checks before it
  assigns), or \<open>Inr\<close> with the new budget. The type is not \<open>Clone\<close> in the source; here that a budget
  is used once is visible in how operations thread it.

  The second half models the hot-page overflow rules: shedding and the choice of helpers.
\<close>

record budget =
  b_deadline :: instant
  b_attempts :: nat
  b_links :: nat
  b_charged :: nat
  b_failed_route :: bool
  b_remote_sent :: nat

definition budget_new :: "instant \<Rightarrow> nat \<Rightarrow> nat \<Rightarrow> budget" where
  "budget_new deadline attempts links =
     \<lparr>b_deadline = deadline, b_attempts = attempts, b_links = links, b_charged = 0,
      b_failed_route = False, b_remote_sent = 0\<rparr>"

definition send_remote :: "budget \<Rightarrow> nat \<Rightarrow> (nat \<times> budget) res" where
  "send_remote b attempts =
     (case checked_sub (b_attempts b) attempts of
        None \<Rightarrow> Inl Unavailable
      | Some left \<Rightarrow>
          Inr (attempts, b\<lparr>b_attempts := left,
                            b_remote_sent := sat_add u32_max (b_remote_sent b) attempts\<rparr>))"

definition refund_remote :: "budget \<Rightarrow> nat \<Rightarrow> budget res" where
  "refund_remote b attempts =
     (case checked_sub (b_remote_sent b) attempts of
        None \<Rightarrow> Inl InvalidRequest
      | Some sent \<Rightarrow>
          (case checked_add u32_max (b_attempts b) attempts of
             None \<Rightarrow> Inl InvalidRequest
           | Some available \<Rightarrow> Inr (b\<lparr>b_remote_sent := sent, b_attempts := available\<rparr>)))"

definition begin_attempt :: "budget \<Rightarrow> instant \<Rightarrow> instant \<Rightarrow> (instant \<times> budget) res" where
  "begin_attempt b now caller_deadline =
     (let deadline = min (b_deadline b) caller_deadline in
      if now \<ge> deadline then Inl DeadlineExceeded
      else case checked_sub (b_attempts b) 1 of
             None \<Rightarrow> Inl Unavailable
           | Some left \<Rightarrow> Inr (deadline, b\<lparr>b_attempts := left\<rparr>))"

definition charge_links :: "budget \<Rightarrow> nat \<Rightarrow> budget res" where
  "charge_links b links =
     (case checked_sub (b_links b) links of
        None \<Rightarrow> Inl HopBudgetExhausted
      | Some left \<Rightarrow>
          Inr (b\<lparr>b_links := left, b_charged := sat_add u16_max (b_charged b) links\<rparr>))"

definition refund_links :: "budget \<Rightarrow> nat \<Rightarrow> budget res" where
  "refund_links b links =
     (case checked_sub (b_charged b) links of
        None \<Rightarrow> Inl InvalidRequest
      | Some charged \<Rightarrow>
          (case checked_add u8_max (b_links b) links of
             None \<Rightarrow> Inl InvalidRequest
           | Some available \<Rightarrow> Inr (b\<lparr>b_charged := charged, b_links := available\<rparr>)))"

definition route_links :: "budget \<Rightarrow> nat" where
  "route_links b = min (b_links b) (if b_failed_route b then 8 else 4)"

definition note_route_failure :: "budget \<Rightarrow> budget" where
  "note_route_failure b = b\<lparr>b_failed_route := True\<rparr>"

definition reunite :: "budget \<Rightarrow> budget \<Rightarrow> budget res" where
  "reunite b child =
     (case checked_add u32_max (b_attempts b) (b_attempts child) of
        None \<Rightarrow> Inl InvalidRequest
      | Some attempts \<Rightarrow>
          (case checked_add u8_max (b_links b) (b_links child) of
             None \<Rightarrow> Inl InvalidRequest
           | Some links \<Rightarrow>
               Inr (b\<lparr>b_deadline := min (b_deadline b) (b_deadline child),
                       b_attempts := attempts, b_links := links,
                       b_failed_route := b_failed_route b \<or> b_failed_route child\<rparr>)))"

text \<open>\<open>partition\<close> returns the child and the parent that funded it.\<close>

definition budget_partition :: "budget \<Rightarrow> nat \<Rightarrow> nat \<Rightarrow> (budget \<times> budget) res" where
  "budget_partition b attempts links =
     (case checked_sub (b_attempts b) attempts of
        None \<Rightarrow> Inl Unavailable
      | Some remaining_attempts \<Rightarrow>
          (case checked_sub (b_links b) links of
             None \<Rightarrow> Inl HopBudgetExhausted
           | Some remaining_links \<Rightarrow>
               Inr ((budget_new (b_deadline b) attempts links)
                      \<lparr>b_failed_route := b_failed_route b\<rparr>,
                    b\<lparr>b_attempts := remaining_attempts, b_links := remaining_links\<rparr>)))"

text \<open>\<open>transfer\<close> returns the moved budget and what is left behind.\<close>

definition budget_transfer :: "budget \<Rightarrow> budget \<times> budget" where
  "budget_transfer b =
     (b, b\<lparr>b_attempts := 0, b_links := 0, b_charged := 0, b_remote_sent := 0\<rparr>)"

definition begin_peer_attempt ::
  "budget \<Rightarrow> instant \<Rightarrow> instant \<Rightarrow> nat \<Rightarrow> (instant \<times> budget) res" where
  "begin_peer_attempt b now caller_deadline links =
     (if links = 0 then Inl InvalidRequest
      else let deadline = min (b_deadline b) caller_deadline in
        if now \<ge> deadline then Inl DeadlineExceeded
        else if b_attempts b = 0 then Inl Unavailable
        else case checked_sub (b_links b) links of
               None \<Rightarrow> Inl HopBudgetExhausted
             | Some remaining \<Rightarrow>
                 Inr (deadline,
                      b\<lparr>b_attempts := b_attempts b - 1, b_links := remaining,
                        b_charged := sat_add u16_max (b_charged b) links\<rparr>))"

definition stale_unused_links :: "nat \<Rightarrow> nat \<Rightarrow> nat" where
  "stale_unused_links charged hops = charged - (if hops \<le> u8_max then hops else u8_max)"

definition MAX_ROUTE_LINKS :: nat where
  "MAX_ROUTE_LINKS = 8"

definition NORMAL_ROUTE_LINKS :: nat where
  "NORMAL_ROUTE_LINKS = 4"

definition inherited_budget :: "instant \<Rightarrow> instant \<Rightarrow> nat \<Rightarrow> nat \<Rightarrow> nat \<Rightarrow> budget res" where
  "inherited_budget scope_deadline route_deadline remaining_attempts remaining_links visited =
     (if remaining_links > MAX_ROUTE_LINKS \<or> remaining_links = 0 \<or> visited = 0
      then Inl HopBudgetExhausted
      else case checked_sub remaining_links 1 of
             None \<Rightarrow> Inl HopBudgetExhausted
           | Some links \<Rightarrow>
               let b = budget_new (min scope_deadline route_deadline) remaining_attempts links
               in Inr (if remaining_links > NORMAL_ROUTE_LINKS then note_route_failure b else b))"

subsection \<open>Hot-page overflow\<close>

definition HELPER_ATTEMPTS :: nat where "HELPER_ATTEMPTS = 4"
definition HELPER_LINKS :: nat where "HELPER_LINKS = 8"
definition HELPER_FLOOR_ATTEMPTS :: nat where "HELPER_FLOOR_ATTEMPTS = 3"
definition HELPER_FLOOR_LINKS :: nat where "HELPER_FLOOR_LINKS = 4"
definition HELPER_MIN_ATTEMPTS :: nat where "HELPER_MIN_ATTEMPTS = HELPER_ATTEMPTS + 1"
definition MAX_HELPERS :: nat where "MAX_HELPERS = 256"

text \<open>The standard library's integer square root.\<close>

fun isqrt :: "nat \<Rightarrow> nat" where
  "isqrt 0 = 0"
| "isqrt (Suc n) = (let r = isqrt n in if Suc r * Suc r \<le> Suc n then Suc r else r)"

definition fanout_width :: "nat \<Rightarrow> nat" where
  "fanout_width members = min (isqrt members) MAX_HELPERS"

definition fnv_byte :: "64 word \<Rightarrow> 8 word \<Rightarrow> 64 word" where
  "fnv_byte hash byte = (hash XOR ucast byte) * 0x100000001b3"

definition fnv :: "8 word list list \<Rightarrow> 64 word" where
  "fnv parts =
     (let hash = fold (\<lambda>part h. fold (\<lambda>byte h'. fnv_byte h' byte)
                        (to_le_bytes (of_nat (length part)) @ part) h)
                   parts 0xcbf29ce484222325;
          z0 = hash + 0x9e3779b97f4a7c15;
          z1 = xorshift 30 z0 * 0xbf58476d1ce4e5b9;
          z2 = xorshift 27 z1 * 0x94d049bb133111eb
      in xorshift 31 z2)"

definition HOT_PAGE_QUEUE_BYTES :: nat where "HOT_PAGE_QUEUE_BYTES = 32 * 2 ^ 20"
definition HOT_PAGE_MIN_BODIES :: nat where "HOT_PAGE_MIN_BODIES = 2"
definition HOT_PAGE_EXEMPT_BODIES :: nat where "HOT_PAGE_EXEMPT_BODIES = HOT_PAGE_MIN_BODIES"

definition hot_page_bodies :: "nat \<Rightarrow> nat" where
  "hot_page_bodies page_bytes =
     (let bodies = HOT_PAGE_QUEUE_BYTES div (if page_bytes = 0 then 1 else page_bytes)
      in if bodies < HOT_PAGE_MIN_BODIES then HOT_PAGE_MIN_BODIES
         else if bodies > u32_max then u32_max else bodies)"

definition hot_page_exempt_bodies :: "nat \<Rightarrow> nat" where
  "hot_page_exempt_bodies threshold = sat_add u64_max threshold HOT_PAGE_EXEMPT_BODIES"

record hot_page_limits =
  hp_threshold :: nat
  hp_exempt_cap :: nat

definition hot_page_limits_mesh :: "nat \<Rightarrow> hot_page_limits" where
  "hot_page_limits_mesh threshold =
     \<lparr>hp_threshold = threshold, hp_exempt_cap = hot_page_exempt_bodies threshold\<rparr>"

definition hot_page_limits_v1 :: "nat \<Rightarrow> hot_page_limits" where
  "hot_page_limits_v1 threshold = \<lparr>hp_threshold = threshold, hp_exempt_cap = u64_max\<rparr>"

text \<open>\<open>exempt\<close> is evaluated last in the source; being a closure without effects, it is a flag here.\<close>

definition shed_hot_page ::
  "'n list \<Rightarrow> 'n \<Rightarrow> 'n \<Rightarrow> bool \<Rightarrow> nat \<Rightarrow> nat \<Rightarrow> hot_page_limits \<Rightarrow> bool" where
  "shed_hot_page owners local requester exempt streaming bodies limits \<longleftrightarrow>
     (let owners3 = take 3 owners in
      streaming \<ge> max (hp_threshold limits) 1 \<and> streaming * 2 \<ge> bodies \<and>
      local \<in> set owners3 \<and> requester \<notin> set owners3 \<and>
      (streaming \<ge> hp_exempt_cap limits \<or> \<not> exempt))"

definition mesh_helper ::
  "'n list \<Rightarrow> nat \<Rightarrow> ('n \<Rightarrow> 'n option) \<Rightarrow> ('n \<Rightarrow> bool) \<Rightarrow> 'n option" where
  "mesh_helper owners start helper_of excluded =
     (let owners3 = take 3 owners;
          s = (if owners3 = [] then 0 else start mod length owners3)
      in List.find (\<lambda>h. \<not> excluded h)
           (List.map_filter helper_of (drop s owners3 @ take s owners3)))"

definition helper_start :: "8 word list \<Rightarrow> nat" where
  "helper_start reader =
     unat (fnv [map (of_nat \<circ> of_char) ''racer/mesh-helper'', reader]) mod 3"

text \<open>
  The hashed helpers: positions of a page's helpers are hashes of the page identity (\<open>cache\<close>, \<open>key\<close>,
  little-endian page number) and the helper's index.
\<close>

definition helper_position ::
  "8 word list \<Rightarrow> 8 word list \<Rightarrow> 64 word \<Rightarrow> nat \<Rightarrow> nat \<Rightarrow> nat" where
  "helper_position cache key number members j =
     unat (fnv [cache, key, to_le_bytes number, to_le_bytes (of_nat j)]) mod members"

definition is_helper ::
  "8 word list \<Rightarrow> 8 word list \<Rightarrow> 64 word \<Rightarrow> nat \<Rightarrow> nat \<Rightarrow> bool" where
  "is_helper cache key number pos members =
     list_ex (\<lambda>j. helper_position cache key number members j = pos)
       [0..<fanout_width members]"

text \<open>The scan of \<open>fanout_helper\<close>: positions in visiting order, and the first candidate so far.\<close>

fun fanout_scan ::
  "nat list \<Rightarrow> (nat \<Rightarrow> bool) \<Rightarrow> (nat \<Rightarrow> bool) \<Rightarrow> nat option \<Rightarrow> nat option" where
  "fanout_scan [] excluded preferred first = first"
| "fanout_scan (p # ps) excluded preferred first =
     (if excluded p then fanout_scan ps excluded preferred first
      else if preferred p then Some p
      else fanout_scan ps excluded preferred (case first of None \<Rightarrow> Some p | Some f \<Rightarrow> Some f))"

definition fanout_helper ::
  "8 word list \<Rightarrow> 8 word list \<Rightarrow> 64 word \<Rightarrow> 8 word list \<Rightarrow> nat \<Rightarrow>
   (nat \<Rightarrow> bool) \<Rightarrow> (nat \<Rightarrow> bool) \<Rightarrow> nat option" where
  "fanout_helper cache key number requester members excluded preferred =
     (let width = fanout_width members in
      if width = 0 then None
      else let start = unat (fnv [requester, cache, key, to_le_bytes number]) mod width
           in fanout_scan
                (map (\<lambda>offset. helper_position cache key number members ((start + offset) mod width))
                  [0..<width])
                excluded preferred None)"

subsection \<open>What each operation does to the credits\<close>

lemmas budget_ops = send_remote_def refund_remote_def begin_attempt_def charge_links_def
  refund_links_def reunite_def budget_partition_def budget_transfer_def begin_peer_attempt_def
  note_route_failure_def budget_new_def

lemma begin_peer_attempt_ok_iff:
  "begin_peer_attempt b now caller links = Inr (d, b') \<longleftrightarrow>
     0 < links \<and> links \<le> b_links b \<and> now < d \<and> d = min (b_deadline b) caller \<and>
     0 < b_attempts b \<and>
     b' = b\<lparr>b_attempts := b_attempts b - 1, b_links := b_links b - links,
            b_charged := sat_add u16_max (b_charged b) links\<rparr>"
  by (auto simp: begin_peer_attempt_def Let_def not_le split: if_splits option.splits)

lemma begin_attempt_ok_iff:
  "begin_attempt b now caller = Inr (d, b') \<longleftrightarrow>
     now < d \<and> d = min (b_deadline b) caller \<and> 0 < b_attempts b \<and>
     b' = b\<lparr>b_attempts := b_attempts b - 1\<rparr>"
  by (auto simp: begin_attempt_def Let_def not_le split: if_splits option.splits)

lemma partition_ok_iff:
  "budget_partition b a l = Inr (child, parent) \<longleftrightarrow>
     a \<le> b_attempts b \<and> l \<le> b_links b \<and>
     child = (budget_new (b_deadline b) a l)\<lparr>b_failed_route := b_failed_route b\<rparr> \<and>
     parent = b\<lparr>b_attempts := b_attempts b - a, b_links := b_links b - l\<rparr>"
  by (auto simp: budget_partition_def split: option.splits)

lemma partition_err_iff:
  "budget_partition b a l = Inl e \<longleftrightarrow>
     (b_attempts b < a \<and> e = Unavailable) \<or>
     (a \<le> b_attempts b \<and> b_links b < l \<and> e = HopBudgetExhausted)"
  by (auto simp: budget_partition_def split: option.splits)

lemma reunite_ok_iff:
  "reunite b c = Inr b' \<longleftrightarrow>
     b_attempts b + b_attempts c \<le> u32_max \<and> b_links b + b_links c \<le> u8_max \<and>
     b' = b\<lparr>b_deadline := min (b_deadline b) (b_deadline c),
            b_attempts := b_attempts b + b_attempts c, b_links := b_links b + b_links c,
            b_failed_route := b_failed_route b \<or> b_failed_route c\<rparr>"
  by (auto simp: reunite_def split: option.splits)

lemma send_remote_ok_iff:
  "send_remote b a = Inr (r, b') \<longleftrightarrow>
     a \<le> b_attempts b \<and> r = a \<and>
     b' = b\<lparr>b_attempts := b_attempts b - a,
            b_remote_sent := sat_add u32_max (b_remote_sent b) a\<rparr>"
  by (auto simp: send_remote_def split: option.splits)

lemma refund_remote_ok_iff:
  "refund_remote b a = Inr b' \<longleftrightarrow>
     a \<le> b_remote_sent b \<and> b_attempts b + a \<le> u32_max \<and>
     b' = b\<lparr>b_remote_sent := b_remote_sent b - a, b_attempts := b_attempts b + a\<rparr>"
  by (auto simp: refund_remote_def split: option.splits)

lemma charge_links_ok_iff:
  "charge_links b l = Inr b' \<longleftrightarrow>
     l \<le> b_links b \<and>
     b' = b\<lparr>b_links := b_links b - l, b_charged := sat_add u16_max (b_charged b) l\<rparr>"
  by (auto simp: charge_links_def split: option.splits)

lemma refund_links_ok_iff:
  "refund_links b l = Inr b' \<longleftrightarrow>
     l \<le> b_charged b \<and> b_links b + l \<le> u8_max \<and>
     b' = b\<lparr>b_charged := b_charged b - l, b_links := b_links b + l\<rparr>"
  by (auto simp: refund_links_def split: option.splits)

lemmas budget_ok_iffs = begin_peer_attempt_ok_iff begin_attempt_ok_iff partition_ok_iff
  reunite_ok_iff send_remote_ok_iff refund_remote_ok_iff charge_links_ok_iff refund_links_ok_iff

text \<open>
  Splitting off a child and reuniting it unused gives the parent back: \<open>partition\<close> and \<open>reunite\<close>
  are inverse on a budget within its machine bounds.
\<close>

lemma partition_reunite_unused:
  assumes "budget_partition b a l = Inr (child, parent)"
    and "b_attempts b \<le> u32_max" and "b_links b \<le> u8_max"
  shows "reunite parent child = Inr b"
  using assms by (auto simp: partition_ok_iff reunite_ok_iff budget_new_def)

subsection \<open>Credits are never minted\<close>

text \<open>
  All budgets descended from one acquisition: the multiset of live budgets, changed by any
  operation on one of them, by splitting off a child, by reuniting two and by a transfer.
\<close>

inductive family_step :: "budget multiset \<Rightarrow> budget multiset \<Rightarrow> bool" where
  fam_attempt: "begin_attempt b now caller = Inr (d, b') \<Longrightarrow>
    family_step (add_mset b M) (add_mset b' M)"
| fam_peer: "begin_peer_attempt b now caller links = Inr (d, b') \<Longrightarrow>
    family_step (add_mset b M) (add_mset b' M)"
| fam_send: "send_remote b a = Inr (r, b') \<Longrightarrow> family_step (add_mset b M) (add_mset b' M)"
| fam_refund: "refund_remote b a = Inr b' \<Longrightarrow> family_step (add_mset b M) (add_mset b' M)"
| fam_charge: "charge_links b l = Inr b' \<Longrightarrow> family_step (add_mset b M) (add_mset b' M)"
| fam_refund_links: "refund_links b l = Inr b' \<Longrightarrow> family_step (add_mset b M) (add_mset b' M)"
| fam_note: "family_step (add_mset b M) (add_mset (note_route_failure b) M)"
| fam_partition: "budget_partition b a l = Inr (child, parent) \<Longrightarrow>
    family_step (add_mset b M) (add_mset child (add_mset parent M))"
| fam_reunite: "reunite b child = Inr b' \<Longrightarrow>
    family_step (add_mset b (add_mset child M)) (add_mset b' M)"
| fam_transfer: "budget_transfer b = (moved, rest) \<Longrightarrow>
    family_step (add_mset b M) (add_mset moved (add_mset rest M))"

inductive family_run :: "budget \<Rightarrow> budget multiset \<Rightarrow> bool" for root :: budget where
  family_start: "family_run root {#root#}"
| family_next: "family_run root M \<Longrightarrow> family_step M M' \<Longrightarrow> family_run root M'"

definition attempt_credit :: "budget \<Rightarrow> nat" where
  "attempt_credit b = b_attempts b + b_remote_sent b"

definition link_credit :: "budget \<Rightarrow> nat" where
  "link_credit b = b_links b + b_charged b"

definition family_credit :: "(budget \<Rightarrow> nat) \<Rightarrow> budget multiset \<Rightarrow> nat" where
  "family_credit f M = sum_mset (image_mset f M)"

lemmas credit_defs = attempt_credit_def link_credit_def family_credit_def sat_add_def

lemma family_step_credit:
  "family_step M M' \<Longrightarrow> family_credit attempt_credit M' \<le> family_credit attempt_credit M \<and>
     family_credit link_credit M' \<le> family_credit link_credit M"
  by (induction rule: family_step.induct)
    (auto simp: credit_defs budget_ok_iffs budget_transfer_def note_route_failure_def
      budget_new_def)

lemma family_step_deadline:
  "family_step M M' \<Longrightarrow> \<forall>b \<in># M. b_deadline b \<le> d \<Longrightarrow> \<forall>b \<in># M'. b_deadline b \<le> d"
  by (induction rule: family_step.induct)
    (auto simp: budget_ok_iffs budget_transfer_def note_route_failure_def budget_new_def)

text \<open>
  C16: no sequence of attempts, remote sends and refunds, link charges and refunds, splits, reunions
  and transfers mints credits. Over every family of budgets descended from one original budget, the
  attempts still held plus those sent out and refundable never exceed the attempts it was created
  with, the links held plus those charged never exceed its links, and no descendant has a later
  deadline.
\<close>

theorem budget_family_conservation:
  assumes "family_run (budget_new deadline attempts links) M"
  shows "family_credit attempt_credit M \<le> attempts \<and> family_credit link_credit M \<le> links \<and>
    (\<forall>b \<in># M. b_deadline b \<le> deadline)"
  using assms
proof (induction rule: family_run.induct)
  case family_start
  then show ?case by (simp add: credit_defs budget_new_def)
next
  case (family_next M M')
  from family_step_credit [OF family_next.hyps(2)]
    family_step_deadline [OF family_next.hyps(2)] family_next.IH
  show ?case by (meson order_trans)
qed

theorem budget_family_conservation_witness:
  "family_run (budget_new 10 5 8)
     {# (budget_new 10 2 3)\<lparr>b_failed_route := False\<rparr>, (budget_new 10 3 5) #} \<and>
   family_credit attempt_credit {# budget_new 10 2 3, budget_new 10 3 5 #} \<le> 5"
proof -
  have "family_run (budget_new 10 5 8) {#budget_new 10 5 8#}"
    by (rule family_start)
  moreover have "family_step {#budget_new 10 5 8#}
      {# (budget_new 10 2 3)\<lparr>b_failed_route := False\<rparr>, budget_new 10 3 5 #}"
    by (rule fam_partition [where a = 2 and l = 3])
      (simp add: partition_ok_iff budget_new_def)
  ultimately have run: "family_run (budget_new 10 5 8)
      {# (budget_new 10 2 3)\<lparr>b_failed_route := False\<rparr>, budget_new 10 3 5 #}"
    by (rule family_next)
  from budget_family_conservation [OF run] run show ?thesis
    by (simp add: budget_new_def)
qed




subsection \<open>Hot-page overflow: bounds and eligibility\<close>

lemma isqrt_spec: "isqrt n * isqrt n \<le> n \<and> n < Suc (isqrt n) * Suc (isqrt n)"
  by (induction n) (auto simp: Let_def)

lemma fanout_width_sq: "fanout_width members * fanout_width members \<le> members"
  using isqrt_spec [of members] mult_le_mono [of "fanout_width members" "isqrt members"
      "fanout_width members" "isqrt members"]
  by (auto simp: fanout_width_def)

lemma isqrt_pos: "0 < n \<Longrightarrow> 0 < isqrt n"
  using isqrt_spec [of n] by (cases "isqrt n") auto

lemma fanout_width_pos_iff [simp]: "0 < fanout_width members \<longleftrightarrow> 0 < members"
  using isqrt_pos [of members]
  by (cases members) (auto simp: fanout_width_def MAX_HELPERS_def simp del: isqrt.simps(2))



lemma find_map_filter:
  "List.find P (List.map_filter f xs) = Some y \<longleftrightarrow>
     (\<exists>i < length xs. f (xs ! i) = Some y \<and> P y \<and>
        (\<forall>j < i. \<forall>z. f (xs ! j) = Some z \<longrightarrow> \<not> P z))"
proof (induction xs)
  case (Cons x xs)
  have split: "(\<exists>i < length (x # xs). Q i) \<longleftrightarrow> Q 0 \<or> (\<exists>i < length xs. Q (Suc i))" for Q
    by (auto simp: less_Suc_eq_0_disj)
  have all: "(\<forall>j < Suc i. Q j) \<longleftrightarrow> Q 0 \<and> (\<forall>j < i. Q (Suc j))" for Q i
    by (auto simp: less_Suc_eq_0_disj)
  show ?case unfolding split all
    using Cons by (auto simp: List.map_filter_simps split: option.splits)
qed (simp add: List.map_filter_simps)

lemma find_map_filter_None:
  "List.find P (List.map_filter f xs) = None \<longleftrightarrow> (\<forall>x \<in> set xs. \<forall>y. f x = Some y \<longrightarrow> \<not> P y)"
  by (induction xs) (auto simp: List.map_filter_simps split: option.splits)

text \<open>
  C38: a shed reader finds a mesh helper exactly when one of the first three owners has an eligible
  one, wherever its scan starts; the helper it gets is some owner's helper and is not excluded.
\<close>

theorem mesh_helper_spec:
  "(case mesh_helper owners start helper_of excluded of
      Some h \<Rightarrow> \<not> excluded h \<and> (\<exists>p \<in> set (take 3 owners). helper_of p = Some h)
    | None \<Rightarrow> list_all (\<lambda>p. case helper_of p of None \<Rightarrow> True | Some h \<Rightarrow> excluded h) (take 3 owners))"
proof -
  define s where "s = (if take 3 owners = [] then 0 else start mod length (take 3 owners))"
  define ring where "ring = drop s (take 3 owners) @ take s (take 3 owners)"
  have ring: "set ring = set (take 3 owners)"
    unfolding ring_def set_append
    by (metis append_take_drop_id set_append sup_commute)
  have eq: "mesh_helper owners start helper_of excluded =
      List.find (\<lambda>h. \<not> excluded h) (List.map_filter helper_of ring)"
    by (simp only: mesh_helper_def Let_def s_def ring_def)
  show ?thesis
  proof (cases "mesh_helper owners start helper_of excluded")
    case None
    then have "\<forall>x \<in> set (take 3 owners). \<forall>y. helper_of x = Some y \<longrightarrow> excluded y"
      unfolding eq find_map_filter_None ring by simp
    with None show ?thesis by (auto simp: list_all_iff split: option.splits)
  next
    case (Some h)
    then obtain i where "i < length ring" "helper_of (ring ! i) = Some h" "\<not> excluded h"
      unfolding eq find_map_filter by blast
    then show ?thesis using Some ring nth_mem by fastforce
  qed
qed

lemma fanout_scan_spec:
  "fanout_scan ps excluded preferred first =
     (case List.find (\<lambda>p. \<not> excluded p \<and> preferred p) ps of
        Some p \<Rightarrow> Some p
      | None \<Rightarrow> (case first of Some f \<Rightarrow> Some f | None \<Rightarrow> List.find (\<lambda>p. \<not> excluded p) ps))"
  by (induction ps arbitrary: first) (auto split: option.splits)

lemma rotate_image:
  assumes "0 < (w :: nat)"
  shows "(\<lambda>i. (s + i) mod w) ` {0..<w} = {0..<w}"
proof (intro equalityI subsetI)
  fix y assume y: "y \<in> {0..<w}"
  let ?i = "(y + (w - s mod w)) mod w"
  have "(s + ?i) mod w = (s mod w + (y + (w - s mod w))) mod w"
    by (simp add: mod_add_left_eq mod_add_right_eq)
  also have "s mod w + (y + (w - s mod w)) = y + w"
    using mod_less_divisor [OF assms, of s] by linarith
  finally have "(s + ?i) mod w = y" using y by simp
  then show "y \<in> (\<lambda>i. (s + i) mod w) ` {0..<w}"
    using assms by (intro image_eqI [of _ _ ?i]) auto
qed (use assms in auto)

text \<open>
  C39: the hashed helper of a reader is one of the page's helpers as every other node computes them
  (\<open>is_helper\<close>), is a member position, is not excluded, and is a preferred one whenever any eligible
  helper is preferred; without a result every helper of the page is excluded.
\<close>

theorem fanout_helper_spec:
  "(case fanout_helper cache key number requester members excluded preferred of
      Some p \<Rightarrow> is_helper cache key number p members \<and> p < members \<and> \<not> excluded p \<and>
        preferred p = (\<exists>q. is_helper cache key number q members \<and> \<not> excluded q \<and> preferred q)
    | None \<Rightarrow> \<not> (\<exists>q. is_helper cache key number q members \<and> \<not> excluded q))"
proof (cases "fanout_width members = 0")
  case True
  then show ?thesis by (simp add: fanout_helper_def is_helper_def)
next
  case False
  define w where "w = fanout_width members"
  define start where "start = unat (fnv [requester, cache, key, to_le_bytes number]) mod w"
  define ps where "ps = map (\<lambda>i. helper_position cache key number members ((start + i) mod w)) [0..<w]"
  have w: "0 < w" and members: "0 < members"
    using False fanout_width_pos_iff [of members] by (auto simp: w_def)
  have "set ps = helper_position cache key number members ` ((\<lambda>i. (start + i) mod w) ` {0..<w})"
    by (auto simp: ps_def)
  also have "\<dots> = helper_position cache key number members ` {0..<w}"
    by (simp only: rotate_image [OF w])
  finally have helpers: "p \<in> set ps \<longleftrightarrow> is_helper cache key number p members" for p
    by (auto simp: is_helper_def list_ex_iff w_def)
  have bound: "p \<in> set ps \<Longrightarrow> p < members" for p
    using members by (auto simp: ps_def helper_position_def)
  have eq: "fanout_helper cache key number requester members excluded preferred =
      fanout_scan ps excluded preferred None"
    using False by (simp add: fanout_helper_def Let_def ps_def start_def w_def)
  have found: "List.find P ps = Some p \<Longrightarrow> p \<in> set ps \<and> P p" for P p
    by (auto simp: find_Some_iff)
  have missed: "List.find P ps = None \<longleftrightarrow> (\<forall>p \<in> set ps. \<not> P p)" for P
    by (auto simp: find_None_iff)
  show ?thesis
  proof (cases "List.find (\<lambda>p. \<not> excluded p \<and> preferred p) ps")
    case (Some p)
    with found [OF Some] bound show ?thesis
      unfolding eq fanout_scan_spec helpers [symmetric] by auto
  next
    case None
    then have none: "\<forall>p \<in> set ps. \<not> (\<not> excluded p \<and> preferred p)"
      by (simp only: missed)
    show ?thesis
    proof (cases "List.find (\<lambda>p. \<not> excluded p) ps")
      case missing: None
      then have "\<forall>p \<in> set ps. excluded p" by (simp add: missed)
      with None missing show ?thesis
        unfolding eq fanout_scan_spec helpers [symmetric] by auto
    next
      case (Some p)
      with None none found [OF Some] bound show ?thesis
        unfolding eq fanout_scan_spec helpers [symmetric] by auto
    qed
  qed
qed

end
