(* ===== verification/Racer_Policy.thy ===== *)
theory Racer_Policy
  imports Racer_Candidates Racer_Budget
begin

section \<open>Read-path policies (core/src/read/mod.rs)\<close>

text \<open>
  The small decisions the read drivers share: which local worker owns a page, how a peer request is
  served, when another contender of a race may still win, what is persisted, how a refresh cohort
  settles, which slots of a read's window are filled directly and which a provider selection demands,
  and which local source a leader tries. SHA-256, which \<open>WorkerMap::select\<close> calls, is a parameter.
\<close>

subsection \<open>Local workers\<close>

record worker_map =
  wm_workers :: "nat list"

definition worker_map_new :: "nat list \<Rightarrow> worker_map res" where
  "worker_map_new workers =
     (let ws = sort workers in
      if ws = [] \<or> list_ex (\<lambda>(a, b). a = b) (zip ws (tl ws)) then Inl InvalidConfiguration
      else Inr \<lparr>wm_workers = ws\<rparr>)"

definition from_be_bytes :: "8 word list \<Rightarrow> nat" where
  "from_be_bytes bytes = foldl (\<lambda>acc b. acc * 256 + unat b) 0 bytes"

definition to_be_bytes :: "64 word \<Rightarrow> 8 word list" where
  "to_be_bytes w = rev (to_le_bytes w)"

definition select_digest :: "worker_map \<Rightarrow> 8 word list \<Rightarrow> nat" where
  "select_digest m digest =
     wm_workers m ! (from_be_bytes (take 8 digest) mod length (wm_workers m))"

definition worker_select ::
  "(8 word list \<Rightarrow> 8 word list) \<Rightarrow> worker_map \<Rightarrow> 8 word list \<Rightarrow> 8 word list \<Rightarrow> 64 word \<Rightarrow> nat res" where
  "worker_select sha256 m cache key page =
     (if length cache > u64_max then Inl InvalidRequest
      else Inr (select_digest m
             (sha256 (map (of_nat \<circ> of_char) ''racer.local-worker.v1'' @ [0] @
                to_be_bytes (of_nat (length cache)) @ cache @ key @ to_be_bytes page))))"

subsection \<open>Peer responses\<close>

datatype ('m, 'p, 'g, 'r) peer_response =
    PR_Selected 'm 'p 'g
  | PR_Bootstrap 'm "'p option"
  | PR_Page 'm 'p
  | PR_Metadata 'm
  | PR_Miss
  | PR_NotFound
  | PR_VersionUnavailable
  | PR_Unavailable
  | PR_Overloaded
  | PR_OriginRejected
  | PR_OriginForbidden
  | PR_StaleMembership
  | PR_Prefetch "'r list"

fun response_kind_of :: "('m, 'p, 'g, 'r) peer_response \<Rightarrow> response_kind" where
  "response_kind_of (PR_Selected _ _ _) = K_Selected"
| "response_kind_of (PR_Bootstrap _ _) = K_Bootstrap"
| "response_kind_of (PR_Page _ _) = K_Page"
| "response_kind_of (PR_Metadata _) = K_Metadata"
| "response_kind_of PR_Miss = K_Miss"
| "response_kind_of PR_NotFound = K_NotFound"
| "response_kind_of PR_VersionUnavailable = K_VersionUnavailable"
| "response_kind_of PR_Unavailable = K_Unavailable"
| "response_kind_of PR_Overloaded = K_Overloaded"
| "response_kind_of PR_OriginRejected = K_OriginRejected"
| "response_kind_of PR_OriginForbidden = K_OriginForbidden"
| "response_kind_of PR_StaleMembership = K_StaleMembership"
| "response_kind_of (PR_Prefetch _) = K_Prefetch"

subsection \<open>Refresh cohorts\<close>

definition MAX_WAITERS :: nat where "MAX_WAITERS = 64"
definition MAX_REFRESH_ATTEMPTS :: nat where "MAX_REFRESH_ATTEMPTS = 8"

datatype 'e metadata_selector = SelFresh | SelPinned 'e

datatype 'e refresh_purpose = ForCurrent | ForPinned 'e | ForBootstrap

fun purpose_from :: "'e metadata_selector \<Rightarrow> 'e refresh_purpose" where
  "purpose_from SelFresh = ForCurrent"
| "purpose_from (SelPinned etag) = ForPinned etag"

fun purpose_selector :: "'e refresh_purpose \<Rightarrow> 'e metadata_selector" where
  "purpose_selector ForCurrent = SelFresh"
| "purpose_selector ForBootstrap = SelFresh"
| "purpose_selector (ForPinned etag) = SelPinned etag"

definition purpose_bootstrap :: "'e refresh_purpose \<Rightarrow> bool" where
  "purpose_bootstrap p \<longleftrightarrow> p = ForBootstrap"

datatype settlement = SettleFinish | SettleRetry

definition refresh_settlement :: "error \<Rightarrow> nat \<Rightarrow> settlement" where
  "refresh_settlement e remaining_attempts =
     (let rejected = (e = OriginRejected \<or> e = OriginForbidden);
          caller_budget = (e = Cancelled \<or> e = DeadlineExceeded \<or> e = HopBudgetExhausted \<or>
                           (e = Unavailable \<and> remaining_attempts = 0))
      in if rejected \<or> caller_budget then SettleRetry else SettleFinish)"

subsection \<open>Serving a peer\<close>

record serve_facts =
  sf_operation :: operation_kind
  sf_copy_only :: bool
  sf_object_matches :: bool
  sf_cache_available :: bool

datatype serve_action_kind = ServeReject error | ServeMiss | ServeCopyOnly | ServeAcquire

definition serve_action :: "serve_facts \<Rightarrow> serve_action_kind" where
  "serve_action f =
     (if sf_operation f = Op_Subscribe then ServeReject InvalidRequest
      else if \<not> sf_object_matches f then ServeReject InvalidRequest
      else if \<not> sf_cache_available f then ServeMiss
      else if sf_copy_only f \<and> sf_operation f \<noteq> Op_Prefetch then ServeCopyOnly
      else ServeAcquire)"

definition serve_deadline :: "instant \<Rightarrow> instant \<Rightarrow> instant" where
  "serve_deadline scope route = min scope route"

definition copy_join_allowed :: "'n list \<Rightarrow> 'n \<Rightarrow> 'n \<Rightarrow> bool" where
  "copy_join_allowed owners local requester =
     (case position (\<lambda>n. n = requester) owners of
        None \<Rightarrow> True
      | Some theirs \<Rightarrow>
          (case position (\<lambda>n. n = local) owners of None \<Rightarrow> False | Some mine \<Rightarrow> mine < theirs))"

subsection \<open>Races, headroom, persistence\<close>

fun recoverable :: "error \<Rightarrow> bool" where
  "recoverable Unavailable = True"
| "recoverable Io = True"
| "recoverable (Os _) = True"
| "recoverable Overloaded = True"
| "recoverable CorruptRecord = True"
| "recoverable MissingKey = True"
| "recoverable Cancelled = True"
| "recoverable InvalidRequest = True"
| "recoverable HeaderTooLarge = True"
| "recoverable _ = False"

definition optional_ceiling :: "nat \<Rightarrow> nat \<Rightarrow> nat" where
  "optional_ceiling limit one_page = min limit (max (limit div 2) one_page)"

definition optional_headroom :: "nat \<Rightarrow> nat \<Rightarrow> nat \<Rightarrow> nat \<Rightarrow> bool" where
  "optional_headroom limit used amount one_page \<longleftrightarrow>
     (let ceiling = optional_ceiling limit one_page in
      amount \<le> ceiling \<and> used \<le> ceiling - amount)"

definition retention_eligible :: "bool \<Rightarrow> bool \<Rightarrow> bool \<Rightarrow> bool" where
  "retention_eligible owned enabled seen \<longleftrightarrow> owned \<or> (enabled \<and> seen)"

definition retention_score :: "nat \<Rightarrow> bool \<Rightarrow> bool \<Rightarrow> nat" where
  "retention_score heat owned enabled = (if enabled then heat + (if owned then 1 else 0) else 0)"

datatype persist_decision = PersistIneligible | PersistResident | PersistNoHeadroom | PersistWrite

record persist_facts =
  pf_eligible :: bool
  pf_metadata_valid :: bool
  pf_resident :: bool
  pf_owned :: bool
  pf_dirty_limit :: nat
  pf_dirty_used :: nat
  pf_amount :: nat
  pf_one_page :: nat

definition persist :: "persist_facts \<Rightarrow> persist_decision" where
  "persist f =
     (if \<not> pf_eligible f \<or> \<not> pf_metadata_valid f then PersistIneligible
      else if pf_resident f then PersistResident
      else if \<not> pf_owned f \<and>
              \<not> optional_headroom (pf_dirty_limit f) (pf_dirty_used f) (pf_amount f) (pf_one_page f)
      then PersistNoHeadroom
      else PersistWrite)"

subsection \<open>Range scheduling\<close>

definition DIRECT_AHEAD :: nat where "DIRECT_AHEAD = 1"
definition SELECTIONS :: nat where "SELECTIONS = 4"
definition PAGE_ATTEMPTS :: nat where "PAGE_ATTEMPTS = 8"
definition PAGE_LINKS :: nat where "PAGE_LINKS = 16"

datatype slot_kind =
  SlotProbing | SlotMissing bool | SlotFetching | SlotSelecting | SlotReady | SlotFailed

definition is_missing :: "slot_kind \<Rightarrow> bool" where
  "is_missing slot = (case slot of SlotMissing _ \<Rightarrow> True | _ \<Rightarrow> False)"

definition first_failure :: "slot_kind list \<Rightarrow> nat option" where
  "first_failure slots = position (\<lambda>slot. slot = SlotFailed) slots"

text \<open>The scan ahead of the head: the remaining indices below the limit, and how many are in flight.\<close>

fun fills_ahead ::
  "slot_kind list \<Rightarrow> nat \<Rightarrow> (nat \<Rightarrow> bool) \<Rightarrow> nat list \<Rightarrow> nat \<Rightarrow> nat list" where
  "fills_ahead slots direct_ahead elsewhere [] ahead = []"
| "fills_ahead slots direct_ahead elsewhere (i # is) ahead =
     (if ahead < direct_ahead
      then if is_missing (slots ! i) \<and> \<not> elsewhere i
           then i # fills_ahead slots direct_ahead elsewhere is (ahead + 1)
           else fills_ahead slots direct_ahead elsewhere is ahead
      else [])"

definition direct_fills :: "slot_kind list \<Rightarrow> nat \<Rightarrow> (nat \<Rightarrow> bool) \<Rightarrow> nat list" where
  "direct_fills slots direct_ahead elsewhere =
     (let limit = (case first_failure slots of None \<Rightarrow> length slots | Some i \<Rightarrow> i);
          head = (if limit > 0 \<and> (is_missing (slots ! 0) \<or> slots ! 0 = SlotSelecting) then [0] else []);
          ahead = length (filter (\<lambda>slot. slot = SlotFetching) (drop 1 slots))
      in head @ fills_ahead slots direct_ahead elsewhere [1..<limit] ahead)"

definition may_select :: "nat \<Rightarrow> nat \<Rightarrow> bool" where
  "may_select selections spare \<longleftrightarrow> selections < SELECTIONS \<and> (selections = 0 \<or> spare > 0)"

definition share :: "nat \<Rightarrow> nat \<Rightarrow> nat \<Rightarrow> nat" where
  "share holes selections spare =
     (let free = SELECTIONS - selections;
          startable = (if selections = 0 then min free (spare + 1) else min free spare)
      in max (div_ceil holes (max startable 1)) 1)"

text \<open>
  The demand of one selection: intervals are half-open page ranges, most recent last. \<open>None\<close> from the
  scan of one slot is the \<open>break\<close> when a new interval would exceed the bound. \<open>max_intervals\<close> is at
  least one (the source subtracts one from it).
\<close>

definition extend_intervals ::
  "(nat \<times> nat) list \<Rightarrow> nat \<Rightarrow> nat \<Rightarrow> (nat \<times> nat) list option" where
  "extend_intervals intervals number max_intervals =
     (let full = (length intervals = max_intervals - 1) in
      if intervals \<noteq> [] \<and> snd (last intervals) = number
      then Some (butlast intervals @ [(fst (last intervals), number + 1)])
      else if full then None
      else Some (intervals @ [(number, number + 1)]))"

fun demand_scan ::
  "slot_kind list \<Rightarrow> nat \<Rightarrow> (nat \<Rightarrow> bool) \<Rightarrow> nat \<Rightarrow> nat \<Rightarrow> (nat \<times> nat) list \<Rightarrow> nat list \<Rightarrow>
   (nat \<times> nat) list \<times> nat list" where
  "demand_scan [] number elsewhere limit max_intervals intervals pages = (intervals, pages)"
| "demand_scan (slot # slots) number elsewhere limit max_intervals intervals pages =
     (if length pages \<ge> limit then (intervals, pages)
      else if slot \<noteq> SlotMissing True \<or> elsewhere number
      then demand_scan slots (number + 1) elsewhere limit max_intervals intervals pages
      else case extend_intervals intervals number max_intervals of
             None \<Rightarrow> (intervals, pages)
           | Some intervals' \<Rightarrow>
               demand_scan slots (number + 1) elsewhere limit max_intervals intervals' (pages @ [number]))"

definition selection_demand ::
  "slot_kind list \<Rightarrow> nat \<Rightarrow> (nat \<Rightarrow> bool) \<Rightarrow> nat \<Rightarrow> nat \<Rightarrow> ((nat \<times> nat) list \<times> nat list) option" where
  "selection_demand slots next elsewhere limit max_intervals =
     (let (intervals, pages) = demand_scan slots next elsewhere limit max_intervals [] []
      in if pages = [] then None else Some (intervals, pages))"

datatype page_budget = BudgetClient instant | BudgetProgressing duration

fun next_page :: "page_budget \<Rightarrow> instant \<Rightarrow> budget res" where
  "next_page (BudgetProgressing timeout) now =
     Inr (budget_new (now + timeout) PAGE_ATTEMPTS PAGE_LINKS)"
| "next_page (BudgetClient deadline) now =
     (if now \<ge> deadline then Inl DeadlineExceeded
      else Inr (budget_new deadline PAGE_ATTEMPTS PAGE_LINKS))"

subsection \<open>Leaders\<close>

datatype leader_source_kind = SourceRetained | SourceSharedLocal | SourceCached

definition leader_source :: "bool \<Rightarrow> bool \<Rightarrow> bool \<Rightarrow> bool \<Rightarrow> leader_source_kind" where
  "leader_source retained plaintext local_job unverified =
     (if retained then SourceRetained
      else if plaintext \<and> (local_job \<or> unverified) then SourceSharedLocal
      else SourceCached)"

datatype failure_kind = FailOriginRejected | FailOriginForbidden | FailTerminal error

definition acquisition_failure :: "error \<Rightarrow> failure_kind" where
  "acquisition_failure e =
     (if e = OriginRejected then FailOriginRejected
      else if e = OriginForbidden then FailOriginForbidden
      else FailTerminal e)"

definition ciphertext_publish_tolerated :: "error \<Rightarrow> bool" where
  "ciphertext_publish_tolerated e \<longleftrightarrow> e = Overloaded \<or> e = MissingKey \<or> e = Unavailable"

datatype page_source = FromLocal | FromHedge | FromPeer | FromOrigin

subsection \<open>Worker assignment\<close>

lemma adjacent_equal: "sorted xs \<Longrightarrow> list_ex (\<lambda>(a, b). a = b) (zip xs (tl xs)) \<longleftrightarrow> \<not> distinct (xs :: nat list)"
proof (induction xs)
  case (Cons x xs)
  show ?case
  proof (cases xs)
    case (Cons y ys)
    with Cons.IH Cons.prems \<open>xs = y # ys\<close> show ?thesis by (auto dest: antisym)
  qed simp
qed simp

text \<open>
  the assignment of pages to local workers does not depend on discovery order: a worker set is
  accepted exactly if it is nonempty and free of duplicates, only its set of workers matters, and
  every digest selects one of them.
\<close>

lemma worker_map_canonical:
  "worker_map_new ws =
     (if ws \<noteq> [] \<and> distinct ws then Inr \<lparr>wm_workers = sorted_list_of_set (set ws)\<rparr>
      else Inl InvalidConfiguration) \<and>
   (case worker_map_new ws of Inl e \<Rightarrow> e = InvalidConfiguration | Inr m \<Rightarrow> select_digest m digest \<in> set ws)"
proof -
  have eq: "worker_map_new ws =
     (if ws \<noteq> [] \<and> distinct ws then Inr \<lparr>wm_workers = sorted_list_of_set (set ws)\<rparr>
      else Inl InvalidConfiguration)"
  proof -
    have "sort ws = [] \<longleftrightarrow> ws = []" by (metis length_0_conv length_sort)
    then show ?thesis
      by (auto simp: worker_map_new_def Let_def adjacent_equal sorted_list_of_set_sort_remdups
          distinct_remdups_id)
  qed
  have "select_digest \<lparr>wm_workers = sorted_list_of_set (set ws)\<rparr> digest \<in> set ws" if "ws \<noteq> []"
  proof -
    have "0 < length (sorted_list_of_set (set ws))" using that by (simp add: card_gt_0_iff)
    then have "from_be_bytes (take 8 digest) mod length (sorted_list_of_set (set ws)) <
        length (sorted_list_of_set (set ws))" by (rule mod_less_divisor)
    from nth_mem [OF this] show ?thesis by (simp add: select_digest_def)
  qed
  with eq show ?thesis by auto
qed

subsection \<open>Waiting on a peer's acquisition\<close>

text \<open>
  C22: copy-only requests between owners cannot wait for each other in a cycle: the relation of an
  owner waiting on the acquisition of a node that lets it join is acyclic, since a node only lets
  owners of a later rank wait.
\<close>

theorem copy_join_acyclic:
  "acyclic {(requester, local). requester \<in> set owners \<and> copy_join_allowed owners local requester}"
    (is "acyclic ?waits")
proof -
  define rank where "rank n = (case position (\<lambda>m. m = n) owners of None \<Rightarrow> 0 | Some i \<Rightarrow> i)" for n
  have "?waits \<subseteq> inv_image {(x, y). y < x} rank"
  proof
    fix p assume "p \<in> ?waits"
    then obtain requester local where p: "p = (requester, local)" "requester \<in> set owners"
      "copy_join_allowed owners local requester" by auto
    then obtain i where "position (\<lambda>m. m = requester) owners = Some i"
      by (cases "position (\<lambda>m. m = requester) owners") (auto simp: position_None)
    with p show "p \<in> inv_image {(x, y). y < x} rank"
      by (auto simp: copy_join_allowed_def rank_def split: option.splits)
  qed
  moreover have "acyclic ({(x, y). y < x} :: (nat \<times> nat) set)"
  proof -
    have "({(x, y). y < x} :: (nat \<times> nat) set)\<inverse> = less_than" by auto
    then show ?thesis by (metis acyclic_converse wf_acyclic wf_less_than)
  qed
  moreover have "acyclic (inv_image r f)" if "acyclic r" for r :: "(nat \<times> nat) set" and f :: "'a \<Rightarrow> nat"
  proof -
    have "(a, b) \<in> (inv_image r f)\<^sup>+ \<Longrightarrow> (f a, f b) \<in> r\<^sup>+" for a b
      by (induction rule: trancl.induct) (auto intro: trancl.intros)
    with that show ?thesis by (auto simp: acyclic_def)
  qed
  ultimately show ?thesis by (blast intro: acyclic_subset)
qed

subsection \<open>Window scheduling\<close>

lemma fills_ahead_eq:
  "fills_ahead slots direct_ahead elsewhere is ahead =
     take (direct_ahead - ahead) (filter (\<lambda>i. is_missing (slots ! i) \<and> \<not> elsewhere i) is)"
proof (induction "is" arbitrary: ahead)
  case (Cons i "is")
  show ?case
  proof (cases "ahead < direct_ahead")
    case True
    then obtain d where "direct_ahead - ahead = Suc d" by (cases "direct_ahead - ahead") auto
    moreover from this have "direct_ahead - (ahead + 1) = d" by simp
    ultimately show ?thesis using True Cons.IH [of "ahead + 1"] Cons.IH [of ahead] by simp
  qed simp
qed simp

text \<open>
  C33: what a read fills directly: its head if it is a hole or only being selected, and then the first
  holes ahead that no other window works on, only as many as keep at most \<open>direct_ahead\<close> fills in
  flight beyond the head, and nothing at or after the first failed slot.
\<close>

theorem direct_fills_spec:
  "direct_fills slots direct_ahead elsewhere =
     (let limit = (case first_failure slots of None \<Rightarrow> length slots | Some i \<Rightarrow> i);
          fetching = length (filter (\<lambda>slot. slot = SlotFetching) (tl slots))
      in (if 0 < limit \<and> (is_missing (hd slots) \<or> hd slots = SlotSelecting) then [0] else []) @
         take (direct_ahead - fetching)
           (filter (\<lambda>i. is_missing (slots ! i) \<and> \<not> elsewhere i) [1..<limit])) \<and>
   list_all (\<lambda>i. i < length slots \<and> SlotFailed \<notin> set (take (Suc i) slots))
     (direct_fills slots direct_ahead elsewhere)"
proof -
  define limit where "limit = (case first_failure slots of None \<Rightarrow> length slots | Some i \<Rightarrow> i)"
  have limit: "limit \<le> length slots" "SlotFailed \<notin> set (take limit slots)"
  proof -
    show "limit \<le> length slots"
      by (auto simp: limit_def first_failure_def position_Some split: option.splits)
    show "SlotFailed \<notin> set (take limit slots)"
      by (auto simp: limit_def first_failure_def position_Some position_None in_set_conv_nth
          split: option.splits)
  qed
  have head: "0 < limit \<Longrightarrow> slots ! 0 = hd slots"
    using limit(1) by (cases slots) auto
  have eq: "direct_fills slots direct_ahead elsewhere =
      (if 0 < limit \<and> (is_missing (hd slots) \<or> hd slots = SlotSelecting) then [0] else []) @
      take (direct_ahead - length (filter (\<lambda>slot. slot = SlotFetching) (tl slots)))
        (filter (\<lambda>i. is_missing (slots ! i) \<and> \<not> elsewhere i) [1..<limit])"
    using head by (auto simp: direct_fills_def Let_def limit_def [symmetric] fills_ahead_eq drop_Suc)
  have "set (direct_fills slots direct_ahead elsewhere) \<subseteq> {0..<limit}"
    unfolding eq by (auto dest: in_set_takeD)
  moreover have "set (take (Suc i) slots) \<subseteq> set (take limit slots)" if "i < limit" for i
    using that by (intro set_take_subset_set_take) simp
  ultimately have "list_all (\<lambda>i. i < length slots \<and> SlotFailed \<notin> set (take (Suc i) slots))
     (direct_fills slots direct_ahead elsewhere)"
    using limit by (fastforce simp: list_all_iff)
  with eq show ?thesis by (simp add: Let_def limit_def)
qed

text \<open>The holes a selection may demand, in page order.\<close>

fun selectable :: "slot_kind list \<Rightarrow> nat \<Rightarrow> (nat \<Rightarrow> bool) \<Rightarrow> nat list" where
  "selectable [] number elsewhere = []"
| "selectable (slot # slots) number elsewhere =
     (if slot = SlotMissing True \<and> \<not> elsewhere number
      then number # selectable slots (number + 1) elsewhere
      else selectable slots (number + 1) elsewhere)"

definition interval_pages :: "(nat \<times> nat) list \<Rightarrow> nat list" where
  "interval_pages intervals = concat (map (\<lambda>(a, b). [a..<b]) intervals)"

definition intervals_ok :: "nat \<Rightarrow> nat \<Rightarrow> (nat \<times> nat) list \<Rightarrow> bool" where
  "intervals_ok number max_intervals intervals \<longleftrightarrow>
     sorted_wrt (\<lambda>p q. snd p < fst q) intervals \<and> (\<forall>p \<in> set intervals. fst p < snd p \<and> snd p \<le> number) \<and>
     length intervals \<le> max_intervals - 1"

lemma extend_intervals_ok:
  assumes ok: "intervals_ok number m intervals" and ext: "extend_intervals intervals number m = Some intervals'"
  shows "intervals_ok (number + 1) m intervals' \<and>
    interval_pages intervals' = interval_pages intervals @ [number]"
proof (cases "intervals \<noteq> [] \<and> snd (last intervals) = number")
  case True
  then obtain init a where i: "intervals = init @ [(a, number)]"
    by (metis append_butlast_last_id prod.collapse)
  with ext have i': "intervals' = init @ [(a, number + 1)]"
    by (simp add: extend_intervals_def Let_def)
  have "a < number" using ok i by (simp add: intervals_ok_def)
  then show ?thesis
    using ok by (auto simp: i i' intervals_ok_def interval_pages_def sorted_wrt_append)
next
  case False
  with ext have i': "intervals' = intervals @ [(number, number + 1)]" and room: "length intervals \<noteq> m - 1"
    by (auto simp: extend_intervals_def Let_def split: if_splits)
  have "snd p < number" if p: "p \<in> set intervals" for p
  proof -
    obtain init q where i: "intervals = init @ [q]" using p by (cases intervals rule: rev_cases) auto
    have "snd q \<noteq> number" "snd q \<le> number" using False ok i by (auto simp: intervals_ok_def)
    moreover have "p \<in> set init \<Longrightarrow> snd p < snd q"
      using ok i by (force simp: intervals_ok_def sorted_wrt_append)
    ultimately show ?thesis using p i by auto
  qed
  with ok room show ?thesis
    by (auto simp: i' intervals_ok_def interval_pages_def sorted_wrt_append le_SucI)
qed

lemma demand_scan_ok:
  assumes "intervals_ok number m intervals" and "interval_pages intervals = pages"
    and "demand_scan slots number elsewhere limit m intervals pages = (intervals', pages')"
  shows "intervals_ok (number + length slots) m intervals' \<and> interval_pages intervals' = pages' \<and>
    (\<exists>new rest. pages' = pages @ new \<and> new @ rest = selectable slots number elsewhere) \<and>
    length pages' \<le> max limit (length pages)"
  using assms
proof (induction slots arbitrary: number intervals pages)
  case (Cons slot slots)
  have mono: "intervals_ok n m i \<Longrightarrow> n \<le> n' \<Longrightarrow> intervals_ok n' m i" for n n' i
    by (auto simp: intervals_ok_def)
  show ?case
  proof (cases "limit \<le> length pages")
    case True
    with Cons.prems show ?thesis by (auto intro: mono)
  next
    case small: False
    show ?thesis
    proof (cases "slot \<noteq> SlotMissing True \<or> elsewhere number")
      case True
      with small Cons.prems(3)
      have "demand_scan slots (number + 1) elsewhere limit m intervals pages = (intervals', pages')"
        by auto
      from Cons.IH [OF mono [OF Cons.prems(1)] Cons.prems(2) this] True show ?thesis by auto
    next
      case want: False
      show ?thesis
      proof (cases "extend_intervals intervals number m")
        case None
        with small want Cons.prems show ?thesis by (auto intro: mono)
      next
        case (Some i)
        note ext = extend_intervals_ok [OF Cons.prems(1) Some]
        have "demand_scan slots (number + 1) elsewhere limit m i (pages @ [number]) = (intervals', pages')"
          using Some small want Cons.prems(3) by auto
        from Cons.IH [OF conjunct1 [OF ext] _ this] ext Cons.prems(2) want small show ?thesis
          by auto
      qed
    qed
  qed
qed auto

text \<open>
  C34: a selection demands the first selectable holes of the window, at most \<open>limit\<close> of them, and
  describes exactly those pages by at most \<open>max_intervals - 1\<close> nonempty intervals, in order, with a
  gap between any two.
\<close>

theorem selection_demand_spec:
  assumes "selection_demand slots next elsewhere limit max_intervals = Some (intervals, pages)"
  shows "pages \<noteq> [] \<and> (\<exists>rest. pages @ rest = selectable slots next elsewhere) \<and>
    length pages \<le> limit \<and> interval_pages intervals = pages \<and>
    length intervals \<le> max_intervals - 1 \<and> sorted_wrt (\<lambda>p q. snd p < fst q) intervals \<and>
    list_all (\<lambda>p. fst p < snd p) intervals"
proof -
  have scan: "demand_scan slots next elsewhere limit max_intervals [] [] = (intervals, pages)"
    and ne: "pages \<noteq> []"
    using assms by (auto simp: selection_demand_def Let_def split: prod.splits if_splits)
  have ok: "intervals_ok next max_intervals []" "interval_pages [] = []"
    by (simp_all add: intervals_ok_def interval_pages_def)
  from demand_scan_ok [OF ok scan] ne show ?thesis
    by (auto simp: intervals_ok_def list_all_iff)
qed

theorem selection_demand_spec_witness:
  "\<exists>rest. selection_demand [SlotMissing True, SlotMissing True, SlotReady, SlotMissing True, SlotMissing True]
      10 (\<lambda>_. False) 3 4 = Some ([(10, 12), (13, 14)], [10, 11, 13]) \<and>
    [10, 11, 13] @ rest =
      selectable [SlotMissing True, SlotMissing True, SlotReady, SlotMissing True, SlotMissing True]
        10 (\<lambda>_. False)"
proof -
  have "selection_demand [SlotMissing True, SlotMissing True, SlotReady, SlotMissing True, SlotMissing True]
      10 (\<lambda>_. False) 3 4 = Some ([(10, 12), (13, 14)], [10, 11, 13])"
    by (simp add: selection_demand_def extend_intervals_def)
  from selection_demand_spec [OF this] this show ?thesis by auto
qed

lemma share_covers:
  assumes "may_select selections spare"
  shows "holes \<le> share holes selections spare *
    (if selections = 0 then min (SELECTIONS - selections) (spare + 1) else min (SELECTIONS - selections) spare)"
proof -
  let ?n = "if selections = 0 then min (SELECTIONS - selections) (spare + 1)
    else min (SELECTIONS - selections) spare"
  have pos: "0 < ?n" using assms by (auto simp: may_select_def)
  then have "max ?n 1 = ?n" by simp
  then have share: "share holes selections spare = max (div_ceil holes ?n) 1"
    by (simp add: share_def Let_def)
  have "holes \<le> div_ceil holes ?n * ?n" using pos by (rule div_ceil_ge)
  also have "div_ceil holes ?n * ?n \<le> max (div_ceil holes ?n) 1 * ?n" by (intro mult_le_mono) simp_all
  finally show ?thesis by (simp only: share)
qed

lemma persist_write_bound:
  "persist f = PersistWrite \<Longrightarrow> \<not> pf_owned f \<Longrightarrow>
   pf_dirty_used f + pf_amount f \<le> optional_ceiling (pf_dirty_limit f) (pf_one_page f)"
  by (auto simp: persist_def optional_headroom_def Let_def split: if_splits)

end
