(* ===== verification/Racer_Liveness.thy ===== *)
theory Racer_Liveness
  imports Racer_Maps
begin

section \<open>Peer silence, detours and the rank-0 watch (core/src/liveness.rs)\<close>

text \<open>
  Three bounded, expiring tables over hash maps: \<open>Silence\<close> (which neighbors stopped answering),
  \<open>Detours\<close> (which destinations are routed around their relay) and \<open>Rank0Watch\<close> (what an owner
  presumes about rank 0's fetch of a page). Sequence numbers are \<open>u64\<close> counters that count
  insertions and are \<open>nat\<close> here; instants are unbounded, so adding a duration to one never fails.

  The locale \<open>capped_table\<close> is what the three have in common: a capacity, entries, and a way to make
  room before an insert.
\<close>

subsection \<open>Silence\<close>

definition SILENCE_TTL :: duration where "SILENCE_TTL = secs 60"
definition LINK_TIMEOUTS :: nat where "LINK_TIMEOUTS = 2"
definition RANK0_TIMEOUTS :: nat where "RANK0_TIMEOUTS = 1"
definition NO_PING :: nat where "NO_PING = u32_max"

record 'p silence_entry =
  se_subject :: 'p
  se_want :: bool
  se_timeouts :: nat
  se_pinging :: "instant option"
  se_silent :: bool
  se_next :: instant
  se_busy_until :: "instant option"
  se_last :: instant
  se_seq :: nat

text \<open>A ping's answer: \<open>Inr (by_peer, unavailable)\<close> if signed, \<open>Inl timed_out\<close> if there is none.\<close>

fun ping_verdict :: "bool + bool \<times> bool \<Rightarrow> bool option" where
  "ping_verdict (Inr (True, _)) = Some True"
| "ping_verdict (Inr (False, True)) = Some False"
| "ping_verdict (Inl True) = Some False"
| "ping_verdict (Inr (False, False)) = None"
| "ping_verdict (Inl False) = None"

record ('n, 'p) silence =
  s_capacity :: nat
  s_hang_after :: duration
  s_ping_timeout :: duration
  s_entries :: "('n, 'p silence_entry) hmap"
  s_seq :: nat

definition silence_new :: "nat \<Rightarrow> duration \<Rightarrow> duration \<Rightarrow> ('n, 'p) silence" where
  "silence_new capacity hang_after ping_timeout =
     \<lparr>s_capacity = max capacity 1, s_hang_after = hang_after, s_ping_timeout = ping_timeout,
      s_entries = [], s_seq = 0\<rparr>"

definition silence_min_wait :: "('n, 'p) silence \<Rightarrow> duration" where
  "silence_min_wait s = s_hang_after s div 10"

definition silence_hold :: "('n, 'p) silence \<Rightarrow> duration" where
  "silence_hold s = sat_mul dur_max (s_hang_after s) 2"

definition silence_quiet :: "('n, 'p) silence \<Rightarrow> duration" where
  "silence_quiet s = s_hang_after s"

definition pinging_now :: "duration \<Rightarrow> instant \<Rightarrow> 'p silence_entry \<Rightarrow> bool" where
  "pinging_now stale now e = (case se_pinging e of None \<Rightarrow> False | Some at \<Rightarrow> now - at < stale)"

definition entry_holds :: "'p silence_entry \<Rightarrow> instant \<Rightarrow> bool" where
  "entry_holds e now \<longleftrightarrow> se_silent e \<and> now - se_last e \<le> SILENCE_TTL"

text \<open>
  \<open>make_room\<close>, which \<open>Silence\<close> and \<open>Detours\<close> both have: nothing below the capacity; otherwise drop the
  expired entries and, if that is not enough, the one with the least (last, seq).
\<close>

definition evict_room ::
  "nat \<Rightarrow> ('v \<Rightarrow> bool) \<Rightarrow> ('v \<Rightarrow> instant \<times> nat) \<Rightarrow> ('k, 'v) hmap \<Rightarrow> ('k, 'v) hmap" where
  "evict_room capacity live stamp m =
     (if length m < capacity then m
      else let kept = hm_retain (\<lambda>_ e. live e) m in
        if length kept \<ge> capacity
        then case min_by_key (\<lambda>(_, e). stamp e) kept of
               None \<Rightarrow> kept
             | Some (oldest, _) \<Rightarrow> hm_remove oldest kept
        else kept)"

definition silence_make_room :: "instant \<Rightarrow> ('n, 'p) silence \<Rightarrow> ('n, 'p) silence" where
  "silence_make_room now s =
     s\<lparr>s_entries := evict_room (s_capacity s) (\<lambda>e. now - se_last e \<le> SILENCE_TTL)
         (\<lambda>e. (se_last e, se_seq e)) (s_entries s)\<rparr>"

definition silence_insert ::
  "'n \<Rightarrow> 'p silence_entry \<Rightarrow> ('n, 'p) silence \<Rightarrow> ('n, 'p) silence" where
  "silence_insert peer e s = s\<lparr>s_entries := hm_insert peer e (s_entries s), s_seq := s_seq s + 1\<rparr>"

text \<open>\<open>timed_out\<close> returns whether a ping is wanted now.\<close>

definition silence_timed_out ::
  "'n \<Rightarrow> 'p \<Rightarrow> instant \<Rightarrow> instant \<Rightarrow> nat \<Rightarrow> ('n, 'p) silence \<Rightarrow> bool \<times> ('n, 'p) silence" where
  "silence_timed_out peer subject sent now needed s =
     (if now - sent < silence_min_wait s then (False, s)
      else let stale = sat_mul dur_max (s_ping_timeout s) 2 in
        case hm_get (s_entries s) peer of
          Some entry \<Rightarrow>
            let timeouts = sat_add u32_max (se_timeouts entry) 1;
                want = (\<not> se_silent entry \<and> \<not> pinging_now stale now entry \<and>
                        now \<ge> se_next entry \<and> timeouts \<ge> needed)
            in (want,
                s\<lparr>s_entries := hm_update peer
                    (\<lambda>e. e\<lparr>se_last := max (se_last e) now, se_subject := subject,
                           se_timeouts := timeouts, se_want := se_want e \<or> want\<rparr>)
                    (s_entries s)\<rparr>)
        | None \<Rightarrow>
            let s' = silence_make_room now s in
            (needed \<le> 1,
             silence_insert peer
               \<lparr>se_subject = subject, se_want = needed \<le> 1, se_timeouts = 1, se_pinging = None,
                se_silent = False, se_next = now, se_busy_until = None, se_last = now,
                se_seq = s_seq s'\<rparr> s'))"

definition silence_answered :: "'n \<Rightarrow> instant \<Rightarrow> ('n, 'p) silence \<Rightarrow> ('n, 'p) silence" where
  "silence_answered peer now s =
     s\<lparr>s_entries := hm_update peer
         (\<lambda>e. e\<lparr>se_want := False, se_timeouts := 0, se_pinging := None, se_silent := False,
                se_next := max (se_next e) (now + silence_quiet s), se_busy_until := None,
                se_last := max (se_last e) now\<rparr>)
         (s_entries s)\<rparr>"

definition silence_shed :: "'n \<Rightarrow> 'p \<Rightarrow> instant \<Rightarrow> ('n, 'p) silence \<Rightarrow> ('n, 'p) silence" where
  "silence_shed peer subject now s =
     (let s1 = (case hm_get (s_entries s) peer of
                  Some _ \<Rightarrow> s
                | None \<Rightarrow>
                    let s' = silence_make_room now s in
                    silence_insert peer
                      \<lparr>se_subject = subject, se_want = False, se_timeouts = 0, se_pinging = None,
                       se_silent = False, se_next = now, se_busy_until = None, se_last = now,
                       se_seq = s_seq s'\<rparr> s');
          s2 = silence_answered peer now s1
      in s2\<lparr>s_entries := hm_update peer (\<lambda>e. e\<lparr>se_busy_until := Some (now + silence_quiet s)\<rparr>)
              (s_entries s2)\<rparr>)"

definition silence_start_ping :: "'n \<Rightarrow> instant \<Rightarrow> ('n, 'p) silence \<Rightarrow> ('n, 'p) silence" where
  "silence_start_ping peer now s =
     s\<lparr>s_entries := hm_update peer (\<lambda>e. e\<lparr>se_want := False, se_pinging := Some now\<rparr>)
         (s_entries s)\<rparr>"

text \<open>
  \<open>due_pings\<close>: the due entries in iteration order, sorted by sequence number and truncated; then
  each is marked in turn.
\<close>

definition ping_due :: "duration \<Rightarrow> instant \<Rightarrow> 'p silence_entry \<Rightarrow> bool" where
  "ping_due stale now e \<longleftrightarrow>
     \<not> pinging_now stale now e \<and> (se_want e \<or> (se_silent e \<and> now \<ge> se_next e))"

definition due_list :: "instant \<Rightarrow> nat \<Rightarrow> ('n, 'p) silence \<Rightarrow> (nat \<times> 'n) list" where
  "due_list now maximum s =
     take maximum
       (sort_key fst
         (map (\<lambda>(peer, e). (se_seq e, peer))
           (filter (\<lambda>(_, e). ping_due (sat_mul dur_max (s_ping_timeout s) 2) now e)
             (s_entries s))))"

fun mark_pings :: "instant \<Rightarrow> 'n list \<Rightarrow> ('n, 'p) silence \<Rightarrow> ('n \<times> 'p) list \<times> ('n, 'p) silence" where
  "mark_pings now [] s = ([], s)"
| "mark_pings now (peer # peers) s =
     (case hm_get (s_entries s) peer of
        None \<Rightarrow> mark_pings now peers s
      | Some entry \<Rightarrow>
          let s1 = s\<lparr>s_entries := hm_update peer
                       (\<lambda>e. e\<lparr>se_want := False, se_pinging := Some now\<rparr>) (s_entries s)\<rparr>;
              (sent, s2) = mark_pings now peers s1
          in ((peer, se_subject entry) # sent, s2))"

definition silence_due_pings ::
  "instant \<Rightarrow> nat \<Rightarrow> ('n, 'p) silence \<Rightarrow> ('n \<times> 'p) list \<times> ('n, 'p) silence" where
  "silence_due_pings now maximum s = mark_pings now (map snd (due_list now maximum s)) s"

text \<open>\<open>ping_result\<close> returns whether the peer became silent.\<close>

definition silence_ping_result ::
  "'n \<Rightarrow> bool option \<Rightarrow> instant \<Rightarrow> ('n, 'p) silence \<Rightarrow> bool \<times> ('n, 'p) silence" where
  "silence_ping_result peer verdict now s =
     (case (hm_get (s_entries s) peer, verdict) of
        (Some entry, Some answered) \<Rightarrow>
          if se_pinging entry = None \<and> \<not> answered then (False, s)
          else
            (\<not> answered \<and> \<not> se_silent entry,
             s\<lparr>s_entries := hm_update peer
                 (\<lambda>e. e\<lparr>se_pinging := None,
                        se_timeouts := (if answered then 0 else se_timeouts e),
                        se_silent := \<not> answered, se_want := False,
                        se_next := now + (if answered then silence_quiet s else silence_hold s),
                        se_last := max (se_last e) now\<rparr>)
                 (s_entries s)\<rparr>)
      | _ \<Rightarrow> (False, s))"

definition silence_unanswered :: "('n, 'p) silence \<Rightarrow> 'n \<Rightarrow> instant \<Rightarrow> bool" where
  "silence_unanswered s peer now =
     (case hm_get (s_entries s) peer of
        None \<Rightarrow> False
      | Some e \<Rightarrow>
          ((se_silent e \<or> se_timeouts e > 0) \<and> now - se_last e \<le> SILENCE_TTL) \<or>
          (case se_busy_until e of None \<Rightarrow> False | Some until \<Rightarrow> now < until))"

definition silence_silent :: "('n, 'p) silence \<Rightarrow> 'n \<Rightarrow> instant \<Rightarrow> bool" where
  "silence_silent s peer now =
     (case hm_get (s_entries s) peer of None \<Rightarrow> False | Some e \<Rightarrow> entry_holds e now)"

definition silent_peers :: "('n, 'p) silence \<Rightarrow> instant \<Rightarrow> 'n list" where
  "silent_peers s now = map fst (filter (\<lambda>(_, e). entry_holds e now) (s_entries s))"

definition silence_retain :: "('n \<Rightarrow> bool) \<Rightarrow> ('n, 'p) silence \<Rightarrow> ('n, 'p) silence" where
  "silence_retain keep s = s\<lparr>s_entries := hm_retain (\<lambda>n _. keep n) (s_entries s)\<rparr>"

subsection \<open>Detours\<close>

definition DETOUR_TTL :: duration where "DETOUR_TTL = SILENCE_TTL"
definition MAX_DETOUR :: nat where "MAX_DETOUR = 2"

record detour =
  d_level :: nat
  d_since :: instant
  d_last :: instant
  d_seq :: nat

record 'n detours =
  ds_capacity :: nat
  ds_entries :: "('n, detour) hmap"
  ds_seq :: nat

definition detours_new :: "nat \<Rightarrow> 'n detours" where
  "detours_new capacity = \<lparr>ds_capacity = max capacity 1, ds_entries = [], ds_seq = 0\<rparr>"

definition detours_make_room :: "instant \<Rightarrow> 'n detours \<Rightarrow> 'n detours" where
  "detours_make_room now s =
     s\<lparr>ds_entries := evict_room (ds_capacity s) (\<lambda>e. now - d_last e \<le> DETOUR_TTL)
         (\<lambda>e. (d_last e, d_seq e)) (ds_entries s)\<rparr>"

definition detours_insert :: "'n \<Rightarrow> detour \<Rightarrow> 'n detours \<Rightarrow> 'n detours" where
  "detours_insert peer e s =
     s\<lparr>ds_entries := hm_insert peer e (ds_entries s), ds_seq := ds_seq s + 1\<rparr>"

definition detours_timed_out :: "'n \<Rightarrow> instant \<Rightarrow> instant \<Rightarrow> 'n detours \<Rightarrow> 'n detours" where
  "detours_timed_out peer sent now s =
     (let fresh = (\<lambda>s. let s' = detours_make_room now
                              (s\<lparr>ds_entries := hm_remove peer (ds_entries s)\<rparr>)
                       in detours_insert peer
                            \<lparr>d_level = 1, d_since = now, d_last = now, d_seq = ds_seq s'\<rparr> s')
      in case hm_get (ds_entries s) peer of
           None \<Rightarrow> fresh s
         | Some entry \<Rightarrow>
             if now - d_last entry \<le> DETOUR_TTL
             then s\<lparr>ds_entries := hm_update peer
                      (\<lambda>e. let e' = (if sent \<ge> d_since e \<and> d_level e < MAX_DETOUR
                                     then e\<lparr>d_level := d_level e + 1, d_since := now\<rparr> else e)
                           in e'\<lparr>d_last := max (d_last e') now\<rparr>)
                      (ds_entries s)\<rparr>
             else fresh s)"

definition detours_level :: "'n detours \<Rightarrow> 'n \<Rightarrow> instant \<Rightarrow> nat" where
  "detours_level s peer now =
     (case hm_get (ds_entries s) peer of
        None \<Rightarrow> 0
      | Some e \<Rightarrow> if now - d_last e \<le> DETOUR_TTL then d_level e else 0)"

definition detours_retain :: "('n \<Rightarrow> bool) \<Rightarrow> 'n detours \<Rightarrow> 'n detours" where
  "detours_retain keep s = s\<lparr>ds_entries := hm_retain (\<lambda>n _. keep n) (ds_entries s)\<rparr>"

subsection \<open>The rank-0 watch\<close>

definition WATCH_TTL :: duration where "WATCH_TTL = secs 60"

datatype rank0_state = R0_Unknown | R0_Fetching | R0_Overdue | R0_Failed

record 'n rank0_entry =
  re_node :: 'n
  re_until :: instant
  re_last :: instant
  re_failed :: bool

record ('k, 'n) rank0_watch =
  w_capacity :: nat
  w_ttl :: duration
  w_hang_after :: duration
  w_entries :: "('k, 'n rank0_entry) hmap"
  w_silent :: "('n, instant) hmap"
  w_order :: "('k \<times> instant) list"

definition watch_new :: "nat \<Rightarrow> duration \<Rightarrow> duration \<Rightarrow> ('k, 'n) rank0_watch" where
  "watch_new capacity ttl hang_after =
     \<lparr>w_capacity = max capacity 1, w_ttl = max ttl hang_after, w_hang_after = hang_after,
      w_entries = [], w_silent = [], w_order = []\<rparr>"

definition watch_state :: "('k, 'n) rank0_watch \<Rightarrow> 'k \<Rightarrow> 'n \<Rightarrow> instant \<Rightarrow> rank0_state" where
  "watch_state w key rank0 now =
     (let silent = (case hm_get (w_silent w) rank0 of None \<Rightarrow> False | Some at \<Rightarrow> now - at \<le> w_ttl w);
          other = (if silent then R0_Overdue else R0_Unknown)
      in case hm_get (w_entries w) key of
           None \<Rightarrow> other
         | Some e \<Rightarrow>
             if re_node e = rank0 \<and> now - re_last e \<le> w_ttl w
             then if re_failed e
                  then if now < re_until e then R0_Failed
                       else if silent then R0_Overdue else R0_Unknown
                  else if now < re_until e \<and> \<not> silent then R0_Fetching
                  else R0_Overdue
             else other)"

text \<open>The eviction loop of \<open>insert\<close>: pop the oldest stamp until there is room or no stamp is left.\<close>

definition stamp_live :: "('k, 'n rank0_entry) hmap \<Rightarrow> 'k \<times> instant \<Rightarrow> bool" where
  "stamp_live entries st =
     (case hm_get entries (fst st) of None \<Rightarrow> False | Some e \<Rightarrow> re_last e = snd st)"

fun watch_evict ::
  "nat \<Rightarrow> ('k, 'n rank0_entry) hmap \<Rightarrow> ('k \<times> instant) list \<Rightarrow>
   ('k, 'n rank0_entry) hmap \<times> ('k \<times> instant) list" where
  "watch_evict capacity entries [] = (entries, [])"
| "watch_evict capacity entries (st # order) =
     (if length entries < capacity then (entries, st # order)
      else watch_evict capacity
             (if stamp_live entries st then hm_remove (fst st) entries else entries) order)"

definition watch_insert ::
  "'k \<Rightarrow> 'n rank0_entry \<Rightarrow> ('k, 'n) rank0_watch \<Rightarrow> ('k, 'n) rank0_watch" where
  "watch_insert key e w =
     (let (entries, order) = watch_evict (w_capacity w) (hm_remove key (w_entries w)) (w_order w)
      in w\<lparr>w_entries := hm_insert key e entries, w_order := order\<rparr>)"

definition watch_compact :: "('k, 'n) rank0_watch \<Rightarrow> ('k, 'n) rank0_watch" where
  "watch_compact w =
     (if length (w_order w) \<le> 2 * w_capacity w then w
      else w\<lparr>w_order := filter (stamp_live (w_entries w)) (w_order w)\<rparr>)"

text \<open>Confirming that rank 0 is silent, within the capacity.\<close>

definition watch_confirm_silent ::
  "'n \<Rightarrow> instant \<Rightarrow> ('k, 'n) rank0_watch \<Rightarrow> ('k, 'n) rank0_watch" where
  "watch_confirm_silent rank0 now w =
     (let kept = (if length (w_silent w) \<ge> w_capacity w \<and> hm_get (w_silent w) rank0 = None
                  then hm_retain (\<lambda>_ at. now - at \<le> w_ttl w) (w_silent w) else w_silent w)
      in w\<lparr>w_silent := (if length kept < w_capacity w \<or> hm_get kept rank0 \<noteq> None
                        then hm_insert rank0 now kept else kept)\<rparr>)"

definition watch_timed_out ::
  "'k \<Rightarrow> 'n \<Rightarrow> instant \<Rightarrow> instant \<Rightarrow> ('k, 'n) rank0_watch \<Rightarrow> ('k, 'n) rank0_watch" where
  "watch_timed_out key rank0 now deadline w =
     (let fresh = (\<lambda>_::unit. watch_insert key
            \<lparr>re_node = rank0, re_until = max deadline (now + w_hang_after w), re_last = now,
             re_failed = False\<rparr> w);
          w1 = (case hm_get (w_entries w) key of
                  None \<Rightarrow> fresh ()
                | Some e \<Rightarrow>
                    if re_node e = rank0 \<and> \<not> re_failed e \<and> now - re_last e \<le> w_ttl w
                    then let w' = w\<lparr>w_entries := hm_update key (\<lambda>e. e\<lparr>re_last := now\<rparr>) (w_entries w)\<rparr>
                         in if now \<ge> re_until e then watch_confirm_silent rank0 now w' else w'
                    else fresh ())
      in watch_compact (w1\<lparr>w_order := w_order w1 @ [(key, now)]\<rparr>))"

definition watch_failed ::
  "'k \<Rightarrow> 'n \<Rightarrow> instant \<Rightarrow> ('k, 'n) rank0_watch \<Rightarrow> ('k, 'n) rank0_watch" where
  "watch_failed key rank0 now w =
     (let fresh = (\<lambda>_::unit. watch_insert key
            \<lparr>re_node = rank0, re_until = now + w_hang_after w, re_last = now, re_failed = True\<rparr> w);
          w1 = (case hm_get (w_entries w) key of
                  None \<Rightarrow> fresh ()
                | Some e \<Rightarrow>
                    if re_node e = rank0 \<and> re_failed e \<and> now < re_until e \<and>
                       now - re_last e \<le> w_ttl w
                    then w\<lparr>w_entries := hm_update key (\<lambda>e. e\<lparr>re_last := now\<rparr>) (w_entries w)\<rparr>
                    else fresh ())
      in watch_compact (w1\<lparr>w_order := w_order w1 @ [(key, now)]\<rparr>))"

definition watch_answered :: "'k \<Rightarrow> 'n \<Rightarrow> ('k, 'n) rank0_watch \<Rightarrow> ('k, 'n) rank0_watch" where
  "watch_answered key rank0 w =
     w\<lparr>w_entries := hm_remove key (w_entries w), w_silent := hm_remove rank0 (w_silent w)\<rparr>"

definition watch_answered_failure ::
  "'k \<Rightarrow> 'n \<Rightarrow> ('k, 'n) rank0_watch \<Rightarrow> ('k, 'n) rank0_watch" where
  "watch_answered_failure key rank0 w =
     (let w1 = (case hm_get (w_entries w) key of
                  Some e \<Rightarrow> if re_failed e then w
                            else w\<lparr>w_entries := hm_remove key (w_entries w)\<rparr>
                | None \<Rightarrow> w)
      in w1\<lparr>w_silent := hm_remove rank0 (w_silent w1)\<rparr>)"

subsection \<open>Capped tables\<close>

locale capped_table =
  fixes cap :: "'s \<Rightarrow> nat"
    and tbl :: "'s \<Rightarrow> ('k, 'v) hmap"
    and inv :: "'s \<Rightarrow> bool"
    and room :: "instant \<Rightarrow> 's \<Rightarrow> 's"
    and put :: "'k \<Rightarrow> 'v \<Rightarrow> 's \<Rightarrow> 's"
  assumes inv_ok: "inv s \<Longrightarrow> hm_ok (tbl s)"
    and room_cap: "cap (room now s) = cap s"
    and room_ok: "inv s \<Longrightarrow> hm_ok (tbl (room now s))"
    and room_sub: "set (tbl (room now s)) \<subseteq> set (tbl s)"
    and room_free: "inv s \<Longrightarrow> length (tbl (room now s)) < cap s"
    and put_tbl: "tbl (put k v s) = hm_insert k v (tbl s)"
    and put_cap: "cap (put k v s) = cap s"
begin

lemma put_room_ok: "inv s \<Longrightarrow> hm_ok (tbl (put k v (room now s)))"
  by (simp add: put_tbl room_ok)

lemma put_room_cap: "inv s \<Longrightarrow> length (tbl (put k v (room now s))) \<le> cap s"
  using hm.count_put_le [of "tbl (room now s)" k v] room_free [of s now] room_ok [of s now]
  by (simp add: put_tbl)

lemma put_room_get: "inv s \<Longrightarrow> hm_get (tbl (put k v (room now s))) k = Some v"
  by (simp add: put_tbl)

lemma put_room_other:
  assumes "inv s" and "hm_get (tbl (put k v (room now s))) k' = Some v'" and "k' \<noteq> k"
  shows "hm_get (tbl s) k' = Some v'"
proof -
  have "hm_get (tbl (room now s)) k' = Some v'"
    using assms(2,3) by (simp add: put_tbl)
  then have "(k', v') \<in> set (tbl s)"
    using room_sub hm_get_SomeD by fastforce
  then show ?thesis using inv_ok [OF assms(1)] by (simp add: hm_get_Some_iff)
qed

end

lemma evict_room_free:
  assumes "hm_ok m" and "0 < c" and "length m \<le> c"
  shows "length (evict_room c live stamp m) < c"
proof (cases "c \<le> length (hm_retain (\<lambda>_ e. live e) m)")
  case True
  let ?kept = "hm_retain (\<lambda>_ e. live e) m"
  from True assms(2) have "?kept \<noteq> []" by auto
  then obtain n e where least: "min_by_key (\<lambda>(_, e). stamp e) ?kept = Some (n, e)"
    by (cases "min_by_key (\<lambda>(_, e). stamp e) ?kept") auto
  then have "(n, e) \<in> set ?kept"
    by (blast dest: min_by_key_Some)
  then have "hm_get ?kept n \<noteq> None"
    by (rule hm_get_present)
  from hm.count_del_present [OF hm_ok_retain [OF assms(1)] this]
    length_hm_retain [of "\<lambda>_. live" m] assms(3)
  have "length (hm_remove n ?kept) < c" by simp
  then show ?thesis using True least by (simp add: evict_room_def Let_def)
qed (use assms in \<open>simp add: evict_room_def Let_def\<close>)

lemma evict_room_sub: "set (evict_room c live stamp m) \<subseteq> set m"
  by (auto simp: evict_room_def Let_def hm_set_remove hm_set_retain split: option.splits)

lemma evict_room_ok: "hm_ok m \<Longrightarrow> hm_ok (evict_room c live stamp m)"
  by (simp add: evict_room_def Let_def split: option.splits prod.splits)

lemma evict_room_distinct: "distinct (map g m) \<Longrightarrow> distinct (map g (evict_room c live stamp m))"
  by (auto simp: evict_room_def Let_def hm_remove_def hm_retain_def distinct_map_filter
      split: option.splits)

text \<open>With distinct stamps the result does not depend on the iteration order.\<close>

lemma evict_room_perm:
  assumes "mset m = mset m'" and "inj_on (\<lambda>p. stamp (snd p)) (set m)"
  shows "mset (evict_room c live stamp m) = mset (evict_room c live stamp m')"
proof -
  let ?k = "hm_retain (\<lambda>_ e. live e) m" and ?k' = "hm_retain (\<lambda>_ e. live e) m'"
  have kept: "mset ?k = mset ?k'"
    using assms(1) by (simp add: hm_retain_def)
  have "inj_on (\<lambda>(_, e). stamp e) (set ?k)"
    unfolding case_prod_unfold
    by (rule inj_on_subset [OF assms(2)]) (auto simp: hm_set_retain)
  from min_by_key_perm [OF kept this] kept
  show ?thesis using assms(1) mset_eq_length [OF kept] mset_eq_length [OF assms(1)]
    by (auto simp: evict_room_def Let_def hm_remove_def split: option.splits)
qed

subsection \<open>Silence: invariant\<close>

definition silence_inv :: "('n, 'p) silence \<Rightarrow> bool" where
  "silence_inv s \<longleftrightarrow>
     0 < s_capacity s \<and> hm_ok (s_entries s) \<and> length (s_entries s) \<le> s_capacity s \<and>
     distinct (map (se_seq \<circ> snd) (s_entries s)) \<and>
     (\<forall>p \<in> set (s_entries s). se_seq (snd p) < s_seq s)"

interpretation sil: capped_table s_capacity s_entries silence_inv silence_make_room silence_insert
  by unfold_locales
    (auto simp: silence_make_room_def silence_insert_def silence_inv_def evict_room_ok
      evict_room_free dest: subsetD [OF evict_room_sub])

lemma silence_make_room_params [simp]:
  "s_capacity (silence_make_room now s) = s_capacity s"
  "s_hang_after (silence_make_room now s) = s_hang_after s"
  "s_ping_timeout (silence_make_room now s) = s_ping_timeout s"
  "s_seq (silence_make_room now s) = s_seq s"
  by (simp_all add: silence_make_room_def Let_def)

lemma hm_update_seqs:
  "(\<And>e. se_seq (f e) = se_seq e) \<Longrightarrow>
   map (se_seq \<circ> snd) (hm_update k f m) = map (se_seq \<circ> snd) m"
  by (simp add: hm_update_def comp_def)

lemma silence_inv_update:
  assumes "silence_inv s" and "\<And>e. se_seq (f e) = se_seq e"
  shows "silence_inv (s\<lparr>s_entries := hm_update peer f (s_entries s)\<rparr>)"
  using assms by (auto simp: silence_inv_def hm_update_seqs hm_set_update split: if_splits)

lemma silence_inv_insert:
  assumes inv: "silence_inv s" and seq: "se_seq e = s_seq s"
  shows "silence_inv (silence_insert peer e (silence_make_room now s))"
proof -
  let ?r = "silence_make_room now s"
  have dist: "distinct (map (se_seq \<circ> snd) (s_entries ?r))"
    using inv by (simp add: silence_inv_def silence_make_room_def evict_room_distinct)
  have bound: "\<forall>p \<in> set (s_entries ?r). se_seq (snd p) < s_seq s"
    using inv sil.room_sub [of now s] by (auto simp: silence_inv_def)
  have "distinct (map (se_seq \<circ> snd) (hm_insert peer e (s_entries ?r)))"
    using dist bound seq by (auto simp: hm_insert_def hm_remove_def distinct_map_filter)
  moreover have "\<forall>p \<in> set (hm_insert peer e (s_entries ?r)). se_seq (snd p) < Suc (s_seq s)"
    using bound seq by (auto simp: hm_set_insert)
  ultimately show ?thesis
    using inv sil.put_room_ok [OF inv] sil.put_room_cap [OF inv]
    by (simp add: silence_inv_def silence_insert_def)
qed

text \<open>The operations as events, with what each returns.\<close>

datatype ('n, 'p) silence_op =
    S_timed_out 'n 'p instant instant nat
  | S_shed 'n 'p instant
  | S_start_ping 'n instant
  | S_due_pings instant nat
  | S_ping_result 'n "bool option" instant
  | S_answered 'n instant
  | S_retain "'n \<Rightarrow> bool"

datatype ('n, 'p) silence_out = SO_unit | SO_flag bool | SO_pings "('n \<times> 'p) list"

fun silence_apply ::
  "('n, 'p) silence_op \<Rightarrow> ('n, 'p) silence \<Rightarrow> ('n, 'p) silence_out \<times> ('n, 'p) silence" where
  "silence_apply (S_timed_out peer subject sent now needed) s =
     map_prod SO_flag id (silence_timed_out peer subject sent now needed s)"
| "silence_apply (S_shed peer subject now) s = (SO_unit, silence_shed peer subject now s)"
| "silence_apply (S_start_ping peer now) s = (SO_unit, silence_start_ping peer now s)"
| "silence_apply (S_due_pings now maximum) s =
     map_prod SO_pings id (silence_due_pings now maximum s)"
| "silence_apply (S_ping_result peer verdict now) s =
     map_prod SO_flag id (silence_ping_result peer verdict now s)"
| "silence_apply (S_answered peer now) s = (SO_unit, silence_answered peer now s)"
| "silence_apply (S_retain keep) s = (SO_unit, silence_retain keep s)"

lemma silence_inv_answered: "silence_inv s \<Longrightarrow> silence_inv (silence_answered peer now s)"
  unfolding silence_answered_def by (rule silence_inv_update) simp_all

lemma silence_inv_timed_out:
  "silence_inv s \<Longrightarrow> silence_inv (snd (silence_timed_out peer subject sent now needed s))"
  by (auto simp: silence_timed_out_def Let_def
      intro!: silence_inv_update silence_inv_insert split: option.splits)

lemma silence_inv_shed: "silence_inv s \<Longrightarrow> silence_inv (silence_shed peer subject now s)"
  by (auto simp: silence_shed_def Let_def
      intro!: silence_inv_update silence_inv_insert silence_inv_answered split: option.splits)

lemma silence_inv_mark:
  "silence_inv s \<Longrightarrow> silence_inv (snd (mark_pings now peers s))"
proof (induction peers arbitrary: s)
  case (Cons a peers)
  then show ?case
    by (auto simp: Let_def case_prod_unfold silence_inv_update split: option.splits)
qed simp

lemma silence_inv_ping_result:
  "silence_inv s \<Longrightarrow> silence_inv (snd (silence_ping_result peer verdict now s))"
  by (auto simp: silence_ping_result_def intro!: silence_inv_update split: option.splits)

lemma silence_inv_retain: "silence_inv s \<Longrightarrow> silence_inv (silence_retain keep s)"
  using length_hm_retain [of "\<lambda>n _. keep n" "s_entries s"]
  by (auto simp: silence_inv_def silence_retain_def hm_set_retain)
    (simp add: hm_retain_def distinct_map_filter)

lemma silence_inv_apply: "silence_inv s \<Longrightarrow> silence_inv (snd (silence_apply op s))"
  by (cases op)
    (simp_all add: silence_inv_timed_out silence_inv_shed silence_inv_mark silence_inv_ping_result
      silence_inv_answered silence_inv_retain silence_start_ping_def silence_due_pings_def
      silence_inv_update)

text \<open>
  Every run of one table, most recent event first. Between events the hash map may be iterated in any
  other order.
\<close>

inductive silence_reach ::
  "nat \<Rightarrow> duration \<Rightarrow> duration \<Rightarrow> ('n, 'p) silence_op list \<Rightarrow> ('n, 'p) silence \<Rightarrow> bool"
  for c :: nat and h :: duration and pt :: duration where
  reach_new: "silence_reach c h pt [] (silence_new c h pt)"
| reach_op: "silence_reach c h pt ops s \<Longrightarrow>
    silence_reach c h pt (op # ops) (snd (silence_apply op s))"
| reach_rehash: "silence_reach c h pt ops s \<Longrightarrow> mset xs = mset (s_entries s) \<Longrightarrow>
    silence_reach c h pt ops (s\<lparr>s_entries := xs\<rparr>)"

lemma hm_ok_perm: "mset xs = mset ys \<Longrightarrow> hm_ok xs = hm_ok ys"
proof -
  assume "mset xs = mset ys"
  then have "mset (map fst xs) = mset (map fst ys)" by simp
  then show ?thesis unfolding hm_ok_def by (rule mset_eq_imp_distinct_iff)
qed

definition silence_same :: "('n, 'p) silence \<Rightarrow> ('n, 'p) silence \<Rightarrow> bool" where
  "silence_same s t \<longleftrightarrow> (\<exists>xs. t = s\<lparr>s_entries := xs\<rparr> \<and> mset xs = mset (s_entries s))"

lemma silence_inv_same: "silence_same s t \<Longrightarrow> silence_inv s \<Longrightarrow> silence_inv t"
proof -
  assume same: "silence_same s t" and inv: "silence_inv s"
  then obtain xs where t: "t = s\<lparr>s_entries := xs\<rparr>" and m: "mset xs = mset (s_entries s)"
    by (auto simp: silence_same_def)
  have "mset (map (se_seq \<circ> snd) xs) = mset (map (se_seq \<circ> snd) (s_entries s))"
    using m by simp
  then have "distinct (map (se_seq \<circ> snd) xs) = distinct (map (se_seq \<circ> snd) (s_entries s))"
    by (rule mset_eq_imp_distinct_iff)
  with inv t m show ?thesis
    using mset_eq_setD [OF m] mset_eq_length [OF m] hm_ok_perm [OF m]
    by (simp add: silence_inv_def)
qed

lemma silence_reach_inv: "silence_reach c h pt ops s \<Longrightarrow> silence_inv s"
proof (induction rule: silence_reach.induct)
  case reach_new
  then show ?case by (simp add: silence_inv_def silence_new_def)
next
  case (reach_op ops s op)
  then show ?case by (simp add: silence_inv_apply)
next
  case (reach_rehash ops s xs)
  then have "silence_same s (s\<lparr>s_entries := xs\<rparr>)" by (auto simp: silence_same_def)
  then show ?case using reach_rehash.IH by (rule silence_inv_same)
qed

subsection \<open>Silence: independence of the hash order\<close>

lemma hm_update_perm: "mset xs = mset ys \<Longrightarrow> mset (hm_update k f xs) = mset (hm_update k f ys)"
  by (simp add: hm_update_def)

lemma silence_same_refl: "silence_same s s"
  unfolding silence_same_def by (intro exI [of _ "s_entries s"]) simp

lemma silence_same_sym: "silence_same s t \<Longrightarrow> silence_same t s"
  unfolding silence_same_def by (auto intro!: exI [of _ "s_entries s"])

lemma silence_same_trans: "silence_same s t \<Longrightarrow> silence_same t u \<Longrightarrow> silence_same s u"
  unfolding silence_same_def by auto

lemma silence_same_update:
  "silence_same s t \<Longrightarrow>
   silence_same (s\<lparr>s_entries := hm_update k f (s_entries s)\<rparr>)
     (t\<lparr>s_entries := hm_update k f (s_entries t)\<rparr>)"
  unfolding silence_same_def
  by (auto intro!: exI [of _ "hm_update k f (s_entries t)"] hm_update_perm)

lemma silence_same_get:
  "silence_same s t \<Longrightarrow> silence_inv s \<Longrightarrow> hm_get (s_entries t) = hm_get (s_entries s)"
  by (auto simp: silence_same_def silence_inv_def intro!: hm_get_perm [symmetric])

lemma silence_same_params:
  "silence_same s t \<Longrightarrow> s_capacity t = s_capacity s \<and> s_hang_after t = s_hang_after s \<and>
     s_ping_timeout t = s_ping_timeout s \<and> s_seq t = s_seq s"
  by (auto simp: silence_same_def)

lemma silence_inv_stamps:
  "silence_inv s \<Longrightarrow> inj_on (\<lambda>p. (se_last (snd p), se_seq (snd p))) (set (s_entries s))"
  by (auto simp: silence_inv_def distinct_map inj_on_def)

lemma silence_same_make_room:
  assumes "silence_same s t" and "silence_inv s"
  shows "silence_same (silence_make_room now s) (silence_make_room now t)"
proof -
  obtain xs where t: "t = s\<lparr>s_entries := xs\<rparr>" and m: "mset xs = mset (s_entries s)"
    using assms(1) by (auto simp: silence_same_def)
  show ?thesis
    unfolding t silence_make_room_def silence_same_def
    using evict_room_perm [OF m [symmetric] silence_inv_stamps [OF assms(2)]] by auto
qed

lemma silence_same_insert:
  "silence_same s t \<Longrightarrow> silence_same (silence_insert peer e s) (silence_insert peer e t)"
  by (auto simp: silence_same_def silence_insert_def hm_insert_def hm_remove_def
      intro!: exI [of _ "hm_insert peer e (s_entries t)"])

lemma silence_same_answered:
  "silence_same s t \<Longrightarrow> silence_same (silence_answered peer now s) (silence_answered peer now t)"
  using silence_same_params [of s t]
  by (simp add: silence_answered_def silence_same_update silence_quiet_def)

lemma silence_same_timed_out:
  assumes "silence_same s t" and "silence_inv s"
  shows "fst (silence_timed_out peer subject sent now needed s) =
      fst (silence_timed_out peer subject sent now needed t)"
    and "silence_same (snd (silence_timed_out peer subject sent now needed s))
      (snd (silence_timed_out peer subject sent now needed t))"
  using assms silence_same_params [OF assms(1)] silence_same_get [OF assms]
  by (auto simp: silence_timed_out_def silence_min_wait_def Let_def silence_same_update
      intro!: silence_same_insert silence_same_make_room split: option.splits)

lemma silence_same_shed:
  assumes "silence_same s t" and "silence_inv s"
  shows "silence_same (silence_shed peer subject now s) (silence_shed peer subject now t)"
  using assms silence_same_params [OF assms(1)] silence_same_get [OF assms]
  by (auto simp: silence_shed_def silence_quiet_def Let_def
      intro!: silence_same_update silence_same_answered silence_same_insert silence_same_make_room
      split: option.splits)

lemma silence_same_mark:
  assumes "silence_same s t" and "silence_inv s"
  shows "fst (mark_pings now peers s) = fst (mark_pings now peers t) \<and>
    silence_same (snd (mark_pings now peers s)) (snd (mark_pings now peers t))"
  using assms
proof (induction peers arbitrary: s t)
  case (Cons a peers)
  let ?f = "\<lambda>e :: 'b silence_entry. e\<lparr>se_want := False, se_pinging := Some now\<rparr>"
  have IH: "fst (mark_pings now peers (s\<lparr>s_entries := hm_update a ?f (s_entries s)\<rparr>)) =
      fst (mark_pings now peers (t\<lparr>s_entries := hm_update a ?f (s_entries t)\<rparr>)) \<and>
      silence_same (snd (mark_pings now peers (s\<lparr>s_entries := hm_update a ?f (s_entries s)\<rparr>)))
        (snd (mark_pings now peers (t\<lparr>s_entries := hm_update a ?f (s_entries t)\<rparr>)))"
    by (rule Cons.IH) (simp_all add: silence_same_update silence_inv_update Cons.prems)
  show ?case
    using IH Cons.IH [OF Cons.prems] silence_same_get [OF Cons.prems]
    by (auto simp: Let_def case_prod_unfold split: option.splits)
qed simp

lemma due_list_same:
  assumes "silence_same s t" and "silence_inv s"
  shows "due_list now maximum s = due_list now maximum t"
proof -
  obtain xs where t: "t = s\<lparr>s_entries := xs\<rparr>" and m: "mset xs = mset (s_entries s)"
    using assms(1) by (auto simp: silence_same_def)
  let ?due = "\<lambda>ys. map (\<lambda>(peer, e). (se_seq e, peer))
    (filter (\<lambda>(_, e). ping_due (sat_mul dur_max (s_ping_timeout s) 2) now e) ys)"
  have "inj_on fst (set (?due (s_entries s)))"
    using assms(2) by (auto simp: silence_inv_def distinct_map inj_on_def) fastforce+
  moreover have "mset (?due (s_entries s)) = mset (?due xs)"
    using m by simp
  ultimately have "sort_key fst (?due (s_entries s)) = sort_key fst (?due xs)"
    by (intro sort_key_inj_key_eq) simp_all
  then show ?thesis by (simp add: due_list_def t)
qed

lemma silence_same_ping_result:
  assumes "silence_same s t" and "silence_inv s"
  shows "fst (silence_ping_result peer verdict now s) = fst (silence_ping_result peer verdict now t)"
    and "silence_same (snd (silence_ping_result peer verdict now s))
      (snd (silence_ping_result peer verdict now t))"
  using assms silence_same_params [OF assms(1)] silence_same_get [OF assms]
  by (auto simp: silence_ping_result_def silence_quiet_def silence_hold_def silence_same_update
      split: option.splits)

lemma silence_same_retain:
  "silence_same s t \<Longrightarrow> silence_same (silence_retain keep s) (silence_retain keep t)"
  by (auto simp: silence_same_def silence_retain_def hm_retain_def)

lemma silence_same_apply:
  assumes "silence_same s t" and "silence_inv s"
  shows "fst (silence_apply op s) = fst (silence_apply op t) \<and>
    silence_same (snd (silence_apply op s)) (snd (silence_apply op t))"
  using assms
  by (cases op)
    (simp_all add: silence_same_timed_out silence_same_shed silence_same_mark due_list_same
      silence_same_ping_result silence_same_answered silence_same_retain silence_same_update
      silence_due_pings_def silence_start_ping_def)

lemma silence_reach_same:
  assumes "silence_reach c h pt ops s" and "silence_reach c h pt ops t"
  shows "silence_same s t"
  using assms
proof (induction arbitrary: t rule: silence_reach.induct)
  case reach_new
  have "silence_reach c h pt ops t \<Longrightarrow> ops = [] \<Longrightarrow> silence_same (silence_new c h pt) t" for ops
    by (induction rule: silence_reach.induct)
      (auto simp: silence_same_refl elim!: silence_same_trans, auto simp: silence_same_def)
  with reach_new show ?case by blast
next
  case (reach_op ops s op)
  have "silence_reach c h pt ops' t \<Longrightarrow> ops' = op # ops \<Longrightarrow>
      silence_same (snd (silence_apply op s)) t" for ops'
  proof (induction rule: silence_reach.induct)
    case (reach_op ops'' s'' op'')
    then show ?case
      using reach_op.prems reach_op.hyps \<open>\<And>t. silence_reach c h pt ops t \<Longrightarrow> silence_same s t\<close>
        silence_same_apply silence_reach_inv [OF \<open>silence_reach c h pt ops s\<close>] by blast
  next
    case (reach_rehash ops'' s'' xs)
    then have "silence_same (snd (silence_apply op s)) s''" by blast
    moreover have "silence_same s'' (s''\<lparr>s_entries := xs\<rparr>)"
      using reach_rehash.hyps by (auto simp: silence_same_def)
    ultimately show ?case by (rule silence_same_trans)
  qed simp
  with reach_op.prems show ?case by blast
next
  case (reach_rehash ops s xs)
  then have "silence_same s t" by blast
  moreover have "silence_same s (s\<lparr>s_entries := xs\<rparr>)"
    using reach_rehash.hyps by (auto simp: silence_same_def)
  ultimately show ?case by (blast intro: silence_same_sym silence_same_trans)
qed

text \<open>
  C18: what a silence table does is a function of the events it saw: two tables with the same history,
  whatever the iteration orders of their hash maps on the way, agree on what the next operation
  returns and on whom they report as silent and as unanswered.
\<close>

theorem silence_deterministic:
  assumes "silence_reach c h pt ops s" and "silence_reach c h pt ops t"
  shows "fst (silence_apply op s) = fst (silence_apply op t) \<and>
    silence_silent s = silence_silent t \<and> silence_unanswered s = silence_unanswered t \<and>
    set (silent_peers s now) = set (silent_peers t now)"
proof -
  note same = silence_reach_same [OF assms] and inv = silence_reach_inv [OF assms(1)]
  have "set (silent_peers s now) = set (silent_peers t now)"
    using same by (auto simp: silence_same_def silent_peers_def dest!: mset_eq_setD)
  then show ?thesis
    using silence_same_apply [OF same inv, of op] silence_same_get [OF same inv]
    by (auto simp: fun_eq_iff silence_silent_def silence_unanswered_def)
qed

definition sil_ops :: "(nat, nat) silence_op list" where
  "sil_ops = [S_timed_out 2 20 0 2 1, S_timed_out 1 10 0 1 1]"

theorem silence_deterministic_witness:
  "\<exists>s t. silence_reach 4 10 1 sil_ops s \<and> silence_reach 4 10 1 sil_ops t \<and> s \<noteq> t \<and>
     fst (silence_apply (S_due_pings 3 2) s) = SO_pings [(1, 10), (2, 20)] \<and>
     fst (silence_apply (S_due_pings 3 2) t) = SO_pings [(1, 10), (2, 20)]"
proof -
  define s :: "(nat, nat) silence" where
    "s = snd (silence_apply (S_timed_out 2 20 0 2 1)
               (snd (silence_apply (S_timed_out 1 10 0 1 1) (silence_new 4 10 1))))"
  define t where "t = s\<lparr>s_entries := rev (s_entries s)\<rparr>"
  have s: "silence_reach 4 10 1 sil_ops s"
    unfolding s_def sil_ops_def by (intro reach_op reach_new)
  then have t: "silence_reach 4 10 1 sil_ops t"
    unfolding t_def by (rule reach_rehash) simp
  have out: "fst (silence_apply (S_due_pings 3 2) s) = SO_pings [(1, 10), (2, 20)]"
    by (simp add: s_def silence_new_def silence_timed_out_def silence_min_wait_def Let_def
        silence_make_room_def evict_room_def silence_insert_def hm_insert_def hm_remove_def
        hm_get_def silence_due_pings_def due_list_def ping_due_def pinging_now_def hm_update_def)
  have "s \<noteq> t"
    by (simp add: t_def s_def silence_new_def silence_timed_out_def silence_min_wait_def Let_def
        silence_make_room_def evict_room_def silence_insert_def hm_insert_def hm_remove_def
        hm_get_def)
  with s t out silence_deterministic [OF s t, of "S_due_pings 3 2"] show ?thesis by metis
qed

subsection \<open>Silence: no accusation without an unanswered ping\<close>

text \<open>
  What the history (most recent event first) says about a peer: the newest event that answers for it
  or settles a ping of it. A shed is an answer.
\<close>

fun accused :: "'n \<Rightarrow> ('n, 'p) silence_op list \<Rightarrow> bool" where
  "accused peer [] = False"
| "accused peer (S_ping_result n (Some answered) t # ops) =
     (if n = peer then \<not> answered else accused peer ops)"
| "accused peer (S_answered n t # ops) = (n \<noteq> peer \<and> accused peer ops)"
| "accused peer (S_shed n p t # ops) = (n \<noteq> peer \<and> accused peer ops)"
| "accused peer (_ # ops) = accused peer ops"

definition marked_silent :: "('n, 'p) silence \<Rightarrow> 'n \<Rightarrow> bool" where
  "marked_silent s peer = (case hm_get (s_entries s) peer of None \<Rightarrow> False | Some e \<Rightarrow> se_silent e)"

lemma marked_silent_update:
  "marked_silent (s\<lparr>s_entries := hm_update k f (s_entries s)\<rparr>) peer \<longleftrightarrow>
     (if peer = k then (case hm_get (s_entries s) k of None \<Rightarrow> False | Some e \<Rightarrow> se_silent (f e))
      else marked_silent s peer)"
  by (auto simp: marked_silent_def split: option.splits)

lemma marked_silent_answered:
  "marked_silent (silence_answered n now s) peer \<longleftrightarrow> peer \<noteq> n \<and> marked_silent s peer"
  unfolding silence_answered_def marked_silent_update by (auto split: option.splits)

lemma marked_silent_keep:
  "(\<And>e. se_silent (f e) = se_silent e) \<Longrightarrow>
   marked_silent (s\<lparr>s_entries := hm_update k f (s_entries s)\<rparr>) peer = marked_silent s peer"
  by (auto simp: marked_silent_def split: option.splits)

lemma marked_silent_insert_room:
  assumes "silence_inv s" and "marked_silent (silence_insert k e (silence_make_room now s)) peer"
    and "\<not> se_silent e"
  shows "peer \<noteq> k \<and> marked_silent s peer"
proof -
  obtain e' where e': "hm_get (s_entries (silence_insert k e (silence_make_room now s))) peer = Some e'"
      "se_silent e'"
    using assms(2) by (auto simp: marked_silent_def split: option.splits)
  with assms(3) sil.put_room_get [OF assms(1), of k e now] have "peer \<noteq> k"
    by auto
  with sil.put_room_other [OF assms(1) e'(1)] e'(2) show ?thesis
    by (simp add: marked_silent_def)
qed

lemma marked_silent_mark:
  "marked_silent (snd (mark_pings now peers s)) peer = marked_silent s peer"
proof (induction peers arbitrary: s)
  case (Cons a peers)
  show ?case
    by (auto simp: Let_def case_prod_unfold Cons.IH marked_silent_update marked_silent_def [of s]
        split: option.splits)
qed simp

lemma marked_silent_apply:
  assumes inv: "silence_inv s" and marked: "marked_silent (snd (silence_apply op s)) peer"
    and before: "marked_silent s peer \<Longrightarrow> accused peer ops"
  shows "accused peer (op # ops)"
proof (cases op)
  case (S_timed_out n p sent now needed)
  with marked have "marked_silent s peer"
    by (auto simp: silence_timed_out_def Let_def marked_silent_update marked_silent_def [of s]
        dest!: marked_silent_insert_room [OF inv] split: if_splits option.splits)
  with S_timed_out before show ?thesis by simp
next
  case (S_shed n p now)
  with marked have "peer \<noteq> n \<and> marked_silent s peer"
    by (auto simp: silence_shed_def Let_def marked_silent_keep marked_silent_answered
        dest!: marked_silent_insert_room [OF inv] split: option.splits)
  with S_shed before show ?thesis by auto
next
  case (S_start_ping n now)
  with marked have "marked_silent s peer"
    by (auto simp: silence_start_ping_def marked_silent_update marked_silent_def [of s]
        split: if_splits option.splits)
  with S_start_ping before show ?thesis by simp
next
  case (S_due_pings now maximum)
  with marked before show ?thesis by (simp add: silence_due_pings_def marked_silent_mark)
next
  case (S_ping_result n verdict now)
  with marked before show ?thesis
    by (cases verdict)
      (auto simp: silence_ping_result_def marked_silent_update marked_silent_def [of s]
        split: if_splits option.splits)
next
  case (S_answered n now)
  with marked before show ?thesis
    by (auto simp: marked_silent_answered)
next
  case (S_retain keep)
  with marked inv have "marked_silent s peer"
    by (auto simp: silence_retain_def marked_silent_def hm_get_retain silence_inv_def
        split: if_splits option.splits)
  with S_retain before show ?thesis by simp
qed

lemma silence_reach_accused:
  "silence_reach c h pt ops s \<Longrightarrow> marked_silent s peer \<Longrightarrow> accused peer ops"
proof (induction rule: silence_reach.induct)
  case reach_new
  then show ?case by (simp add: silence_new_def marked_silent_def)
next
  case (reach_op ops s op)
  then show ?case
    using marked_silent_apply [OF silence_reach_inv [OF reach_op.hyps] reach_op.prems] by blast
next
  case (reach_rehash ops s xs)
  have "hm_get xs = hm_get (s_entries s)"
    using reach_rehash.hyps silence_reach_inv by (metis hm_get_perm hm_ok_perm sil.inv_ok)
  with reach_rehash show ?case by (simp add: marked_silent_def)
qed

text \<open>
  C17: a silence table stays within its capacity and never accuses on timeouts alone. Whatever events
  it saw, it tracks at most its capacity of peers; and if it reports a peer as silent, then the newest
  event that answered for that peer or settled a ping of it is a ping found unanswered: any answer
  since, a shed included, would have cleared it.
\<close>

theorem silence_sound:
  assumes "silence_reach c h pt ops s"
  shows "length (s_entries s) \<le> s_capacity s \<and> distinct (map fst (s_entries s)) \<and>
    (\<forall>peer now. silence_silent s peer now \<longrightarrow> accused peer ops)"
proof -
  have "accused peer ops" if "silence_silent s peer now" for peer now
    using that silence_reach_accused [OF assms, of peer]
    by (auto simp: silence_silent_def marked_silent_def entry_holds_def split: option.splits)
  with silence_reach_inv [OF assms] show ?thesis
    by (auto simp: silence_inv_def hm_ok_def)
qed

theorem silence_sound_witness:
  "\<exists>s. silence_reach 1 10 1 [S_ping_result 7 (Some False) 4, S_start_ping 7 3, S_timed_out (7::nat) () 0 2 1] s \<and>
     silence_silent s 7 5 \<and> accused (7::nat) [S_ping_result 7 (Some False) 4, S_start_ping 7 3, S_timed_out 7 () 0 2 1]"
proof -
  define s :: "(nat, unit) silence" where
    "s = snd (silence_apply (S_ping_result 7 (Some False) 4) (snd (silence_apply (S_start_ping 7 3)
           (snd (silence_apply (S_timed_out 7 () 0 2 1) (silence_new 1 10 1))))))"
  have reach: "silence_reach 1 10 1
      [S_ping_result 7 (Some False) 4, S_start_ping 7 3, S_timed_out 7 () 0 2 1] s"
    unfolding s_def by (intro reach_op reach_new)
  have "silence_silent s 7 5"
    by (simp add: s_def silence_new_def silence_timed_out_def silence_min_wait_def Let_def
        silence_make_room_def evict_room_def silence_insert_def hm_insert_def hm_remove_def
        hm_get_def silence_start_ping_def hm_update_def silence_ping_result_def silence_silent_def
        entry_holds_def SILENCE_TTL_def secs_def)
  with silence_sound [OF reach] reach show ?thesis by blast
qed

subsection \<open>Silence: the pings handed out\<close>

lemma mark_pings_spec:
  assumes "distinct peers" and "\<forall>n \<in> set peers. hm_get (s_entries s) n \<noteq> None"
  shows "fst (mark_pings now peers s) =
      map (\<lambda>n. (n, se_subject (the (hm_get (s_entries s) n)))) peers \<and>
    (\<forall>n. hm_get (s_entries (snd (mark_pings now peers s))) n =
      (if n \<in> set peers
       then map_option (\<lambda>e. e\<lparr>se_want := False, se_pinging := Some now\<rparr>) (hm_get (s_entries s) n)
       else hm_get (s_entries s) n))"
  using assms
proof (induction peers arbitrary: s)
  case (Cons a peers)
  let ?s = "s\<lparr>s_entries := hm_update a
    (\<lambda>e. e\<lparr>se_want := False, se_pinging := Some now\<rparr>) (s_entries s)\<rparr>"
  from Cons.prems obtain e where e: "hm_get (s_entries s) a = Some e" by auto
  have prems: "distinct peers" "\<forall>n \<in> set peers. hm_get (s_entries ?s) n \<noteq> None"
    using Cons.prems by auto
  note IH = Cons.IH [OF prems]
  have "map (\<lambda>n. (n, se_subject (the (hm_get (s_entries ?s) n)))) peers =
      map (\<lambda>n. (n, se_subject (the (hm_get (s_entries s) n)))) peers"
    using Cons.prems by auto
  with IH e Cons.prems show ?case by (auto simp: Let_def case_prod_unfold)
qed simp

definition due_peer :: "instant \<Rightarrow> ('n, 'p) silence \<Rightarrow> 'n \<Rightarrow> 'p silence_entry \<Rightarrow> bool" where
  "due_peer now s n e \<longleftrightarrow> hm_get (s_entries s) n = Some e \<and>
     ping_due (sat_mul dur_max (s_ping_timeout s) 2) now e"

lemma due_list_spec:
  assumes inv: "silence_inv s"
  shows "(q, n) \<in> set (due_list now maximum s) \<Longrightarrow> \<exists>e. due_peer now s n e \<and> se_seq e = q"
    and "distinct (map snd (due_list now maximum s))"
    and "length (due_list now maximum s) \<le> maximum"
    and "due_peer now s n e \<Longrightarrow> n \<notin> snd ` set (due_list now maximum s) \<Longrightarrow>
      length (due_list now maximum s) = maximum \<and>
      (\<forall>p \<in> set (due_list now maximum s). fst p < se_seq e)"
proof -
  define D where "D = map (\<lambda>(peer, e). (se_seq e, peer))
    (filter (\<lambda>(_, e). ping_due (sat_mul dur_max (s_ping_timeout s) 2) now e) (s_entries s))"
  define L where "L = sort_key fst D"
  have due: "due_list now maximum s = take maximum L"
    by (simp add: due_list_def D_def L_def)
  have ok: "hm_ok (s_entries s)" using inv by (rule sil.inv_ok)
  have mem: "(q, n) \<in> set L \<longleftrightarrow> (\<exists>e. due_peer now s n e \<and> se_seq e = q)" for q n
    using ok by (auto simp: L_def D_def due_peer_def hm_get_Some_iff)
  have "map snd D = map fst (filter (\<lambda>(_, e). ping_due (sat_mul dur_max (s_ping_timeout s) 2) now e)
      (s_entries s))"
    by (auto simp: D_def)
  then have "distinct (map snd D)"
    using ok by (simp add: hm_ok_def distinct_map_filter)
  moreover have "mset (map snd L) = mset (map snd D)"
    by (simp add: L_def)
  ultimately have dist: "distinct (map snd L)"
    by (metis mset_eq_imp_distinct_iff)
  show "(q, n) \<in> set (due_list now maximum s) \<Longrightarrow> \<exists>e. due_peer now s n e \<and> se_seq e = q"
    using mem by (auto simp: due dest: in_set_takeD)
  show "distinct (map snd (due_list now maximum s))"
    using dist by (simp add: due take_map [symmetric])
  show "length (due_list now maximum s) \<le> maximum"
    by (simp add: due)
  assume e: "due_peer now s n e" and out: "n \<notin> snd ` set (due_list now maximum s)"
  then have "(se_seq e, n) \<in> set L" using mem by blast
  then have "(se_seq e, n) \<in> set (take maximum L) \<or> (se_seq e, n) \<in> set (drop maximum L)"
    by (metis Un_iff append_take_drop_id set_append)
  with out have rest: "(se_seq e, n) \<in> set (drop maximum L)"
    by (force simp: due)
  have "sorted (map fst (take maximum L @ drop maximum L))"
    unfolding append_take_drop_id L_def by simp
  have le: "fst p \<le> se_seq e" if "p \<in> set (take maximum L)" for p
  proof -
    have "fst p \<in> set (map fst (take maximum L))" "se_seq e \<in> set (map fst (drop maximum L))"
      using that rest image_eqI [of "se_seq e" fst "(se_seq e, n)"] by auto
    with \<open>sorted (map fst (take maximum L @ drop maximum L))\<close> show ?thesis
      unfolding map_append sorted_append by blast
  qed
  have "fst p \<noteq> se_seq e" if p: "p \<in> set (take maximum L)" for p
  proof
    assume eq: "fst p = se_seq e"
    obtain e' where e': "due_peer now s (snd p) e'" "se_seq e' = fst p"
      using in_set_takeD [OF p] mem [of "fst p" "snd p"] by auto
    have "(n, e) \<in> set (s_entries s)" "(snd p, e') \<in> set (s_entries s)"
      using e e' ok by (auto simp: due_peer_def hm_get_Some_iff)
    moreover have "inj_on (se_seq \<circ> snd) (set (s_entries s))"
      using inv by (simp add: silence_inv_def distinct_map)
    ultimately have "n = snd p"
      using eq e'(2) by (metis comp_apply inj_onD prod.inject snd_conv)
    with out p show False by (auto simp: due)
  qed
  with le have lt: "\<forall>p \<in> set (take maximum L). fst p < se_seq e"
    by (auto simp: order_less_le)
  have "drop maximum L \<noteq> []" using rest by auto
  then have "maximum < length L" by simp
  with lt show "length (due_list now maximum s) = maximum \<and>
      (\<forall>p \<in> set (due_list now maximum s). fst p < se_seq e)"
    by (simp add: due)
qed

text \<open>
  C23: the pings a table hands out are at most as many as asked for, to distinct peers that were due,
  and the oldest first: every due peer left out was inserted later than each one handed out. Handing
  them out marks exactly these as pinging, so none is handed out twice before its ping settles or
  goes stale.
\<close>

theorem due_pings_spec:
  assumes reach: "silence_reach c h pt ops s"
    and due: "silence_due_pings now maximum s = (pings, s')"
  shows "length pings \<le> maximum \<and> distinct (map fst pings) \<and>
    (\<forall>(n, subject) \<in> set pings. \<exists>e. due_peer now s n e \<and> subject = se_subject e \<and>
       hm_get (s_entries s') n = Some (e\<lparr>se_want := False, se_pinging := Some now\<rparr>)) \<and>
    (\<forall>n e. n \<notin> fst ` set pings \<longrightarrow> due_peer now s n e \<longrightarrow> length pings = maximum \<and>
       (\<forall>m \<in> fst ` set pings. se_seq (the (hm_get (s_entries s) m)) < se_seq e)) \<and>
    (\<forall>n. n \<notin> fst ` set pings \<longrightarrow> hm_get (s_entries s') n = hm_get (s_entries s) n)"
proof -
  let ?L = "due_list now maximum s"
  note inv = silence_reach_inv [OF reach]
  have present: "\<forall>n \<in> set (map snd ?L). hm_get (s_entries s) n \<noteq> None"
    using due_list_spec(1) [OF inv] by (fastforce simp: due_peer_def)
  note mark = mark_pings_spec [OF due_list_spec(2) [OF inv] present, where now = now,
      THEN conjunct1]
    mark_pings_spec [OF due_list_spec(2) [OF inv] present, where now = now,
      THEN conjunct2, rule_format]
  have pings: "pings = map (\<lambda>n. (n, se_subject (the (hm_get (s_entries s) n)))) (map snd ?L)"
    and s': "s' = snd (mark_pings now (map snd ?L) s)"
    using due mark(1) by (auto simp: silence_due_pings_def)
  have keys: "map fst pings = map snd ?L" by (simp add: pings comp_def)
  then have key_set: "fst ` set pings = snd ` set ?L" by (metis list.set_map)
  have seq: "se_seq (the (hm_get (s_entries s) (snd p))) = fst p" if "p \<in> set ?L" for p
    using due_list_spec(1) [OF inv, of "fst p" "snd p" now maximum] that by (auto simp: due_peer_def)
  have one: "\<exists>e. due_peer now s n e \<and> subject = se_subject e \<and>
       hm_get (s_entries s') n = Some (e\<lparr>se_want := False, se_pinging := Some now\<rparr>)"
    if "(n, subject) \<in> set pings" for n subject
  proof -
    from that obtain q where q: "(q, n) \<in> set ?L"
      and subject: "subject = se_subject (the (hm_get (s_entries s) n))"
      by (auto simp: pings)
    from due_list_spec(1) [OF inv q] obtain e where e: "due_peer now s n e" by blast
    moreover have "n \<in> set (map snd ?L)" using q by force
    ultimately show ?thesis using subject mark(2) [of n] s' by (auto simp: due_peer_def)
  qed
  have "length pings = length ?L" using keys by (metis length_map)
  then have "length pings = maximum \<and>
      (\<forall>m \<in> fst ` set pings. se_seq (the (hm_get (s_entries s) m)) < se_seq e)"
    if "n \<notin> fst ` set pings" "due_peer now s n e" for n e
    using that due_list_spec(4) [OF inv that(2)] seq unfolding key_set by auto
  moreover have "\<forall>n. n \<notin> fst ` set pings \<longrightarrow> hm_get (s_entries s') n = hm_get (s_entries s) n"
    using mark(2) s' unfolding key_set by auto
  ultimately show ?thesis
    using one due_list_spec(2,3) [OF inv, of now maximum] keys \<open>length pings = length ?L\<close> by auto
qed

theorem due_pings_spec_witness:
  "\<exists>s pings s'. silence_reach 4 10 1 sil_ops s \<and> silence_due_pings 3 1 s = (pings, s') \<and>
     length pings \<le> 1 \<and> pings = [(1, 10)]"
proof -
  define s :: "(nat, nat) silence" where
    "s = snd (silence_apply (S_timed_out 2 20 0 2 1)
               (snd (silence_apply (S_timed_out 1 10 0 1 1) (silence_new 4 10 1))))"
  have s: "silence_reach 4 10 1 sil_ops s"
    unfolding s_def sil_ops_def by (intro reach_op reach_new)
  obtain pings s' where due: "silence_due_pings 3 1 s = (pings, s')" by force
  moreover have "fst (silence_due_pings 3 1 s) = [(1, 10)]"
    by (simp add: s_def silence_new_def silence_timed_out_def silence_min_wait_def Let_def
        silence_make_room_def evict_room_def silence_insert_def hm_insert_def hm_remove_def
        hm_get_def silence_due_pings_def due_list_def ping_due_def pinging_now_def hm_update_def)
  ultimately show ?thesis using s due_pings_spec [OF s due] by auto
qed

subsection \<open>Detours\<close>

definition detours_inv :: "'n detours \<Rightarrow> bool" where
  "detours_inv s \<longleftrightarrow>
     0 < ds_capacity s \<and> hm_ok (ds_entries s) \<and> length (ds_entries s) \<le> ds_capacity s \<and>
     (\<forall>p \<in> set (ds_entries s). 1 \<le> d_level (snd p) \<and> d_level (snd p) \<le> MAX_DETOUR)"

interpretation det: capped_table ds_capacity ds_entries detours_inv detours_make_room detours_insert
  by unfold_locales
    (auto simp: detours_make_room_def detours_insert_def detours_inv_def evict_room_ok
      evict_room_free dest: subsetD [OF evict_room_sub])

lemma detours_inv_remove:
  "detours_inv s \<Longrightarrow> detours_inv (s\<lparr>ds_entries := hm_remove peer (ds_entries s)\<rparr>)"
  using hm.count_del_le [of "ds_entries s" peer]
  by (auto simp: detours_inv_def hm_set_remove)

lemma detours_inv_insert:
  assumes inv: "detours_inv s" and lvl: "d_level e = 1"
  shows "detours_inv (detours_insert peer e (detours_make_room now s))"
proof -
  have "\<forall>p \<in> set (ds_entries (detours_make_room now s)).
      1 \<le> d_level (snd p) \<and> d_level (snd p) \<le> MAX_DETOUR"
    using inv det.room_sub [of now s] by (auto simp: detours_inv_def)
  with inv lvl show ?thesis
    using det.put_room_ok [OF inv, of peer e now] det.put_room_cap [OF inv, of peer e now]
    by (auto simp: detours_inv_def detours_insert_def det.room_cap hm_set_insert MAX_DETOUR_def)
qed

lemma detours_inv_timed_out:
  assumes "detours_inv s"
  shows "detours_inv (detours_timed_out peer sent now s)"
proof -
  have upd: "detours_inv (s\<lparr>ds_entries := hm_update peer
      (\<lambda>e. let e' = (if sent \<ge> d_since e \<and> d_level e < MAX_DETOUR
                      then e\<lparr>d_level := d_level e + 1, d_since := now\<rparr> else e)
            in e'\<lparr>d_last := max (d_last e') now\<rparr>) (ds_entries s)\<rparr>)"
    using assms by (auto simp: detours_inv_def hm_set_update Let_def)
  show ?thesis
    using upd detours_inv_insert [OF detours_inv_remove [OF assms]]
    by (simp add: detours_timed_out_def Let_def split: option.splits)
qed

lemma detours_inv_retain: "detours_inv s \<Longrightarrow> detours_inv (detours_retain keep s)"
  using length_hm_retain [of "\<lambda>n _. keep n" "ds_entries s"]
  by (auto simp: detours_inv_def detours_retain_def hm_set_retain)

inductive detours_reach :: "nat \<Rightarrow> 'n detours \<Rightarrow> bool" for c :: nat where
  dreach_new: "detours_reach c (detours_new c)"
| dreach_timed_out: "detours_reach c s \<Longrightarrow> detours_reach c (detours_timed_out peer sent now s)"
| dreach_retain: "detours_reach c s \<Longrightarrow> detours_reach c (detours_retain keep s)"

lemma detours_inv_new: "detours_inv (detours_new c)"
  by (simp add: detours_inv_def detours_new_def)

lemma detours_reach_inv: "detours_reach c s \<Longrightarrow> detours_inv s"
  by (induction rule: detours_reach.induct)
    (auto simp: detours_inv_timed_out detours_inv_retain detours_inv_new)



subsection \<open>The rank-0 watch: bounds\<close>

definition stamped :: "('k, 'n rank0_entry) hmap \<Rightarrow> ('k \<times> instant) list \<Rightarrow> bool" where
  "stamped entries order \<longleftrightarrow> (\<forall>p \<in> set entries. (fst p, re_last (snd p)) \<in> set order)"

definition watch_inv :: "('k, 'n) rank0_watch \<Rightarrow> bool" where
  "watch_inv w \<longleftrightarrow>
     0 < w_capacity w \<and> hm_ok (w_entries w) \<and> length (w_entries w) \<le> w_capacity w \<and>
     hm_ok (w_silent w) \<and> length (w_silent w) \<le> w_capacity w \<and>
     stamped (w_entries w) (w_order w) \<and>
     (distinct (w_order w) \<longrightarrow> length (w_order w) \<le> 2 * w_capacity w)"

lemma stamp_live_entry:
  "hm_ok entries \<Longrightarrow> p \<in> set entries \<Longrightarrow> stamp_live entries (fst p, re_last (snd p))"
  using hm_get_Some_iff [of entries "fst p" "snd p"] by (simp add: stamp_live_def)

lemma stamp_live_source:
  "stamp_live entries st \<Longrightarrow> \<exists>e. (fst st, e) \<in> set entries \<and> st = (fst st, re_last e)"
  by (cases st) (auto simp: stamp_live_def split: option.splits dest: hm_get_SomeD)

lemma stamped_pop:
  assumes ok: "hm_ok entries" and stamps: "stamped entries (st # order)"
  shows "stamped (if stamp_live entries st then hm_remove (fst st) entries else entries) order"
  unfolding stamped_def
proof
  fix p
  assume p: "p \<in> set (if stamp_live entries st then hm_remove (fst st) entries else entries)"
  then have mem: "p \<in> set entries" by (auto simp: hm_set_remove split: if_splits)
  have "(fst p, re_last (snd p)) \<noteq> st"
    using stamp_live_entry [OF ok mem] p by (auto simp: hm_set_remove)
  with stamps mem show "(fst p, re_last (snd p)) \<in> set order"
    by (auto simp: stamped_def)
qed

lemma watch_evict_spec:
  assumes "hm_ok entries" and "stamped entries order" and "0 < c"
    and "watch_evict c entries order = (entries', order')"
  shows "hm_ok entries' \<and> set entries' \<subseteq> set entries \<and> stamped entries' order' \<and>
    length entries' < c \<and> (\<exists>popped. order = popped @ order')"
  using assms
proof (induction c entries order rule: watch_evict.induct)
  case (1 c entries)
  then show ?case by (cases entries) (auto simp: stamped_def)
next
  case (2 c entries st order)
  show ?case
  proof (cases "length entries < c")
    case True
    with 2 show ?thesis by auto
  next
    case False
    let ?e = "if stamp_live entries st then hm_remove (fst st) entries else entries"
    have "hm_ok ?e" using 2(2) by simp
    from 2(1) [OF False this stamped_pop [OF 2(2,3)] 2(4)] 2(5) False
    have "hm_ok entries' \<and> set entries' \<subseteq> set ?e \<and> stamped entries' order' \<and>
        length entries' < c \<and> (\<exists>popped. order = popped @ order')"
      by simp
    then show ?thesis
      by (auto simp: hm_set_remove split: if_splits intro: exI [of _ "st # _"])
  qed
qed

definition watch_room :: "instant \<Rightarrow> ('k, 'n) rank0_watch \<Rightarrow> ('k, 'n) rank0_watch" where
  "watch_room now w =
     (let (entries, order) = watch_evict (w_capacity w) (w_entries w) (w_order w)
      in w\<lparr>w_entries := entries, w_order := order\<rparr>)"

definition watch_put ::
  "'k \<Rightarrow> 'n rank0_entry \<Rightarrow> ('k, 'n) rank0_watch \<Rightarrow> ('k, 'n) rank0_watch" where
  "watch_put key e w = w\<lparr>w_entries := hm_insert key e (w_entries w)\<rparr>"

lemma watch_insert_eq:
  "watch_insert key e w =
     watch_put key e (watch_room now (w\<lparr>w_entries := hm_remove key (w_entries w)\<rparr>))"
  by (simp add: watch_insert_def watch_put_def watch_room_def case_prod_unfold Let_def)

lemma watch_evict_sub: "set (fst (watch_evict c entries order)) \<subseteq> set entries"
  by (induction c entries order rule: watch_evict.induct) (auto simp: hm_set_remove)

lemma watch_room_spec:
  assumes "watch_inv w"
  shows "hm_ok (w_entries (watch_room now w)) \<and>
    length (w_entries (watch_room now w)) < w_capacity w \<and>
    stamped (w_entries (watch_room now w)) (w_order (watch_room now w)) \<and>
    (\<exists>popped. w_order w = popped @ w_order (watch_room now w))"
  using assms watch_evict_spec [of "w_entries w" "w_order w" "w_capacity w"]
  by (cases "watch_evict (w_capacity w) (w_entries w) (w_order w)")
    (auto simp: watch_inv_def watch_room_def)

interpretation wat: capped_table w_capacity w_entries watch_inv watch_room watch_put
proof unfold_locales
  fix w :: "('a, 'b) rank0_watch" and now
  show "set (w_entries (watch_room now w)) \<subseteq> set (w_entries w)"
    using watch_evict_sub [of "w_capacity w" "w_entries w" "w_order w"]
    by (simp add: watch_room_def case_prod_unfold Let_def)
  show "w_capacity (watch_room now w) = w_capacity w"
    by (simp add: watch_room_def case_prod_unfold Let_def)
  assume inv: "watch_inv w"
  then show "hm_ok (w_entries w)" by (simp add: watch_inv_def)
  show "hm_ok (w_entries (watch_room now w))" "length (w_entries (watch_room now w)) < w_capacity w"
    using watch_room_spec [OF inv] by blast+
qed (simp_all add: watch_put_def)

lemma watch_inv_remove:
  "watch_inv w \<Longrightarrow> watch_inv (w\<lparr>w_entries := hm_remove key (w_entries w)\<rparr>)"
  using hm.count_del_le [of "w_entries w" key]
  by (auto simp: watch_inv_def stamped_def hm_set_remove)

text \<open>
  The state between \<open>insert\<close> or a renewal and the new stamp: everything of the invariant but that the
  renewed entry is stamped, and the queue still has its old bound.
\<close>

definition watch_mid :: "'k \<Rightarrow> instant \<Rightarrow> ('k, 'n) rank0_watch \<Rightarrow> bool" where
  "watch_mid key now w \<longleftrightarrow>
     0 < w_capacity w \<and> hm_ok (w_entries w) \<and> length (w_entries w) \<le> w_capacity w \<and>
     hm_ok (w_silent w) \<and> length (w_silent w) \<le> w_capacity w \<and>
     stamped (w_entries w) (w_order w @ [(key, now)])"

lemma watch_mid_insert:
  assumes inv: "watch_inv w" and e: "re_last e = now"
  shows "watch_mid key now (watch_insert key e w)"
proof -
  let ?r = "watch_room now (w\<lparr>w_entries := hm_remove key (w_entries w)\<rparr>)"
  note inv' = watch_inv_remove [OF inv, of key]
  have "w_capacity ?r = w_capacity w" "w_silent ?r = w_silent w"
    by (simp_all add: watch_room_def case_prod_unfold Let_def)
  moreover have "stamped (w_entries ?r) (w_order ?r)"
    using watch_room_spec [OF inv'] by blast
  then have "stamped (hm_insert key e (w_entries ?r)) (w_order ?r @ [(key, now)])"
    using e by (auto simp: stamped_def hm_set_insert)
  ultimately show ?thesis
    using inv wat.put_room_ok [OF inv', of key e now] wat.put_room_cap [OF inv', of key e now]
    unfolding watch_insert_eq [of key e w now] watch_mid_def
    by (simp add: watch_inv_def watch_put_def)
qed

lemma watch_mid_renew:
  assumes "watch_inv w"
  shows "watch_mid key now
    (w\<lparr>w_entries := hm_update key (\<lambda>e. e\<lparr>re_last := now\<rparr>) (w_entries w)\<rparr>)"
  using assms by (auto simp: watch_inv_def watch_mid_def stamped_def hm_set_update)

lemma watch_mid_confirm:
  assumes "watch_mid key now w"
  shows "watch_mid key now (watch_confirm_silent rank0 t w)"
proof -
  let ?kept = "if length (w_silent w) \<ge> w_capacity w \<and> hm_get (w_silent w) rank0 = None
    then hm_retain (\<lambda>_ at. t - at \<le> w_ttl w) (w_silent w) else w_silent w"
  have kept: "hm_ok ?kept" "length ?kept \<le> w_capacity w"
    using assms length_hm_retain [of "\<lambda>_ at. t - at \<le> w_ttl w" "w_silent w"]
    by (auto simp: watch_mid_def)
  let ?new = "if length ?kept < w_capacity w \<or> hm_get ?kept rank0 \<noteq> None
    then hm_insert rank0 t ?kept else ?kept"
  have new: "hm_ok ?new" "length ?new \<le> w_capacity w"
    using kept hm.count_put_le [OF kept(1), of rank0 t] hm.count_put_old [OF kept(1), of rank0 t]
    by auto
  have "watch_confirm_silent rank0 t w = w\<lparr>w_silent := ?new\<rparr>"
    by (simp only: watch_confirm_silent_def Let_def)
  then show ?thesis using assms new unfolding watch_mid_def by simp
qed

lemma live_stamps_bound:
  assumes "hm_ok entries" and "distinct (filter (stamp_live entries) order)"
  shows "length (filter (stamp_live entries) order) \<le> length entries"
proof -
  let ?f = "\<lambda>p :: 'a \<times> 'b rank0_entry. (fst p, re_last (snd p))"
  have "set (filter (stamp_live entries) order) \<subseteq> ?f ` set entries"
    by (auto dest!: stamp_live_source intro!: image_eqI [where f = ?f])
  then have "card (set (filter (stamp_live entries) order)) \<le> card (?f ` set entries)"
    by (intro card_mono) simp_all
  also have "\<dots> \<le> length entries"
    by (meson card_image_le card_length finite_set order_trans)
  finally show ?thesis using assms(2) by (metis distinct_card)
qed

lemma watch_inv_stamp:
  assumes mid: "watch_mid key now w"
  shows "watch_inv (watch_compact (w\<lparr>w_order := w_order w @ [(key, now)]\<rparr>))"
proof -
  let ?order = "w_order w @ [(key, now)]"
  have ok: "hm_ok (w_entries w)" using mid by (simp add: watch_mid_def)
  have "stamped (w_entries w) (filter (stamp_live (w_entries w)) ?order)"
    using mid stamp_live_entry [OF ok] unfolding watch_mid_def stamped_def set_filter by blast
  moreover have "distinct (filter (stamp_live (w_entries w)) ?order) \<longrightarrow>
      length (filter (stamp_live (w_entries w)) ?order) \<le> 2 * w_capacity w"
    using live_stamps_bound [OF ok, of ?order] mid unfolding watch_mid_def by linarith
  ultimately show ?thesis
    using mid by (auto simp: watch_compact_def watch_mid_def watch_inv_def)
qed

lemma watch_inv_timed_out:
  "watch_inv w \<Longrightarrow> watch_inv (watch_timed_out key rank0 now deadline w)"
  unfolding watch_timed_out_def Let_def
  by (intro watch_inv_stamp)
    (auto intro!: watch_mid_insert watch_mid_confirm watch_mid_renew split: option.splits)

lemma watch_inv_failed: "watch_inv w \<Longrightarrow> watch_inv (watch_failed key rank0 now w)"
  unfolding watch_failed_def Let_def
  by (intro watch_inv_stamp)
    (auto intro!: watch_mid_insert watch_mid_renew split: option.splits)

lemma watch_inv_silent_remove:
  "watch_inv w \<Longrightarrow> watch_inv (w\<lparr>w_silent := hm_remove rank0 (w_silent w)\<rparr>)"
  using hm.count_del_le [of "w_silent w" rank0] by (auto simp: watch_inv_def)

lemma watch_inv_answered: "watch_inv w \<Longrightarrow> watch_inv (watch_answered key rank0 w)"
  using watch_inv_silent_remove [OF watch_inv_remove [of w key], of rank0]
  by (simp add: watch_answered_def)

lemma watch_inv_answered_failure:
  "watch_inv w \<Longrightarrow> watch_inv (watch_answered_failure key rank0 w)"
  using watch_inv_silent_remove [OF watch_inv_remove [of w key], of rank0]
    watch_inv_silent_remove [of w rank0]
  by (auto simp: watch_answered_failure_def split: option.splits)

inductive watch_reach :: "nat \<Rightarrow> duration \<Rightarrow> duration \<Rightarrow> ('k, 'n) rank0_watch \<Rightarrow> bool"
  for c :: nat and ttl :: duration and hang :: duration where
  wreach_new: "watch_reach c ttl hang (watch_new c ttl hang)"
| wreach_timed_out: "watch_reach c ttl hang w \<Longrightarrow>
    watch_reach c ttl hang (watch_timed_out key rank0 now deadline w)"
| wreach_failed: "watch_reach c ttl hang w \<Longrightarrow> watch_reach c ttl hang (watch_failed key rank0 now w)"
| wreach_answered: "watch_reach c ttl hang w \<Longrightarrow> watch_reach c ttl hang (watch_answered key rank0 w)"
| wreach_answered_failure: "watch_reach c ttl hang w \<Longrightarrow>
    watch_reach c ttl hang (watch_answered_failure key rank0 w)"

lemma watch_inv_new: "watch_inv (watch_new c ttl hang)"
  by (simp add: watch_inv_def watch_new_def stamped_def)

text \<open>
  C25: the rank-0 watch stays within its bounds: in every reachable state it holds at most its capacity
  of pages and of silent nodes, every page it holds has its stamp in the eviction queue (so eviction
  always finds room), and the queue holds at most twice the capacity while its stamps are distinct.
\<close>

theorem watch_bounded:
  assumes "watch_reach c ttl hang w"
  shows "length (w_entries w) \<le> w_capacity w \<and> length (w_silent w) \<le> w_capacity w \<and>
    (\<forall>k e. hm_get (w_entries w) k = Some e \<longrightarrow> (k, re_last e) \<in> set (w_order w)) \<and>
    (distinct (w_order w) \<longrightarrow> length (w_order w) \<le> 2 * w_capacity w)"
proof -
  have "watch_inv w"
    using assms
    by (induction rule: watch_reach.induct)
      (simp_all add: watch_inv_new watch_inv_timed_out watch_inv_failed watch_inv_answered
        watch_inv_answered_failure)
  then show ?thesis
    by (auto simp: watch_inv_def stamped_def dest!: hm_get_SomeD)
qed

theorem watch_bounded_witness:
  "\<exists>w :: (nat, nat) rank0_watch. watch_reach 1 60 15 w \<and> map fst (w_entries w) = [2] \<and>
     length (w_entries w) \<le> w_capacity w"
proof -
  define w :: "(nat, nat) rank0_watch" where
    "w = watch_timed_out 2 9 6 8 (watch_timed_out 1 9 5 7 (watch_new 1 60 15))"
  have w: "watch_reach 1 60 15 w"
    unfolding w_def by (intro wreach_timed_out wreach_new)
  have "map fst (w_entries w) = [2]"
    by (simp add: w_def watch_timed_out_def watch_new_def Let_def watch_insert_def watch_compact_def
        hm_insert_def hm_remove_def hm_get_def stamp_live_def)
  with w watch_bounded [OF w] show ?thesis by (intro exI [of _ w]) simp
qed

subsection \<open>The rank-0 watch: a hung rank 0 becomes overdue\<close>

text \<open>Timeouts of the same probe at increasing times, each within the table's memory of the last.\<close>

fun spaced :: "duration \<Rightarrow> instant \<Rightarrow> (instant \<times> instant) list \<Rightarrow> bool" where
  "spaced ttl prev [] = True"
| "spaced ttl prev ((now, deadline) # ts) = (now - prev \<le> ttl \<and> spaced ttl now ts)"

fun last_time :: "instant \<Rightarrow> (instant \<times> instant) list \<Rightarrow> instant" where
  "last_time prev [] = prev"
| "last_time prev ((now, deadline) # ts) = last_time now ts"

lemma watch_params [simp]:
  "w_ttl (watch_compact w) = w_ttl w" "w_entries (watch_compact w) = w_entries w"
  "w_ttl (watch_confirm_silent n t w) = w_ttl w"
  "w_entries (watch_confirm_silent n t w) = w_entries w"
  by (simp_all add: watch_compact_def watch_confirm_silent_def Let_def)

lemma watch_timed_out_live:
  assumes "hm_get (w_entries w) key = Some e" and "re_node e = rank0" and "\<not> re_failed e"
    and "now - re_last e \<le> w_ttl w"
  shows "hm_get (w_entries (watch_timed_out key rank0 now deadline w)) key = Some (e\<lparr>re_last := now\<rparr>)"
    and "w_ttl (watch_timed_out key rank0 now deadline w) = w_ttl w"
  using assms by (simp_all add: watch_timed_out_def Let_def)

lemma watch_timeouts_keep:
  assumes "hm_get (w_entries w) key = Some e" and "re_node e = rank0" and "\<not> re_failed e"
    and "spaced (w_ttl w) (re_last e) ts"
  shows "hm_get (w_entries (fold (\<lambda>(now, deadline). watch_timed_out key rank0 now deadline) ts w)) key =
      Some (e\<lparr>re_last := last_time (re_last e) ts\<rparr>) \<and>
    w_ttl (fold (\<lambda>(now, deadline). watch_timed_out key rank0 now deadline) ts w) = w_ttl w"
  using assms
proof (induction ts arbitrary: w e)
  case (Cons t ts)
  obtain now deadline where t: "t = (now, deadline)" by force
  with Cons.prems(4) have near: "now - re_last e \<le> w_ttl w" and rest: "spaced (w_ttl w) now ts"
    by simp_all
  note live = watch_timed_out_live [OF Cons.prems(1-3) near, of deadline]
  from Cons.IH [OF live(1)] Cons.prems(2,3) rest live(2) t show ?case by simp
qed simp

text \<open>
  C26: repeated timeouts cannot postpone giving up on rank 0. If a probe of a page timed out and the
  page's entry gives rank 0 until \<open>u\<close>, then after any number of further timeouts of that probe, with
  whatever deadlines, rank 0 is overdue from \<open>u\<close> on for as long as the entry is remembered.
\<close>

theorem overdue_not_postponed:
  assumes "hm_get (w_entries w) key = Some e" and "re_node e = rank0" and "\<not> re_failed e"
    and "spaced (w_ttl w) (re_last e) ts"
    and "re_until e \<le> now" and "now - last_time (re_last e) ts \<le> w_ttl w"
  shows "watch_state (fold (\<lambda>(t, deadline). watch_timed_out key rank0 t deadline) ts w) key rank0 now =
    R0_Overdue"
  using watch_timeouts_keep [OF assms(1-4)] assms(2,3,5,6)
  by (auto simp: watch_state_def Let_def)

theorem overdue_not_postponed_witness:
  "watch_state (fold (\<lambda>(t, deadline). watch_timed_out (1::nat) (9::nat) t deadline) [(10, 90), (20, 99)]
      (watch_timed_out 1 9 5 7 (watch_new 4 60 15))) 1 9 20 = R0_Overdue"
proof -
  define w :: "(nat, nat) rank0_watch" where "w = watch_timed_out 1 9 5 7 (watch_new 4 60 15)"
  have get: "hm_get (w_entries w) 1 =
      Some \<lparr>re_node = 9, re_until = 20, re_last = 5, re_failed = False\<rparr>"
    and ttl: "w_ttl w = 60"
    by (simp_all add: w_def watch_timed_out_def watch_new_def Let_def watch_insert_def hm_remove_def)
  show ?thesis
    unfolding w_def [symmetric]
    by (rule overdue_not_postponed [OF get]) (simp_all add: ttl)
qed

text \<open>
  The queue's bound needs distinct stamps: timeouts of one page at one clock reading add a stamp each,
  and compaction keeps them all because each matches the entry.
\<close>

lemma watch_order_unbounded:
  "length (w_order ((watch_timed_out key rank0 now deadline ^^ n) (watch_new c ttl hang))) = n"
proof -
  let ?e = "\<lparr>re_node = rank0, re_until = max deadline (now + hang), re_last = now, re_failed = False\<rparr>"
  have "w_entries ((watch_timed_out key rank0 now deadline ^^ Suc m) (watch_new c ttl hang)) = [(key, ?e)] \<and>
    w_order ((watch_timed_out key rank0 now deadline ^^ Suc m) (watch_new c ttl hang)) =
      replicate (Suc m) (key, now)" for m
  proof (induction m)
    case 0
    then show ?case
      by (simp add: watch_timed_out_def watch_new_def Let_def watch_insert_def watch_compact_def
          hm_remove_def hm_insert_def)
  next
    case (Suc m)
    define w where "w = (watch_timed_out key rank0 now deadline ^^ Suc m) (watch_new c ttl hang)"
    have w: "w_entries w = [(key, ?e)]" "w_order w = replicate (Suc m) (key, now)"
      using Suc by (simp_all add: w_def)
    have order: "w_order (watch_confirm_silent rank0 now v) = w_order v" for v :: "('a, 'b) rank0_watch"
      by (simp add: watch_confirm_silent_def Let_def)
    have "w_entries (watch_timed_out key rank0 now deadline w) = [(key, ?e)] \<and>
        w_order (watch_timed_out key rank0 now deadline w) = replicate (Suc (Suc m)) (key, now)"
      using w by (simp add: watch_timed_out_def Let_def hm_get_def hm_update_def watch_compact_def order
          stamp_live_def replicate_append_same)
    then show ?case by (simp add: w_def)
  qed
  then show ?thesis by (cases n) (simp_all add: watch_new_def)
qed

end
