(* ===== verification/Racer_Walk.thy ===== *)
theory Racer_Walk
  imports Racer_Candidates Racer_Budget Racer_Liveness
begin

unbundle bit_operations_syntax

section \<open>The candidate walk (core/src/read/walk.rs)\<close>

text \<open>
  One epoch of a page acquisition: \<open>CandidateWalk\<close> plans one probe after another over the page's ranked
  owners (for an owner: its predecessors, then handoff targets), funds each from the read's budget and
  collects what the probes showed; \<open>RemainingWalk\<close> asks the later owners after an origin version miss;
  \<open>plan_attempt\<close> fixes the times and credits of one exchange.

  An operation that the source calls with \<open>&mut self\<close> and \<open>&mut budget\<close> returns its result with both new
  states, also when the result is an error. Where the source asserts (a probe is completed before the
  next is planned, and so on) the operation is an option, \<open>None\<close> for the panic. Fixed-capacity lists
  (\<open>List<T, N>\<close>) are lists with the capacity written out; arrays whose unused entries are never read
  (\<open>targets\<close>) are lists of the used ones.
\<close>

subsection \<open>Probes and outcomes\<close>

datatype fetch_mode = CopyOnly | Acquire

datatype route_mode = SharedRoute | FundedRoute | DirectHedge

record continuation =
  ct_primary_consumed :: bool
  ct_primary_outcome :: "probe_outcome option"
  ct_bounded_routes :: bool

definition continuation_default :: continuation where
  "continuation_default =
     \<lparr>ct_primary_consumed = False, ct_primary_outcome = None, ct_bounded_routes = False\<rparr>"

record walk_config =
  wc_rank :: "nat option"
  wc_owners :: nat
  wc_order :: visit_order
  wc_page :: bool
  wc_continuation :: continuation
  wc_handoff :: nat
  wc_previous :: nat
  wc_helper :: bool
  wc_lineage :: "nat list"
  wc_granted :: nat
  wc_parallel :: bool
  wc_rank0 :: rank0_state

definition SUCCESSOR_GRANT_ATTEMPTS :: nat where "SUCCESSOR_GRANT_ATTEMPTS = 1"
definition SUCCESSOR_SHARE_DIVISOR :: nat where "SUCCESSOR_SHARE_DIVISOR = 4"
definition SUCCESSOR_GRANT_LINKS :: nat where "SUCCESSOR_GRANT_LINKS = 8"
definition MAX_HANDOFF :: nat where "MAX_HANDOFF = 3"
definition MAX_LINEAGE :: nat where "MAX_LINEAGE = 6"
definition REPLICAS_BELOW :: nat where "REPLICAS_BELOW = MAX_HANDOFF - 1"
definition MAX_TARGETS :: nat where "MAX_TARGETS = REPLICAS_BELOW + MAX_LINEAGE"
definition FUNDED_MIN_LINKS :: nat where "FUNDED_MIN_LINKS = 2"

definition granted_budget :: "instant \<Rightarrow> budget" where
  "granted_budget deadline = budget_new deadline SUCCESSOR_GRANT_ATTEMPTS SUCCESSOR_GRANT_LINKS"

definition owner_funding_min :: "nat \<Rightarrow> nat" where
  "owner_funding_min canonical = canonical + 2"

definition owner_funding :: "nat \<Rightarrow> nat" where
  "owner_funding canonical = owner_funding_min canonical + (if canonical > 0 then 1 else 0)"

definition funded_links :: "budget \<Rightarrow> nat option" where
  "funded_links b =
     (if b_links b \<ge> MAX_ROUTE_LINKS then Some MAX_ROUTE_LINKS
      else let links = route_links b in if links \<ge> FUNDED_MIN_LINKS then Some links else None)"

definition shared_share_short :: "budget \<Rightarrow> nat \<Rightarrow> nat \<Rightarrow> bool" where
  "shared_share_short b canonical opportunities \<longleftrightarrow>
     canonical > 0 \<and>
     div_ceil (b_attempts b - 1) (max opportunities 1) < owner_funding_min canonical - 1"

subsection \<open>Target lists\<close>

definition list_push :: "nat \<Rightarrow> 'a list \<Rightarrow> 'a \<Rightarrow> 'a list" where
  "list_push capacity xs x = (if length xs \<ge> capacity then xs else xs @ [x])"

definition since_at :: "nat option list \<Rightarrow> nat \<Rightarrow> nat option" where
  "since_at since rank = (if rank < length since then since ! rank else None)"

definition same_rank_previous :: "'n list \<Rightarrow> 'n list \<Rightarrow> nat \<Rightarrow> nat" where
  "same_rank_previous previous current rank =
     fold (\<lambda>c bits. bits OR push_bit c 1)
       (filter (\<lambda>c. c < length previous \<and> previous ! c = current ! c)
         [0..<min (min rank (length current)) 8]) 0"

definition handoff_targets :: "'n list \<Rightarrow> 'n list \<Rightarrow> nat \<Rightarrow> 'n list" where
  "handoff_targets previous current rank =
     (let same = (length previous = length current \<and> list_all (\<lambda>n. n \<in> set current) previous) in
      if same then []
      else let me = (if rank < length current then Some (current ! rank) else None) in
        take MAX_HANDOFF
          (filter (\<lambda>n. Some n \<noteq> me \<and> n \<notin> set (take (min rank (length current)) current)) previous))"

definition lineage_targets :: "'n list \<Rightarrow> nat option list \<Rightarrow> nat \<Rightarrow> 'n list" where
  "lineage_targets owners since rank =
     (case since_at since rank of
        None \<Rightarrow> []
      | Some mine \<Rightarrow>
          take MAX_HANDOFF
            (map fst (filter (\<lambda>(_, s). case s of None \<Rightarrow> False | Some s \<Rightarrow> s < mine)
              (drop (rank + 1) (zip owners since)))))"

definition demoted_targets ::
  "nat option list \<Rightarrow> 'n list \<Rightarrow> nat option list \<Rightarrow> nat \<Rightarrow> nat option \<Rightarrow> 'n list" where
  "demoted_targets since demoted demoted_since rank oldest =
     (case since_at since rank of
        None \<Rightarrow> []
      | Some mine \<Rightarrow>
          let above = (\<lambda>k arrival. length (filter (\<lambda>s. case s of None \<Rightarrow> True | Some s \<Rightarrow> s \<le> arrival)
                                     (since @ take k demoted_since)))
          in take MAX_LINEAGE
               (List.map_filter
                 (\<lambda>(k, n, s). case s of
                    None \<Rightarrow> None
                  | Some arrival \<Rightarrow>
                      if arrival < mine \<and> (oldest = Some arrival \<or> above k arrival < MAX_HANDOFF)
                      then Some n else None)
                 (zip [0..<length (zip demoted demoted_since)] (zip demoted demoted_since))))"

definition granted_prefix :: "'n list \<Rightarrow> 'n list \<Rightarrow> nat" where
  "granted_prefix handoff granted = length (takeWhile (\<lambda>n. n \<in> set granted) handoff)"

definition lineage_counts :: "nat option list \<Rightarrow> nat list" where
  "lineage_counts since =
     map (\<lambda>rank. case since_at since rank of
            None \<Rightarrow> 0
          | Some mine \<Rightarrow>
              min (length (filter (\<lambda>s. case s of None \<Rightarrow> False | Some s \<Rightarrow> s < mine)
                            (drop (rank + 1) since))) MAX_HANDOFF)
       [0..<MAX_HANDOFF]"

fun merge_previous :: "'n list \<Rightarrow> 'n list \<Rightarrow> 'n list" where
  "merge_previous targets [] = targets"
| "merge_previous targets (n # previous) =
     (if length targets \<ge> MAX_HANDOFF then targets
      else merge_previous (if n \<in> set targets then targets else list_push MAX_TARGETS targets n) previous)"

definition merge_handoff :: "'n list \<Rightarrow> 'n list \<Rightarrow> 'n list" where
  "merge_handoff previous lineage = merge_previous (take MAX_LINEAGE lineage) previous"

record probe =
  pr_index :: nat
  pr_canonical :: nat
  pr_mode :: fetch_mode
  pr_opportunities :: nat
  pr_route :: route_mode
  pr_previous :: bool

datatype outcome =
    Out_Copy
  | Out_Probe probe_outcome
  | Out_Transport probe_outcome
  | Out_StaleMembership
  | Out_StaleDestination
  | Out_Shed
  | Out_TimedOut
  | Out_Failed

datatype walk_end =
    End_Copy
  | End_StaleMembership
  | End_Origin nat "probe_outcome list"
  | End_VersionUnavailable
  | End_Exhausted bool

datatype walk_step =
    Step_Probe probe
  | Step_Granted "probe list"
  | Step_End walk_end

datatype helper_state = H_Unset | H_Off | H_Armed | H_Due | H_Used

record pending =
  pd_bounded :: "budget option"
  pd_handoff :: bool
  pd_delegated :: bool
  pd_rank0 :: bool
  pd_previous :: bool
  pd_helper :: bool
  pd_granted :: bool

record walk =
  wk_config :: walk_config
  wk_order :: visit_order
  wk_targets :: "nat list"
  wk_count :: nat
  wk_batch :: nat
  wk_index :: nat
  wk_evidence :: "probe_outcome list"
  wk_saw_transient :: bool
  wk_saw_version :: bool
  wk_funding :: bool
  wk_pending :: "pending option"
  wk_done :: bool
  wk_helper :: helper_state
  wk_rank0_unanswered :: bool
  wk_saw_busy :: bool

subsection \<open>Starting a walk\<close>

definition walk_new :: "walk_config \<Rightarrow> walk" where
  "walk_new config =
     (let targets = (case wc_rank config of
                       None \<Rightarrow> []
                     | Some rank \<Rightarrow>
                         [0..<min rank 2] @
                         (if wc_page config
                          then map (\<lambda>i. wc_owners config + i) [0..<min (wc_handoff config) MAX_TARGETS]
                          else []))
      in \<lparr>wk_config = config,
          wk_order = (case wc_rank config of
                        None \<Rightarrow> wc_order config | Some rank \<Rightarrow> canonical_order (min rank 2)),
          wk_targets = targets,
          wk_count = (case wc_rank config of None \<Rightarrow> wc_owners config | Some _ \<Rightarrow> length targets),
          wk_batch = 0, wk_index = 0, wk_evidence = [], wk_saw_transient = False,
          wk_saw_version = False, wk_funding = False, wk_pending = None, wk_done = False,
          wk_helper = H_Unset, wk_rank0_unanswered = False, wk_saw_busy = False\<rparr>)"

definition walk_start :: "walk \<Rightarrow> budget \<Rightarrow> walk" where
  "walk_start w b =
     (let c = wk_config w;
          eligible = (wc_helper c \<and> wc_rank c = None \<and> wc_page c \<and> b_attempts b \<ge> HELPER_MIN_ATTEMPTS);
          w1 = w\<lparr>wk_helper := (if eligible then H_Armed else H_Off)\<rparr>
      in if wc_rank c = None \<and> \<not> ct_bounded_routes (wc_continuation c) \<and>
            \<not> ct_primary_consumed (wc_continuation c) \<and>
            (case order_get (wk_order w) 0 of
               None \<Rightarrow> False
             | Some first \<Rightarrow> first > 0 \<and> b_attempts b < owner_funding_min first)
         then w1\<lparr>wk_order := canonical_order (length (order_ranks (wk_order w)))\<rparr>
         else w1)"

definition helper_probe :: "walk \<Rightarrow> budget \<Rightarrow> walk_step res \<times> walk \<times> budget" where
  "helper_probe w b =
     (let attempts = min (b_attempts b) HELPER_ATTEMPTS;
          links = min (b_links b) HELPER_LINKS
      in case budget_partition b attempts links of
           Inl e \<Rightarrow> (Inl e, w, b)
         | Inr (child, parent) \<Rightarrow>
             (Inr (Step_Probe \<lparr>pr_index = wk_index w, pr_canonical = wc_owners (wk_config w),
                               pr_mode = Acquire,
                               pr_opportunities = (wk_count w - wk_index w) + 1,
                               pr_route = FundedRoute, pr_previous = False\<rparr>),
              w\<lparr>wk_pending := Some \<lparr>pd_bounded = Some (note_route_failure child), pd_handoff = True,
                                    pd_delegated = False, pd_rank0 = False, pd_previous = False,
                                    pd_helper = True, pd_granted = False\<rparr>\<rparr>,
              parent))"

definition walk_target :: "walk \<Rightarrow> nat \<Rightarrow> nat option" where
  "walk_target w index =
     (if wc_rank (wk_config w) \<noteq> None
      then if index < wk_count w then Some (wk_targets w ! index) else None
      else order_get (wk_order w) index)"

definition later_minimum :: "walk \<Rightarrow> nat \<Rightarrow> nat" where
  "later_minimum w index =
     sum_list (map (\<lambda>(_, c). owner_funding_min c)
       (filter (\<lambda>(later, c). c > later \<or> ct_bounded_routes (wc_continuation (wk_config w)))
         (List.map_filter (\<lambda>later. map_option (\<lambda>c. (later, c)) (walk_target w later))
           [index + 1..<wk_count w])))"

definition later_reserve :: "walk \<Rightarrow> nat \<Rightarrow> nat" where
  "later_reserve w index =
     sum_list (map owner_funding_min (List.map_filter (walk_target w) [index + 1..<wk_count w]))"

definition transient :: "probe_outcome \<Rightarrow> bool" where
  "transient outcome \<longleftrightarrow>
     outcome = Unreachable \<or> outcome = OutcomeOverloaded \<or> outcome = UnusableCopy"

definition walk_finish :: "walk \<Rightarrow> walk_end" where
  "walk_finish w =
     (case wc_rank (wk_config w) of
        Some rank \<Rightarrow>
          if wk_rank0_unanswered w then End_Exhausted False else End_Origin rank (wk_evidence w)
      | None \<Rightarrow>
          if wk_saw_version w \<and> \<not> wk_saw_transient w then End_VersionUnavailable
          else End_Exhausted (wk_funding w))"

subsection \<open>Planning the next probe\<close>

text \<open>The indices of the run of granted targets from the current one on.\<close>

definition granted_target :: "walk \<Rightarrow> nat \<Rightarrow> bool" where
  "granted_target w i =
     (case walk_target w i of
        None \<Rightarrow> False
      | Some c \<Rightarrow> c \<ge> wc_owners (wk_config w) \<and>
                  c - wc_owners (wk_config w) < wc_granted (wk_config w))"

definition granted_run :: "walk \<Rightarrow> nat list" where
  "granted_run w =
     takeWhile (granted_target w) [wk_index w..<max (wk_count w) (vo_len (wk_order w))]"

definition granted_probes :: "walk \<Rightarrow> probe list" where
  "granted_probes w =
     map (\<lambda>i. \<lparr>pr_index = i, pr_canonical = the (walk_target w i), pr_mode = CopyOnly,
                pr_opportunities = wk_count w - wk_index w + 1 + SUCCESSOR_SHARE_DIVISOR,
                pr_route = FundedRoute, pr_previous = False\<rparr>)
       (granted_run w)"

text \<open>
  How the probe is funded: an error of \<open>partition\<close>, too little left for a bounded probe (the walk
  breaks off), a child budget with the parent that funded it, or the caller's own budget.
\<close>

datatype bound_plan = Bound_Err error | Bound_Short | Bound_Child budget budget | Bound_None

definition partition_plan :: "budget \<Rightarrow> nat \<Rightarrow> nat \<Rightarrow> bound_plan" where
  "partition_plan b attempts links =
     (case budget_partition b attempts links of
        Inl e \<Rightarrow> Bound_Err e
      | Inr (child, parent) \<Rightarrow> Bound_Child child parent)"

text \<open>Links of a probe that decides whether rank 0 fetches; later predecessors keep one each.\<close>

definition rank0_links :: "budget \<Rightarrow> nat \<Rightarrow> nat" where
  "rank0_links b sharing = max (min (route_links b) (b_links b - (sharing - 1))) 1"

definition walk_sharing :: "walk \<Rightarrow> bool \<Rightarrow> nat" where
  "walk_sharing w handoff =
     (if handoff then 1
      else max ((case wc_rank (wk_config w) of None \<Rightarrow> wk_count w | Some rank \<Rightarrow> min rank 2)
                - wk_index w) 1)"

definition bounded_attempts :: "walk \<Rightarrow> budget \<Rightarrow> nat \<Rightarrow> nat \<Rightarrow> nat" where
  "bounded_attempts w b canonical owner_attempts =
     (let c = wk_config w;
          lineage = (if canonical < length (wc_lineage c) then wc_lineage c ! canonical else 0) +
                    (if canonical > 0 then wc_lineage c ! 0 else 0)
      in if wc_rank c \<noteq> None then owner_attempts
         else if lineage > 0 \<and>
                 b_attempts b \<ge> owner_funding canonical + lineage + later_reserve w (wk_index w)
         then owner_funding canonical + lineage
         else if b_attempts b \<ge> owner_funding canonical + later_minimum w (wk_index w)
         then owner_funding canonical
         else owner_funding_min canonical)"

definition bounded_links :: "walk \<Rightarrow> budget \<Rightarrow> nat" where
  "bounded_links w b =
     (if wc_rank (wk_config w) \<noteq> None then 4
      else if ct_bounded_routes (wc_continuation (wk_config w)) then MAX_ROUTE_LINKS
      else case funded_links b of None \<Rightarrow> MAX_ROUTE_LINKS | Some links \<Rightarrow> links)"

definition walk_bounded ::
  "walk \<Rightarrow> budget \<Rightarrow> nat \<Rightarrow> bool \<Rightarrow> bool \<Rightarrow> bool \<Rightarrow> nat \<Rightarrow> bound_plan" where
  "walk_bounded w b canonical handoff delegated copy_only owner_attempts =
     (let c = wk_config w; rank = wc_rank c; cont = wc_continuation c;
          sharing = walk_sharing w handoff in
      if delegated then partition_plan b owner_attempts (rank0_links b sharing)
      else if rank \<noteq> None \<and> b_links b < sharing * route_links b
      then partition_plan b owner_attempts
             (if canonical = 0 \<and> \<not> handoff \<and> wc_page c then rank0_links b sharing
              else min (b_links b div sharing) 4)
      else if ct_bounded_routes cont \<or>
              (rank = None \<and> \<not> copy_only \<and>
               (canonical > wk_index w \<or>
                (shared_share_short b canonical (wk_count w - wk_index w) \<and> \<not> wk_saw_busy w)) \<and>
               b_attempts b \<ge> owner_funding_min canonical \<and> funded_links b \<noteq> None)
      then let attempts = bounded_attempts w b canonical owner_attempts;
               links = bounded_links w b
           in if b_attempts b < attempts \<or> b_links b < links then Bound_Short
              else case partition_plan b attempts links of
                     Bound_Child child parent \<Rightarrow>
                       Bound_Child (if rank = None then note_route_failure child else child) parent
                   | plan \<Rightarrow> plan
      else Bound_None)"

datatype walk_iter_result = It_Continue | It_Break | It_Return "walk_step res"

definition walk_left :: "walk \<Rightarrow> nat" where
  "walk_left w =
     (case wc_rank (wk_config w) of None \<Rightarrow> 0 | Some rank \<Rightarrow> min rank 2 - wk_index w)"

definition walk_delegated :: "walk \<Rightarrow> budget \<Rightarrow> nat \<Rightarrow> bool" where
  "walk_delegated w b canonical \<longleftrightarrow>
     (case wc_rank (wk_config w) of None \<Rightarrow> False | Some rank \<Rightarrow> rank > 0) \<and> canonical = 0 \<and>
     wc_page (wk_config w) \<and> b_attempts b \<ge> walk_left w + 2 \<and> b_links b \<ge> walk_left w"

text \<open>The ordinary probe of one iteration, once the special cases are out of the way.\<close>

definition probe_previous :: "walk \<Rightarrow> nat \<Rightarrow> bool" where
  "probe_previous w canonical \<longleftrightarrow>
     \<not> canonical \<ge> wc_owners (wk_config w) \<and> wc_rank (wk_config w) \<noteq> None \<and>
     wc_page (wk_config w) \<and> canonical < 8 \<and> bit (wc_previous (wk_config w)) canonical"

definition probe_copy_only :: "walk \<Rightarrow> budget \<Rightarrow> nat \<Rightarrow> bool" where
  "probe_copy_only w b canonical \<longleftrightarrow>
     (wc_rank (wk_config w) \<noteq> None \<and> \<not> walk_delegated w b canonical) \<or>
     (\<not> ct_bounded_routes (wc_continuation (wk_config w)) \<and> b_attempts b = 1 \<and>
      wc_page (wk_config w))"

definition owner_attempts :: "walk \<Rightarrow> budget \<Rightarrow> nat \<Rightarrow> nat" where
  "owner_attempts w b canonical =
     (let c = wk_config w;
          delegated = walk_delegated w b canonical;
          spare_for = (if wc_handoff c > 0 then MAX_HANDOFF else wc_lineage c ! 0);
          spare = (if delegated \<and> spare_for > 0
                   then min (b_attempts b - (walk_left w + 2)) spare_for else 0)
      in 1 + (if delegated then 1 else 0) + spare)"

definition planned_probe :: "walk \<Rightarrow> budget \<Rightarrow> nat \<Rightarrow> budget option \<Rightarrow> probe" where
  "planned_probe w b canonical bounded =
     (let rank = wc_rank (wk_config w);
          funded = (ct_bounded_routes (wc_continuation (wk_config w)) \<or>
                    walk_delegated w b canonical \<or> (rank = None \<and> bounded \<noteq> None))
      in \<lparr>pr_index = wk_index w, pr_canonical = canonical,
          pr_mode = (if probe_copy_only w b canonical then CopyOnly else Acquire),
          pr_opportunities = wk_count w - wk_index w + (if rank \<noteq> None then 1 else 0),
          pr_route = (if funded then FundedRoute else SharedRoute),
          pr_previous = probe_previous w canonical\<rparr>)"

definition planned_pending :: "walk \<Rightarrow> budget \<Rightarrow> nat \<Rightarrow> budget option \<Rightarrow> pending" where
  "planned_pending w b canonical bounded =
     (let handoff = (canonical \<ge> wc_owners (wk_config w)) in
      \<lparr>pd_bounded = bounded, pd_handoff = handoff, pd_delegated = walk_delegated w b canonical,
       pd_rank0 = (wc_rank (wk_config w) \<noteq> None \<and> canonical = 0 \<and> \<not> handoff \<and>
                   wc_page (wk_config w)),
       pd_previous = probe_previous w canonical, pd_helper = False, pd_granted = False\<rparr>)"

definition walk_probe :: "walk \<Rightarrow> budget \<Rightarrow> nat \<Rightarrow> walk_iter_result \<times> walk \<times> budget" where
  "walk_probe w b canonical =
     (let issue = (\<lambda>bounded b'.
            (It_Return (Inr (Step_Probe (planned_probe w b canonical bounded))),
             w\<lparr>wk_pending := Some (planned_pending w b canonical bounded)\<rparr>, b'))
      in case walk_bounded w b canonical (canonical \<ge> wc_owners (wk_config w))
                (walk_delegated w b canonical) (probe_copy_only w b canonical)
                (owner_attempts w b canonical) of
           Bound_Err e \<Rightarrow> (It_Return (Inl e), w, b)
         | Bound_Short \<Rightarrow> (It_Break, w\<lparr>wk_saw_transient := True, wk_funding := True\<rparr>, b)
         | Bound_Child child parent \<Rightarrow> issue (Some child) parent
         | Bound_None \<Rightarrow> issue None b)"

text \<open>One iteration of the loop of \<open>next\<close> for the target at the current index.\<close>

definition walk_iter :: "walk \<Rightarrow> budget \<Rightarrow> nat \<Rightarrow> walk_iter_result \<times> walk \<times> budget" where
  "walk_iter w b canonical =
     (let c = wk_config w; cont = wc_continuation c; index = wk_index w;
          handoff = (canonical \<ge> wc_owners c);
          granted = (handoff \<and> canonical - wc_owners c < wc_granted c) in
      if granted \<and> wc_parallel c
      then (It_Return (Inr (Step_Granted (granted_probes w))),
            w\<lparr>wk_index := index + length (granted_run w), wk_batch := length (granted_run w)\<rparr>, b)
      else if granted
      then (It_Return (Inr (Step_Probe
              \<lparr>pr_index = index, pr_canonical = canonical, pr_mode = CopyOnly,
               pr_opportunities = wk_count w - index + 1 + SUCCESSOR_SHARE_DIVISOR,
               pr_route = FundedRoute, pr_previous = False\<rparr>)),
            w\<lparr>wk_pending := Some
                \<lparr>pd_bounded = Some (budget_new (b_deadline b) SUCCESSOR_GRANT_ATTEMPTS
                                     SUCCESSOR_GRANT_LINKS),
                 pd_handoff = True, pd_delegated = False, pd_rank0 = False, pd_previous = False,
                 pd_helper = False, pd_granted = True\<rparr>\<rparr>, b)
      else if handoff \<and> (b_attempts b < 2 \<or> b_links b = 0) then (It_Break, w, b)
      else if ct_primary_consumed cont \<and> index = 0
      then let outcome = (case ct_primary_outcome cont of None \<Rightarrow> Unreachable | Some x \<Rightarrow> x) in
           (It_Continue,
            w\<lparr>wk_saw_version := wk_saw_version w \<or> outcome = OutcomeVersionUnavailable,
              wk_saw_transient := wk_saw_transient w \<or> transient outcome,
              wk_index := index + 1\<rparr>, b)
      else walk_probe w b canonical)"

definition walk_stop :: "walk \<Rightarrow> budget \<Rightarrow> walk_step res \<times> walk \<times> budget" where
  "walk_stop w b =
     (let w1 = w\<lparr>wk_done := True\<rparr>;
          taken = (if wc_rank (wk_config w) \<noteq> None \<and> \<not> wk_rank0_unanswered w
                   then w1\<lparr>wk_evidence := []\<rparr> else w1)
      in (Inr (Step_End (walk_finish w1)), taken, b))"

lemma walk_iter_continue:
  "walk_iter w b canonical = (It_Continue, w', b') \<Longrightarrow> wk_index w = 0 \<and> wk_index w' = 1"
  by (auto simp: walk_iter_def walk_probe_def Let_def split: if_splits bound_plan.splits)

function walk_loop :: "walk \<Rightarrow> budget \<Rightarrow> walk_step res \<times> walk \<times> budget" where
  "walk_loop w b =
     (case walk_target w (wk_index w) of
        None \<Rightarrow> walk_stop w b
      | Some canonical \<Rightarrow>
          (case walk_iter w b canonical of
             (It_Continue, w', b') \<Rightarrow> walk_loop w' b'
           | (It_Break, w', b') \<Rightarrow> walk_stop w' b'
           | (It_Return r, w', b') \<Rightarrow> (r, w', b')))"
  by pat_completeness auto
termination
  by (relation "measure (\<lambda>(w, b). 1 - wk_index w)") (auto dest: walk_iter_continue [OF sym])

declare walk_loop.simps [simp del]

definition walk_next :: "walk \<Rightarrow> budget \<Rightarrow> (walk_step res \<times> walk \<times> budget) option" where
  "walk_next w b =
     (if wk_pending w \<noteq> None \<or> wk_batch w \<noteq> 0 \<or> wk_done w then None
      else
        let w1 = (if wk_helper w = H_Unset then walk_start w b else w) in
        if wk_helper w1 = H_Due
        then let w2 = w1\<lparr>wk_helper := H_Used\<rparr> in
             if b_attempts b \<ge> HELPER_FLOOR_ATTEMPTS \<and> b_links b \<ge> HELPER_FLOOR_LINKS
             then Some (helper_probe w2 b)
             else Some (walk_loop w2 b)
        else Some (walk_loop w1 b))"

subsection \<open>Recording outcomes\<close>

text \<open>\<open>request_budget\<close>: the budget the pending probe spends, as a pair of reading and writing it.\<close>

definition walk_request_budget :: "walk \<Rightarrow> budget \<Rightarrow> budget" where
  "walk_request_budget w b =
     (case wk_pending w of
        Some p \<Rightarrow> (case pd_bounded p of Some child \<Rightarrow> child | None \<Rightarrow> b)
      | None \<Rightarrow> b)"

definition walk_set_request_budget :: "walk \<Rightarrow> budget \<Rightarrow> budget \<Rightarrow> walk \<times> budget" where
  "walk_set_request_budget w b spent =
     (case wk_pending w of
        Some p \<Rightarrow> (case pd_bounded p of
                     Some _ \<Rightarrow> (w\<lparr>wk_pending := Some (p\<lparr>pd_bounded := Some spent\<rparr>)\<rparr>, b)
                   | None \<Rightarrow> (w, spent))
      | None \<Rightarrow> (w, spent))"

definition walk_complete_granted :: "walk \<Rightarrow> bool \<Rightarrow> (walk_end option \<times> walk) option" where
  "walk_complete_granted w copy =
     (if wk_batch w = 0 then None
      else if copy then Some (Some End_Copy, w\<lparr>wk_batch := 0, wk_done := True\<rparr>)
      else Some (None, w\<lparr>wk_batch := 0\<rparr>))"

text \<open>Return the credits of a child budget that is not a grant.\<close>

definition reunite_pending :: "pending \<Rightarrow> budget \<Rightarrow> budget res" where
  "reunite_pending p b =
     (case pd_bounded p of
        Some child \<Rightarrow> if pd_granted p then Inr b else reunite b child
      | None \<Rightarrow> Inr b)"

definition walk_abandon :: "walk \<Rightarrow> budget \<Rightarrow> unit res \<times> walk \<times> budget" where
  "walk_abandon w b =
     (let w1 = w\<lparr>wk_done := True, wk_batch := 0, wk_pending := None\<rparr> in
      case wk_pending w of
        None \<Rightarrow> (Inr (), w1, b)
      | Some p \<Rightarrow> (case reunite_pending p b of
                     Inl e \<Rightarrow> (Inl e, w1, b)
                   | Inr b' \<Rightarrow> (Inr (), w1, b')))"

definition walk_retry_pending :: "walk \<Rightarrow> budget \<Rightarrow> unit res \<times> walk \<times> budget" where
  "walk_retry_pending w b =
     (let w1 = w\<lparr>wk_pending := None\<rparr> in
      case wk_pending w of
        None \<Rightarrow> (Inr (), w1, b)
      | Some p \<Rightarrow> (case pd_bounded p of
                     None \<Rightarrow> (Inr (), w1, b)
                   | Some child \<Rightarrow> (case reunite b child of
                                      Inl e \<Rightarrow> (Inl e, w1, b)
                                    | Inr b' \<Rightarrow> (Inr (), w1, b'))))"

definition walk_retry_affordable :: "walk \<Rightarrow> budget \<Rightarrow> bool" where
  "walk_retry_affordable w b =
     (let (attempts, links, route) =
            (case wk_pending w of
               Some p \<Rightarrow> (case pd_bounded p of
                            Some child \<Rightarrow>
                              if pd_granted p then (0, 0, 0)
                              else (b_attempts child, b_links child, route_links child)
                          | None \<Rightarrow> (0, 0, 0))
             | None \<Rightarrow> (0, 0, 0));
          attempts' = sat_add u32_max (b_attempts b) attempts;
          links' = b_links b + links;
          later = length (filter (\<lambda>i. walk_target w i \<noteq> None) [wk_index w + 1..<wk_count w]);
          need = 1 + (case walk_target w (wk_index w) of None \<Rightarrow> 0 | Some c \<Rightarrow> owner_funding_min c) +
                 later_reserve w (wk_index w);
          route' = max (max route (route_links b)) 1
      in attempts' \<ge> need \<and> links' \<ge> route' * (1 + later))"

text \<open>Timeouts and rank-0 failures are turned into ordinary outcomes first.\<close>

definition walk_normalize :: "walk \<Rightarrow> pending \<Rightarrow> outcome \<Rightarrow> walk \<times> outcome" where
  "walk_normalize w p out =
     (case out of
        Out_TimedOut \<Rightarrow>
          (w\<lparr>wk_saw_busy := wk_saw_busy w \<or> (\<not> pd_helper p \<and> \<not> pd_handoff p),
             wk_rank0_unanswered := wk_rank0_unanswered w \<or>
               (pd_rank0 p \<and> wc_rank0 (wk_config w) \<noteq> R0_Overdue)\<rparr>,
           Out_Transport Unreachable)
      | Out_Failed \<Rightarrow>
          (w\<lparr>wk_rank0_unanswered := wk_rank0_unanswered w \<or>
               (pd_rank0 p \<and> wc_rank0 (wk_config w) = R0_Failed)\<rparr>,
           Out_Probe Unreachable)
      | _ \<Rightarrow> (w, out))"

definition walk_note_overload :: "walk \<Rightarrow> pending \<Rightarrow> outcome \<Rightarrow> walk" where
  "walk_note_overload w p out =
     (if \<not> pd_helper p \<and> \<not> pd_handoff p \<and>
         (out = Out_Probe OutcomeOverloaded \<or> out = Out_Transport OutcomeOverloaded)
      then w\<lparr>wk_saw_busy := True,
             wk_rank0_unanswered := wk_rank0_unanswered w \<or>
               (pd_rank0 p \<and> wc_rank0 (wk_config w) \<noteq> R0_Overdue)\<rparr>
      else w)"

definition route_failed :: "probe_outcome \<Rightarrow> bool" where
  "route_failed x \<longleftrightarrow> x = Unreachable \<or> x = OutcomeOverloaded"

definition walk_helper_outcome ::
  "walk \<Rightarrow> budget \<Rightarrow> outcome \<Rightarrow> walk_end option res \<times> walk \<times> budget" where
  "walk_helper_outcome w b out =
     (case out of
        Out_Copy \<Rightarrow> (Inr (Some End_Copy), w\<lparr>wk_done := True\<rparr>, b)
      | Out_Probe x \<Rightarrow> (Inr None, w, if route_failed x then note_route_failure b else b)
      | Out_Transport x \<Rightarrow> (Inr None, w, if route_failed x then note_route_failure b else b)
      | _ \<Rightarrow> (Inr None, w, b))"

definition push_evidence :: "probe_outcome \<Rightarrow> walk \<Rightarrow> walk" where
  "push_evidence x w = w\<lparr>wk_evidence := wk_evidence w @ [x]\<rparr>"

fun plain_outcome :: "outcome \<Rightarrow> bool" where
  "plain_outcome (Out_Probe _) = True"
| "plain_outcome (Out_Transport _) = True"
| "plain_outcome _ = False"

definition walk_owner_outcome ::
  "walk \<Rightarrow> budget \<Rightarrow> pending \<Rightarrow> outcome \<Rightarrow> walk_end option res \<times> walk \<times> budget" where
  "walk_owner_outcome w b p out =
     (if out = Out_Probe OutcomeVersionUnavailable \<and> pd_delegated p
      then (Inr (Some End_VersionUnavailable), w\<lparr>wk_done := True\<rparr>, b)
      else if pd_handoff p \<and> (out = Out_StaleMembership \<or> out = Out_StaleDestination \<or> out = Out_Shed)
      then (Inr None, w, b)
      else if pd_handoff p \<and> plain_outcome out
      then (Inr None, w,
            (case out of
               Out_Probe x \<Rightarrow> if \<not> pd_granted p \<and> route_failed x then note_route_failure b else b
             | Out_Transport x \<Rightarrow> if \<not> pd_granted p \<and> route_failed x then note_route_failure b else b
             | _ \<Rightarrow> b))
      else if pd_previous p \<and> (out = Out_StaleDestination \<or> out = Out_StaleMembership)
      then (Inr None, push_evidence Unreachable (w\<lparr>wk_saw_transient := True\<rparr>), b)
      else case out of
             Out_Copy \<Rightarrow> (Inr (Some End_Copy), w\<lparr>wk_done := True\<rparr>, b)
           | Out_StaleMembership \<Rightarrow> (Inr (Some End_StaleMembership), w\<lparr>wk_done := True\<rparr>, b)
           | Out_StaleDestination \<Rightarrow>
               (Inr None, push_evidence Unreachable (w\<lparr>wk_saw_transient := True\<rparr>), b)
           | Out_Shed \<Rightarrow>
               (Inr None,
                push_evidence OutcomeOverloaded (w\<lparr>wk_saw_busy := True, wk_saw_transient := True\<rparr>), b)
           | Out_TimedOut \<Rightarrow> (Inr None, w, b)
           | Out_Failed \<Rightarrow> (Inr None, w, b)
           | Out_Probe x \<Rightarrow>
               (Inr None,
                push_evidence x
                  (w\<lparr>wk_saw_version := wk_saw_version w \<or> x = OutcomeVersionUnavailable,
                     wk_saw_transient := wk_saw_transient w \<or> transient x\<rparr>),
                if route_failed x then note_route_failure b else b)
           | Out_Transport x \<Rightarrow>
               (Inr None,
                push_evidence x
                  (w\<lparr>wk_saw_version := wk_saw_version w \<or> x = OutcomeVersionUnavailable,
                     wk_saw_transient := wk_saw_transient w \<or> transient x\<rparr>),
                if route_failed x then note_route_failure b else b))"

definition walk_complete ::
  "walk \<Rightarrow> budget \<Rightarrow> outcome \<Rightarrow> (walk_end option res \<times> walk \<times> budget) option" where
  "walk_complete w b outcome =
     (case wk_pending w of
        None \<Rightarrow> None
      | Some p \<Rightarrow>
          let w0 = w\<lparr>wk_pending := None\<rparr> in
          Some (case reunite_pending p b of
                  Inl e \<Rightarrow> (Inl e, w0, b)
                | Inr b1 \<Rightarrow>
                    let (w1, out) = walk_normalize w0 p outcome;
                        w2 = walk_note_overload w1 p out
                    in if pd_helper p then walk_helper_outcome w2 b1 out
                       else let w3 = w2\<lparr>wk_index := wk_index w2 + 1\<rparr>;
                                w4 = (if wk_helper w3 = H_Armed \<and> out = Out_Shed
                                      then w3\<lparr>wk_helper := H_Due\<rparr> else w3)
                            in walk_owner_outcome w4 b1 p out))"

subsection \<open>The remaining walk\<close>

record remaining_walk =
  rw_owners :: nat
  rw_index :: nat
  rw_transient :: bool
  rw_pending :: bool

datatype remaining_end = Rem_Copy | Rem_None | Rem_Unavailable

definition remaining_new :: "nat \<Rightarrow> nat \<Rightarrow> remaining_walk" where
  "remaining_new rank owners =
     \<lparr>rw_owners = owners, rw_index = rank + 1, rw_transient = False, rw_pending = False\<rparr>"

definition remaining_next :: "remaining_walk \<Rightarrow> ((remaining_end + probe) \<times> remaining_walk) option" where
  "remaining_next r =
     (if rw_pending r then None
      else if rw_index r \<ge> rw_owners r
      then Some (Inl (if rw_transient r then Rem_Unavailable else Rem_None), r)
      else Some (Inr \<lparr>pr_index = rw_index r, pr_canonical = rw_index r, pr_mode = CopyOnly,
                      pr_opportunities = rw_owners r - rw_index r, pr_route = SharedRoute,
                      pr_previous = False\<rparr>,
                 r\<lparr>rw_pending := True\<rparr>))"

definition remaining_complete ::
  "remaining_walk \<Rightarrow> budget \<Rightarrow> outcome \<Rightarrow> (remaining_end option \<times> remaining_walk \<times> budget) option" where
  "remaining_complete r b out =
     (if \<not> rw_pending r then None
      else let r1 = r\<lparr>rw_pending := False, rw_index := rw_index r + 1\<rparr> in
        Some (case out of
                Out_Copy \<Rightarrow> (Some Rem_Copy, r1, b)
              | Out_Probe x \<Rightarrow> (None, r1\<lparr>rw_transient := rw_transient r1 \<or> transient x\<rparr>, b)
              | Out_Shed \<Rightarrow> (None, r1\<lparr>rw_transient := True\<rparr>, b)
              | Out_Failed \<Rightarrow> (None, r1\<lparr>rw_transient := True\<rparr>, b)
              | Out_Transport _ \<Rightarrow> (None, r1\<lparr>rw_transient := True\<rparr>, note_route_failure b)
              | Out_TimedOut \<Rightarrow> (None, r1\<lparr>rw_transient := True\<rparr>, note_route_failure b)
              | Out_StaleMembership \<Rightarrow> (None, r1\<lparr>rw_transient := True\<rparr>, b)
              | Out_StaleDestination \<Rightarrow> (None, r1\<lparr>rw_transient := True\<rparr>, b)))"

subsection \<open>One exchange\<close>

fun transport_outcome :: "error \<Rightarrow> probe_outcome option" where
  "transport_outcome Unavailable = Some Unreachable"
| "transport_outcome Io = Some Unreachable"
| "transport_outcome (Os _) = Some Unreachable"
| "transport_outcome HopBudgetExhausted = Some Unreachable"
| "transport_outcome Overloaded = Some OutcomeOverloaded"
| "transport_outcome _ = None"

datatype stale_action_kind = StaleRefresh | StaleSkip

definition stale_action :: "bool \<Rightarrow> nat \<Rightarrow> nat option \<Rightarrow> stale_action_kind res" where
  "stale_action retried previous latest =
     (case latest of
        None \<Rightarrow> Inl Unavailable
      | Some v \<Rightarrow> Inr (if \<not> retried \<and> v > previous then StaleRefresh else StaleSkip))"

record attempt_plan =
  ap_links :: nat
  ap_overall :: instant
  ap_share :: instant
  ap_attempt_end :: instant
  ap_idle :: duration
  ap_remote_attempts :: nat
  ap_complete_by :: instant
  ap_observation :: duration

record attempt_inputs =
  ai_now :: instant
  ai_caller_deadline :: instant
  ai_opportunities :: nat
  ai_route :: route_mode
  ai_mode :: fetch_mode
  ai_attempt_timeout :: duration
  ai_failure_links :: nat

definition plan_attempt :: "budget \<Rightarrow> attempt_inputs \<Rightarrow> attempt_plan res \<times> budget" where
  "plan_attempt b i =
     (let links = route_links b in
      if links = 0 then (Inl HopBudgetExhausted, b)
      else case begin_peer_attempt b (ai_now i) (ai_caller_deadline i) links of
             Inl e \<Rightarrow> (Inl e, b)
           | Inr (overall, b1) \<Rightarrow>
               let now = ai_now i;
                   opportunities = max (ai_opportunities i) 1;
                   share = now + (overall - now) div opportunities;
                   attempt_end = now + min (ai_attempt_timeout i)
                     (if ai_route i = DirectHedge then (overall - now) div 3 else overall - now);
                   idle = min (share - now) (attempt_end - now);
                   credits = (if ai_route i = FundedRoute then b_attempts b1
                              else div_ceil (b_attempts b1) opportunities)
               in case (if ai_mode i = Acquire then send_remote b1 credits else Inr (0, b1)) of
                    Inl e \<Rightarrow> (Inl e, b1)
                  | Inr (remote_attempts, b2) \<Rightarrow>
                      let reserve = min (share - now) ((overall - share) div 2);
                          complete_by =
                            (if ai_opportunities i > 1 \<and> b_attempts b2 > 0 \<and>
                                b_links b2 \<ge> ai_failure_links i \<and> reserve \<noteq> 0
                             then min attempt_end (overall - reserve) else attempt_end);
                          observation = max (min (share - now) ((attempt_end - now) div 3)) 1
                      in (Inr \<lparr>ap_links = links, ap_overall = overall, ap_share = share,
                               ap_attempt_end = attempt_end, ap_idle = idle,
                               ap_remote_attempts = remote_attempts, ap_complete_by = complete_by,
                               ap_observation = observation\<rparr>, b2))"

definition hedge_eligible :: "bool \<Rightarrow> bool \<Rightarrow> 'n list \<Rightarrow> nat \<Rightarrow> nat \<Rightarrow> budget \<Rightarrow> bool" where
  "hedge_eligible page owner owners first second b \<longleftrightarrow>
     page \<and> \<not> owner \<and> length owners \<ge> 2 \<and> first = 0 \<and> owners ! first \<noteq> owners ! second \<and>
     b_attempts b \<ge> 3 + owner_funding_min second \<and> b_links b \<ge> 10"

text \<open>\<open>hedge_budgets\<close>: the secondary's and the primary's budget, and what is left.\<close>

definition hedge_budgets :: "budget \<Rightarrow> (budget \<times> budget) res \<times> budget" where
  "hedge_budgets b =
     (case budget_partition b 1 1 of
        Inl e \<Rightarrow> (Inl e, b)
      | Inr (secondary, b1) \<Rightarrow>
          (case budget_partition b1 2 1 of
             Inl e \<Rightarrow> (Inl e, b1)
           | Inr (primary, b2) \<Rightarrow> (Inr (secondary, primary), b2)))"

fun hedge_fallback :: "error \<Rightarrow> bool" where
  "hedge_fallback Unavailable = True"
| "hedge_fallback Io = True"
| "hedge_fallback (Os _) = True"
| "hedge_fallback Overloaded = True"
| "hedge_fallback CorruptRecord = True"
| "hedge_fallback MissingKey = True"
| "hedge_fallback InvalidRequest = True"
| "hedge_fallback HeaderTooLarge = True"
| "hedge_fallback _ = False"

definition MAX_STALE_WAIT :: duration where "MAX_STALE_WAIT = secs 4"
definition MAX_STALE_WAITS :: nat where "MAX_STALE_WAITS = 2"
definition MIN_STALE_WAIT :: duration where "MIN_STALE_WAIT = millis 250"

definition stale_wait :: "nat \<Rightarrow> bool \<Rightarrow> duration \<Rightarrow> duration option" where
  "stale_wait waits affordable remaining =
     (if waits \<ge> MAX_STALE_WAITS \<or> (waits > 0 \<and> \<not> affordable) then None
      else let wait = min (remaining div 3) MAX_STALE_WAIT in
        if wait \<ge> MIN_STALE_WAIT then Some wait else None)"

definition previous_fallback :: "bool \<Rightarrow> bool \<Rightarrow> bool \<Rightarrow> bool" where
  "previous_fallback owner retried previous_recent_member \<longleftrightarrow>
     \<not> owner \<and> \<not> retried \<and> previous_recent_member"

end
