(* ===== verification/Racer_Walk_Runs.thy ===== *)
theory Racer_Walk_Runs
  imports Racer_Walk
begin

section \<open>Runs of the candidate walk\<close>

text \<open>
  What the operations of the candidate walk guarantee together. An abstract planning step describes every
  way \<open>next\<close> can act and is shown to cover it; runs interleave planning, sending and recording outcomes;
  by rule induction over runs, credits are conserved, the number of probes is bounded, and a walk that
  ends in an origin fetch has the authority the origin check asks for.
\<close>

subsection \<open>What one planning step does\<close>

text \<open>A child budget split off a parent: together they hold what there was.\<close>

definition split_off :: "budget \<Rightarrow> budget \<Rightarrow> budget \<Rightarrow> bool" where
  "split_off b child parent \<longleftrightarrow>
     b_attempts child + b_attempts parent = b_attempts b \<and> b_links child + b_links parent = b_links b \<and>
     b_deadline child = b_deadline b \<and> b_deadline parent = b_deadline b"

lemma partition_split_off:
  "budget_partition b a l = Inr (child, parent) \<Longrightarrow> split_off b child parent"
  by (auto simp: partition_ok_iff split_off_def budget_new_def)

lemma split_off_note [simp]: "split_off b (note_route_failure child) parent = split_off b child parent"
  by (simp add: split_off_def note_route_failure_def)

lemma partition_plan_child: "partition_plan b a l = Bound_Child child parent \<Longrightarrow> split_off b child parent"
  by (auto simp: partition_plan_def partition_split_off split: sum.splits)

lemma walk_bounded_child:
  "walk_bounded w b c handoff delegated copy_only a = Bound_Child child parent \<Longrightarrow> split_off b child parent"
  by (auto simp: walk_bounded_def Let_def dest: partition_plan_child
      split: if_splits bound_plan.splits)

lemma walk_bounded_short:
  "walk_bounded w b c handoff delegated copy_only a = Bound_Short \<Longrightarrow>
   wc_rank (wk_config w) = None \<or> ct_bounded_routes (wc_continuation (wk_config w))"
  by (auto simp: walk_bounded_def partition_plan_def Let_def
      split: if_splits bound_plan.splits sum.splits)

text \<open>What a planned probe is: the relation between the walk before, the probe, its pending record and
  the budgets.\<close>

definition issued :: "walk \<Rightarrow> budget \<Rightarrow> probe \<Rightarrow> pending \<Rightarrow> budget \<Rightarrow> bool" where
  "issued w b pr p b' \<longleftrightarrow>
     (case pd_bounded p of
        None \<Rightarrow> b' = b
      | Some child \<Rightarrow> if pd_granted p then b' = b else split_off b child b') \<and>
     (pd_helper p \<longrightarrow> wc_rank (wk_config w) = None) \<and>
     (\<not> pd_helper p \<longrightarrow>
        pr_index pr = wk_index w \<and> walk_target w (wk_index w) = Some (pr_canonical pr) \<and>
        pd_handoff p = (wc_owners (wk_config w) \<le> pr_canonical pr)) \<and>
     (pd_rank0 p \<longrightarrow> wc_rank (wk_config w) \<noteq> None \<and> pr_canonical pr = 0 \<and>
        \<not> pd_helper p \<and> \<not> pd_handoff p) \<and>
     (pd_granted p \<longrightarrow> pd_bounded p \<noteq> None) \<and>
     (wc_rank (wk_config w) \<noteq> None \<and> pr_mode pr = Acquire \<longrightarrow>
        pr_canonical pr = 0 \<and> wc_rank (wk_config w) \<noteq> Some 0 \<and> pd_delegated p)"

lemma planned_issued:
  assumes "walk_target w (wk_index w) = Some c"
    and "case bounded of None \<Rightarrow> b' = b | Some child \<Rightarrow> split_off b child b'"
  shows "issued w b (planned_probe w b c bounded) (planned_pending w b c bounded) b'"
  using assms
  by (auto simp: issued_def planned_probe_def planned_pending_def probe_copy_only_def
      walk_delegated_def Let_def split: option.splits if_splits)

lemma walk_probe_return:
  assumes "walk_probe w b c = (it, w', b')" and "walk_target w (wk_index w) = Some c"
  shows "(\<exists>pr p. it = It_Return (Inr (Step_Probe pr)) \<and> w' = w\<lparr>wk_pending := Some p\<rparr> \<and>
        issued w b pr p b' \<and> \<not> pd_helper p) \<or>
      (\<exists>e. it = It_Return (Inl e) \<and> w' = w \<and> b' = b) \<or>
      (it = It_Break \<and> w' = w\<lparr>wk_saw_transient := True, wk_funding := True\<rparr> \<and> b' = b \<and>
        (wc_rank (wk_config w) = None \<or> ct_bounded_routes (wc_continuation (wk_config w))))"
proof (cases "walk_bounded w b c (c \<ge> wc_owners (wk_config w)) (walk_delegated w b c)
    (probe_copy_only w b c) (owner_attempts w b c)")
  case (Bound_Err e)
  with assms show ?thesis by (auto simp: walk_probe_def)
next
  case Bound_Short
  with assms walk_bounded_short [OF Bound_Short] show ?thesis by (auto simp: walk_probe_def)
next
  case (Bound_Child child parent)
  from planned_issued [OF assms(2), where bounded = "Some child" and b' = parent and b = b] walk_bounded_child [OF Bound_Child]
  have "issued w b (planned_probe w b c (Some child)) (planned_pending w b c (Some child)) parent"
    by simp
  moreover have "\<not> pd_helper (planned_pending w b c (Some child))"
    by (simp add: planned_pending_def Let_def)
  ultimately show ?thesis using assms(1) Bound_Child by (auto simp: walk_probe_def Let_def)
next
  case Bound_None
  from planned_issued [OF assms(2), where bounded = None and b' = b and b = b]
  have "issued w b (planned_probe w b c None) (planned_pending w b c None) b"
    by simp
  moreover have "\<not> pd_helper (planned_pending w b c None)"
    by (simp add: planned_pending_def Let_def)
  ultimately show ?thesis using assms(1) Bound_None by (auto simp: walk_probe_def Let_def)
qed

text \<open>What stays of a walk while it records outcomes or stops.\<close>

definition keeps_plan :: "walk \<Rightarrow> walk \<Rightarrow> bool" where
  "keeps_plan w w' \<longleftrightarrow>
     wk_pending w' = wk_pending w \<and> wk_config w' = wk_config w \<and> wk_order w' = wk_order w \<and>
     wk_targets w' = wk_targets w \<and> wk_count w' = wk_count w \<and> wk_batch w' = wk_batch w \<and>
     wk_index w' = wk_index w \<and> wk_helper w' = wk_helper w"

lemma walk_finish_done [simp]: "walk_finish (w\<lparr>wk_done := d\<rparr>) = walk_finish w"
  by (cases "wc_rank (wk_config w)") (simp_all add: walk_finish_def)

lemma walk_stop_effect:
  assumes "walk_stop w b = (r, w', b')"
  shows "b' = b \<and> r = Inr (Step_End (walk_finish w)) \<and> keeps_plan w w' \<and> wk_done w' \<and>
    wk_rank0_unanswered w' = wk_rank0_unanswered w"
  using assms
  by (cases "wc_rank (wk_config w) \<noteq> None \<and> \<not> wk_rank0_unanswered w")
    (auto simp: walk_stop_def keeps_plan_def Let_def)

text \<open>
  The abstract planning step: what \<open>next\<close> may do from a prepared walk. It fails and changes nothing,
  issues one probe, issues the run of granted probes, or ends; it asks the helper only when one is due; an owner's walk ends only past its
  predecessors unless its routes are bounded.
\<close>

definition walk_over :: "walk \<Rightarrow> bool" where
  "walk_over w \<longleftrightarrow>
     (case walk_target w (wk_index w) of None \<Rightarrow> True | Some c \<Rightarrow> wc_owners (wk_config w) \<le> c) \<or>
     wc_rank (wk_config w) = None \<or> ct_bounded_routes (wc_continuation (wk_config w))"

inductive plan_step :: "bool \<Rightarrow> walk \<Rightarrow> budget \<Rightarrow> walk_step res \<Rightarrow> walk \<Rightarrow> budget \<Rightarrow> bool" where
  ps_error: "plan_step d w b (Inl e) w b"
| ps_probe: "issued w b pr p b' \<Longrightarrow> \<not> pd_helper p \<Longrightarrow>
    plan_step d w b (Inr (Step_Probe pr)) (w\<lparr>wk_pending := Some p\<rparr>) b'"
| ps_helper: "issued w b pr p b' \<Longrightarrow> pd_helper p \<Longrightarrow> wk_helper w = H_Used \<Longrightarrow>
    plan_step True w b (Inr (Step_Probe pr)) (w\<lparr>wk_pending := Some p\<rparr>) b'"
| ps_granted: "granted_target w (wk_index w) \<Longrightarrow>
    plan_step d w b (Inr (Step_Granted (granted_probes w)))
      (w\<lparr>wk_index := wk_index w + length (granted_run w), wk_batch := length (granted_run w)\<rparr>) b"
| ps_end: "walk_over w \<Longrightarrow> walk_stop w b = (r, w', b') \<Longrightarrow> plan_step d w b r w' b'"

text \<open>What \<open>next\<close> may change of a walk before it plans.\<close>

definition prepared :: "budget \<Rightarrow> walk \<Rightarrow> walk \<Rightarrow> bool" where
  "prepared b w w1 \<longleftrightarrow>
     wk_config w1 = wk_config w \<and> wk_targets w1 = wk_targets w \<and> wk_count w1 = wk_count w \<and>
     wk_batch w1 = wk_batch w \<and> wk_evidence w1 = wk_evidence w \<and> wk_pending w1 = wk_pending w \<and>
     wk_done w1 = wk_done w \<and> wk_rank0_unanswered w1 = wk_rank0_unanswered w \<and>
     wk_saw_busy w1 = wk_saw_busy w \<and>
     (wk_index w1 = wk_index w \<or>
      ct_primary_consumed (wc_continuation (wk_config w)) \<and> wk_index w = 0 \<and> wk_index w1 = 1 \<and>
      walk_target w1 0 \<noteq> None) \<and>
     (wk_order w1 = wk_order w \<or> wk_order w1 = canonical_order (length (order_ranks (wk_order w)))) \<and>
     (wk_helper w1 = H_Armed \<longrightarrow> wk_helper w = H_Armed \<or>
        wk_helper w = H_Unset \<and> HELPER_MIN_ATTEMPTS \<le> b_attempts b \<and> wc_rank (wk_config w) = None) \<and>
     (wk_helper w1 = H_Used \<longrightarrow> wk_helper w = H_Used \<or> wk_helper w = H_Due) \<and>
     (wk_helper w = H_Used \<longrightarrow> wk_helper w1 = H_Used) \<and>
     wk_helper w1 \<noteq> H_Unset \<and> wk_helper w1 \<noteq> H_Due"

lemma walk_iter_plan:
  assumes "walk_iter w b c = (it, w', b')" and "walk_target w (wk_index w) = Some c"
  shows "(\<exists>r. it = It_Return r \<and> plan_step d w b r w' b') \<or>
      (it = It_Break \<and> (\<exists>t f. w' = w\<lparr>wk_saw_transient := t, wk_funding := f\<rparr>) \<and> b' = b \<and> walk_over w) \<or>
      (it = It_Continue \<and> b' = b \<and> wk_index w = 0 \<and> ct_primary_consumed (wc_continuation (wk_config w)) \<and>
        (\<exists>v t. w' = w\<lparr>wk_saw_version := v, wk_saw_transient := t, wk_index := 1\<rparr>))"
proof -
  let ?c = "wk_config w"
  let ?handoff = "c \<ge> wc_owners ?c"
  let ?granted = "?handoff \<and> c - wc_owners ?c < wc_granted ?c"
  consider (batch) "?granted" "wc_parallel ?c" | (grant) "?granted" "\<not> wc_parallel ?c"
    | (low) "\<not> ?granted" "?handoff" "b_attempts b < 2 \<or> b_links b = 0"
    | (skip) "\<not> ?granted" "\<not> (?handoff \<and> (b_attempts b < 2 \<or> b_links b = 0))"
        "ct_primary_consumed (wc_continuation ?c)" "wk_index w = 0"
    | (probe) "\<not> ?granted" "\<not> (?handoff \<and> (b_attempts b < 2 \<or> b_links b = 0))"
        "\<not> (ct_primary_consumed (wc_continuation ?c) \<and> wk_index w = 0)"
    by argo
  then show ?thesis
  proof cases
    case batch
    then have "it = It_Return (Inr (Step_Granted (granted_probes w)))" "b' = b"
      "w' = w\<lparr>wk_index := wk_index w + length (granted_run w), wk_batch := length (granted_run w)\<rparr>"
      using assms(1) by (simp_all add: walk_iter_def Let_def)
    moreover from batch assms(2) have "granted_target w (wk_index w)"
      by (simp add: granted_target_def)
    ultimately show ?thesis using ps_granted by simp
  next
    case grant
    let ?pr = "\<lparr>pr_index = wk_index w, pr_canonical = c, pr_mode = CopyOnly,
      pr_opportunities = wk_count w - wk_index w + 1 + SUCCESSOR_SHARE_DIVISOR,
      pr_route = FundedRoute, pr_previous = False\<rparr>"
    let ?p = "\<lparr>pd_bounded = Some (budget_new (b_deadline b) SUCCESSOR_GRANT_ATTEMPTS SUCCESSOR_GRANT_LINKS),
      pd_handoff = True, pd_delegated = False, pd_rank0 = False, pd_previous = False,
      pd_helper = False, pd_granted = True\<rparr>"
    have "issued w b ?pr ?p b"
      using grant assms(2) by (simp add: issued_def)
    then have "plan_step d w b (Inr (Step_Probe ?pr)) (w\<lparr>wk_pending := Some ?p\<rparr>) b"
      by (rule ps_probe) simp
    moreover have "it = It_Return (Inr (Step_Probe ?pr))" "w' = w\<lparr>wk_pending := Some ?p\<rparr>" "b' = b"
      using grant assms(1) by (auto simp: walk_iter_def Let_def)
    ultimately show ?thesis by simp
  next
    case low
    then have "it = It_Break" "w' = w" "b' = b"
      using assms(1) by (auto simp: walk_iter_def Let_def)
    moreover have "walk_over w" using low assms(2) by (simp add: walk_over_def)
    moreover have "\<exists>t f. w = w\<lparr>wk_saw_transient := t, wk_funding := f\<rparr>"
      by (rule exI [of _ "wk_saw_transient w"], rule exI [of _ "wk_funding w"]) simp
    ultimately show ?thesis by blast
  next
    case skip
    let ?x = "case ct_primary_outcome (wc_continuation ?c) of None \<Rightarrow> Unreachable | Some x \<Rightarrow> x"
    have "it = It_Continue" "b' = b"
      "w' = w\<lparr>wk_saw_version := wk_saw_version w \<or> ?x = OutcomeVersionUnavailable,
        wk_saw_transient := wk_saw_transient w \<or> transient ?x, wk_index := 1\<rparr>"
      using skip assms(1) by (cases ?handoff; auto simp: walk_iter_def Let_def)+
    with skip(3,4) show ?thesis by blast
  next
    case probe
    with assms(1) have "walk_probe w b c = (it, w', b')"
      by (cases ?handoff; cases "ct_primary_consumed (wc_continuation ?c)"; simp add: walk_iter_def Let_def)
    then consider (issue) pr q where "it = It_Return (Inr (Step_Probe pr))"
        "w' = w\<lparr>wk_pending := Some q\<rparr>" "issued w b pr q b'" "\<not> pd_helper q"
      | (err) e where "it = It_Return (Inl e)" "w' = w" "b' = b"
      | (short) "it = It_Break" "w' = w\<lparr>wk_saw_transient := True, wk_funding := True\<rparr>" "b' = b"
          "wc_rank ?c = None \<or> ct_bounded_routes (wc_continuation ?c)"
      using walk_probe_return [OF _ assms(2)] by blast
    then show ?thesis
    proof cases
      case issue
      then show ?thesis using ps_probe by blast
    next
      case err
      then show ?thesis using ps_error by blast
    next
      case short
      then have "walk_over w" by (auto simp: walk_over_def)
      with short show ?thesis by blast
    qed
  qed
qed

lemma walk_target_cong [simp]:
  "walk_target (w\<lparr>wk_saw_transient := t\<rparr>) i = walk_target w i"
  "walk_target (w\<lparr>wk_saw_version := v\<rparr>) i = walk_target w i"
  "walk_target (w\<lparr>wk_funding := f\<rparr>) i = walk_target w i"
  "walk_target (w\<lparr>wk_index := n\<rparr>) i = walk_target w i"
  "walk_target (w\<lparr>wk_batch := n\<rparr>) i = walk_target w i"
  "walk_target (w\<lparr>wk_pending := p\<rparr>) i = walk_target w i"
  "walk_target (w\<lparr>wk_helper := h\<rparr>) i = walk_target w i"
  "walk_target (w\<lparr>wk_done := d\<rparr>) i = walk_target w i"
  "walk_target (w\<lparr>wk_evidence := e\<rparr>) i = walk_target w i"
  "walk_target (w\<lparr>wk_rank0_unanswered := u\<rparr>) i = walk_target w i"
  "walk_target (w\<lparr>wk_saw_busy := d\<rparr>) i = walk_target w i"
  by (simp_all add: walk_target_def)

lemma walk_over_flags [simp]:
  "walk_over (w\<lparr>wk_saw_transient := t, wk_funding := f\<rparr>) = walk_over w"
  by (simp add: walk_over_def cong: option.case_cong)

lemma walk_loop_plan:
  assumes "walk_loop w b = (r, w', b')"
  shows "\<exists>w1. (w1 = w \<or> (\<exists>t f. w1 = w\<lparr>wk_saw_transient := t, wk_funding := f\<rparr>) \<or>
      (wk_index w = 0 \<and> ct_primary_consumed (wc_continuation (wk_config w)) \<and> walk_target w 0 \<noteq> None \<and>
       (\<exists>v t f. w1 = w\<lparr>wk_saw_version := v, wk_saw_transient := t, wk_funding := f, wk_index := 1\<rparr>))) \<and>
    plan_step d w1 b r w' b'"
  using assms
proof (induction w b rule: walk_loop.induct)
  case (1 w b)
  show ?case
  proof (cases "walk_target w (wk_index w)")
    case None
    then have "walk_over w" "walk_stop w b = (r, w', b')"
      using 1(2) by (simp_all add: walk_over_def walk_loop.simps [of w b])
    then show ?thesis using ps_end by blast
  next
    case (Some c)
    obtain it v bv where it: "walk_iter w b c = (it, v, bv)" by (cases "walk_iter w b c")
    from walk_iter_plan [OF it Some] consider
        (ret) r' where "it = It_Return r'" "plan_step d w b r' v bv"
      | (brk) t f where "it = It_Break" "v = w\<lparr>wk_saw_transient := t, wk_funding := f\<rparr>" "bv = b" "walk_over w"
      | (cont) x t where "it = It_Continue" "bv = b" "wk_index w = 0"
          "ct_primary_consumed (wc_continuation (wk_config w))"
          "v = w\<lparr>wk_saw_version := x, wk_saw_transient := t, wk_index := 1\<rparr>"
      by blast
    then show ?thesis
    proof cases
      case ret
      then have "r = r'" "w' = v" "b' = bv"
        using 1(2) Some it by (simp_all add: walk_loop.simps [of w b])
      with ret show ?thesis by blast
    next
      case brk
      then have "walk_stop v b = (r, w', b')" "walk_over v"
        using 1(2) Some it by (simp_all add: walk_loop.simps [of w b])
      then have "plan_step d v b r w' b'" by (intro ps_end)
      with brk show ?thesis by blast
    next
      case cont
      have "walk_loop v bv = (r, w', b')"
        using 1(2) Some it cont by (simp add: walk_loop.simps [of w b])
      from 1(1) [OF Some it [symmetric] cont(1) refl this] cont
      obtain w1 where w1: "w1 = v \<or> (\<exists>t f. w1 = v\<lparr>wk_saw_transient := t, wk_funding := f\<rparr>)"
        "plan_step d w1 b r w' b'"
        by auto
      have "\<exists>v' t f. w1 = w\<lparr>wk_saw_version := v', wk_saw_transient := t, wk_funding := f, wk_index := 1\<rparr>"
        using w1(1)
      proof
        assume "w1 = v"
        then show ?thesis using cont(5) by (intro exI [of _ x] exI [of _ t] exI [of _ "wk_funding w"]) simp
      next
        assume "\<exists>t f. w1 = v\<lparr>wk_saw_transient := t, wk_funding := f\<rparr>"
        then obtain t' f where "w1 = v\<lparr>wk_saw_transient := t', wk_funding := f\<rparr>" by blast
        then show ?thesis using cont(5) by (intro exI [of _ x] exI [of _ t'] exI [of _ f]) simp
      qed
      moreover have "walk_target w 0 \<noteq> None" using Some cont(3) by simp
      ultimately show ?thesis using w1(2) cont by blast
    qed
  qed
qed

lemma walk_start_prepared:
  "wk_helper w = H_Unset \<Longrightarrow> prepared b w (walk_start w b)"
  by (simp add: walk_start_def prepared_def Let_def)

lemma prepared_refl:
  "wk_helper w \<noteq> H_Unset \<Longrightarrow> wk_helper w \<noteq> H_Due \<Longrightarrow> prepared b w w"
  by (simp add: prepared_def)

lemma prepared_used: "wk_helper w = H_Due \<Longrightarrow> prepared b w (w\<lparr>wk_helper := H_Used\<rparr>)"
  by (simp add: prepared_def)

lemma prepared_loop:
  assumes "prepared b w w0" and "wk_index w0 = wk_index w"
    and "w1 = w0 \<or> (\<exists>t f. w1 = w0\<lparr>wk_saw_transient := t, wk_funding := f\<rparr>) \<or>
      (wk_index w0 = 0 \<and> ct_primary_consumed (wc_continuation (wk_config w0)) \<and> walk_target w0 0 \<noteq> None \<and>
       (\<exists>v t f. w1 = w0\<lparr>wk_saw_version := v, wk_saw_transient := t, wk_funding := f, wk_index := 1\<rparr>))"
  shows "prepared b w w1"
  using assms(3)
proof (elim disjE exE conjE)
  assume "w1 = w0"
  with assms(1) show ?thesis by simp
next
  fix t f
  assume "w1 = w0\<lparr>wk_saw_transient := t, wk_funding := f\<rparr>"
  with assms(1,2) show ?thesis by (simp add: prepared_def)
next
  fix v t f
  assume "wk_index w0 = 0" "ct_primary_consumed (wc_continuation (wk_config w0))"
    "walk_target w0 0 \<noteq> None"
    "w1 = w0\<lparr>wk_saw_version := v, wk_saw_transient := t, wk_funding := f, wk_index := 1\<rparr>"
  with assms(1,2) show ?thesis by (simp add: prepared_def)
qed

lemma helper_probe_plan:
  assumes "helper_probe w b = (r, w', b')" and "wk_helper w = H_Used" and "wc_rank (wk_config w) = None"
  shows "plan_step True w b r w' b'"
proof (cases "budget_partition b (min (b_attempts b) HELPER_ATTEMPTS) (min (b_links b) HELPER_LINKS)")
  case (Inl e)
  with assms show ?thesis by (auto simp: helper_probe_def Let_def intro: ps_error)
next
  case (Inr cp)
  obtain child parent where cp: "cp = (child, parent)" by force
  let ?pr = "\<lparr>pr_index = wk_index w, pr_canonical = wc_owners (wk_config w), pr_mode = Acquire,
    pr_opportunities = (wk_count w - wk_index w) + 1, pr_route = FundedRoute, pr_previous = False\<rparr>"
  let ?p = "\<lparr>pd_bounded = Some (note_route_failure child), pd_handoff = True, pd_delegated = False,
    pd_rank0 = False, pd_previous = False, pd_helper = True, pd_granted = False\<rparr>"
  have "issued w b ?pr ?p parent"
    using partition_split_off Inr cp assms(3) by (auto simp: issued_def)
  then have "plan_step True w b (Inr (Step_Probe ?pr)) (w\<lparr>wk_pending := Some ?p\<rparr>) parent"
    by (rule ps_helper) (simp_all add: assms(2))
  moreover have "r = Inr (Step_Probe ?pr)" "w' = w\<lparr>wk_pending := Some ?p\<rparr>" "b' = parent"
    using assms(1) Inr cp by (auto simp: helper_probe_def Let_def)
  ultimately show ?thesis by simp
qed

text \<open>
  The helper is only ever due in a reader's walk (\<open>walk_ok\<close> below); under that condition \<open>next\<close> refines
  the abstract step.
\<close>

lemma walk_next_plan:
  assumes "walk_next w b = Some (r, w', b')"
    and "wk_helper w = H_Due \<longrightarrow> wc_rank (wk_config w) = None"
  shows "wk_pending w = None \<and> wk_batch w = 0 \<and> \<not> wk_done w \<and>
    (\<exists>w1. prepared b w w1 \<and> plan_step (wk_helper w = H_Due) w1 b r w' b')"
proof -
  have ready: "wk_pending w = None" "wk_batch w = 0" "\<not> wk_done w"
    using assms(1) by (auto simp: walk_next_def split: if_splits)
  let ?plan = "\<exists>w1. prepared b w w1 \<and> plan_step (wk_helper w = H_Due) w1 b r w' b'"
  have loop: ?plan
    if "walk_loop w0 b = (r, w', b')" "prepared b w w0" "wk_index w0 = wk_index w" for w0
    using walk_loop_plan [OF that(1), of "wk_helper w = H_Due"] prepared_loop [OF that(2,3)] by blast
  have ?plan
  proof (cases "wk_helper w")
    case H_Unset
    have start: "wk_helper (walk_start w b) \<noteq> H_Due" "wk_index (walk_start w b) = wk_index w"
      by (simp_all add: walk_start_def Let_def)
    with assms(1) ready H_Unset have "walk_loop (walk_start w b) b = (r, w', b')"
      by (simp add: walk_next_def Let_def)
    from loop [OF this walk_start_prepared [OF H_Unset] start(2)] show ?plan .
  next
    case H_Due
    let ?u = "w\<lparr>wk_helper := H_Used\<rparr>"
    have prep: "prepared b w ?u" by (rule prepared_used [OF H_Due])
    show ?plan
    proof (cases "b_attempts b \<ge> HELPER_FLOOR_ATTEMPTS \<and> b_links b \<ge> HELPER_FLOOR_LINKS")
      case True
      with assms(1) ready H_Due have "helper_probe ?u b = (r, w', b')"
        by (simp add: walk_next_def Let_def)
      from helper_probe_plan [OF this] assms(2) H_Due have "plan_step True ?u b r w' b'" by simp
      with prep have "prepared b w ?u \<and> plan_step (wk_helper w = H_Due) ?u b r w' b'"
        unfolding H_Due by (simp only: simp_thms)
      then show ?plan by (rule exI [of _ ?u])
    next
      case False
      with assms(1) ready H_Due have "walk_loop ?u b = (r, w', b')"
        unfolding walk_next_def Let_def by simp
      from loop [OF this prep] show ?plan by simp
    qed
  next
    case H_Off
    with assms(1) ready have "walk_loop w b = (r, w', b')" by (simp add: walk_next_def Let_def)
    from loop [OF this prepared_refl refl] H_Off show ?plan by simp
  next
    case H_Armed
    with assms(1) ready have "walk_loop w b = (r, w', b')" by (simp add: walk_next_def Let_def)
    from loop [OF this prepared_refl refl] H_Armed show ?plan by simp
  next
    case H_Used
    with assms(1) ready have "walk_loop w b = (r, w', b')" by (simp add: walk_next_def Let_def)
    from loop [OF this prepared_refl refl] H_Used show ?plan by simp
  qed
  with ready show ?thesis by (intro conjI)
qed

subsection \<open>What recording an outcome does\<close>

text \<open>Outcomes of rank 0's probe that leave the fetch to rank 0.\<close>

definition leaves_rank0 :: "rank0_state \<Rightarrow> outcome \<Rightarrow> bool" where
  "leaves_rank0 known out =
     (case out of
        Out_TimedOut \<Rightarrow> known \<noteq> R0_Overdue
      | Out_Failed \<Rightarrow> known = R0_Failed
      | Out_Probe x \<Rightarrow> x = OutcomeOverloaded \<and> known \<noteq> R0_Overdue
      | Out_Transport x \<Rightarrow> x = OutcomeOverloaded \<and> known \<noteq> R0_Overdue
      | _ \<Rightarrow> False)"

definition completes :: "walk \<Rightarrow> pending \<Rightarrow> outcome \<Rightarrow> walk_end option \<Rightarrow> walk \<Rightarrow> bool" where
  "completes w p out e w' \<longleftrightarrow>
     wk_pending w' = None \<and> wk_config w' = wk_config w \<and> wk_order w' = wk_order w \<and>
     wk_targets w' = wk_targets w \<and> wk_count w' = wk_count w \<and> wk_batch w' = wk_batch w \<and>
     wk_index w' = (if pd_helper p then wk_index w else wk_index w + 1) \<and>
     wk_helper w' = (if \<not> pd_helper p \<and> wk_helper w = H_Armed \<and> out = Out_Shed then H_Due
                     else wk_helper w) \<and>
     wk_done w' = (wk_done w \<or> e \<noteq> None) \<and>
     (e = None \<longrightarrow> length (wk_evidence w') =
        length (wk_evidence w) + (if pd_helper p \<or> pd_handoff p then 0 else 1)) \<and>
     wk_rank0_unanswered w' = (wk_rank0_unanswered w \<or>
        (pd_rank0 p \<and> leaves_rank0 (wc_rank0 (wk_config w)) out \<and>
         (case out of Out_Probe _ \<Rightarrow> \<not> pd_helper p \<and> \<not> pd_handoff p
          | Out_Transport _ \<Rightarrow> \<not> pd_helper p \<and> \<not> pd_handoff p | _ \<Rightarrow> True))) \<and>
     e \<in> {None, Some End_Copy, Some End_StaleMembership, Some End_VersionUnavailable}"

text \<open>Normalizing an outcome only sets the two flags, and leaves no timeout or failure behind.\<close>

lemma walk_normalize_keeps:
  assumes "walk_normalize w p out = (w1, out')"
  shows "keeps_plan w w1 \<and> wk_done w1 = wk_done w \<and> wk_evidence w1 = wk_evidence w \<and>
    (out' = Out_Shed) = (out = Out_Shed) \<and> out' \<noteq> Out_TimedOut \<and> out' \<noteq> Out_Failed"
  using assms by (cases out) (auto simp: walk_normalize_def keeps_plan_def)

lemma walk_note_overload_keeps:
  "keeps_plan w (walk_note_overload w p out) \<and> wk_done (walk_note_overload w p out) = wk_done w \<and>
    wk_evidence (walk_note_overload w p out) = wk_evidence w"
  by (simp add: walk_note_overload_def keeps_plan_def)

lemma walk_normalize_unanswered:
  assumes "walk_normalize w p out = (w1, out')"
  shows "wk_rank0_unanswered (walk_note_overload w1 p out') = (wk_rank0_unanswered w \<or>
        (pd_rank0 p \<and> leaves_rank0 (wc_rank0 (wk_config w)) out \<and>
         (case out of Out_Probe _ \<Rightarrow> \<not> pd_helper p \<and> \<not> pd_handoff p
          | Out_Transport _ \<Rightarrow> \<not> pd_helper p \<and> \<not> pd_handoff p | _ \<Rightarrow> True)))"
  using assms by (cases out) (auto simp: walk_normalize_def walk_note_overload_def leaves_rank0_def)

text \<open>What an outcome, helper's or owner's, may change.\<close>

definition outcome_effect :: "bool \<Rightarrow> walk \<Rightarrow> walk_end option \<Rightarrow> walk \<Rightarrow> bool" where
  "outcome_effect counted w e w' \<longleftrightarrow>
     keeps_plan w w' \<and> wk_done w' = (wk_done w \<or> e \<noteq> None) \<and>
     (e = None \<longrightarrow> length (wk_evidence w') = length (wk_evidence w) + (if counted then 1 else 0)) \<and>
     wk_rank0_unanswered w' = wk_rank0_unanswered w \<and>
     e \<in> {None, Some End_Copy, Some End_StaleMembership, Some End_VersionUnavailable}"

lemma walk_helper_effect:
  assumes "walk_helper_outcome w b out = (Inr e, w', b')"
  shows "outcome_effect False w e w' \<and> (b' = b \<or> b' = note_route_failure b)"
  using assms
  by (cases out) (auto simp: walk_helper_outcome_def outcome_effect_def keeps_plan_def split: if_split_asm)

lemma outcome_effect_done: "e \<in> {End_Copy, End_StaleMembership, End_VersionUnavailable} \<Longrightarrow>
    outcome_effect c w (Some e) (w\<lparr>wk_done := True\<rparr>)"
  by (auto simp: outcome_effect_def keeps_plan_def)

lemma outcome_effect_none: "outcome_effect False w None w"
  by (simp add: outcome_effect_def keeps_plan_def)

lemma outcome_effect_push:
  "outcome_effect True w None (push_evidence x (w\<lparr>wk_saw_transient := t\<rparr>))"
  "outcome_effect True w None (push_evidence x (w\<lparr>wk_saw_busy := s, wk_saw_transient := t\<rparr>))"
  "outcome_effect True w None (push_evidence x (w\<lparr>wk_saw_version := v, wk_saw_transient := t\<rparr>))"
  by (simp_all add: outcome_effect_def keeps_plan_def push_evidence_def)

lemmas outcome_effects = outcome_effect_done outcome_effect_none outcome_effect_push

lemma walk_owner_effect:
  assumes "walk_owner_outcome w b p out = (Inr e, w', b')" and "out \<noteq> Out_TimedOut" "out \<noteq> Out_Failed"
  shows "outcome_effect (\<not> pd_handoff p) w e w' \<and> (b' = b \<or> b' = note_route_failure b)"
proof (cases "out = Out_Probe OutcomeVersionUnavailable \<and> pd_delegated p")
  case True
  then show ?thesis using assms(1) by (auto simp: walk_owner_outcome_def outcome_effects)
next
  case plain: False
  show ?thesis
  proof (cases "pd_handoff p")
    case True
    with assms plain show ?thesis
      by (cases out) (auto simp: walk_owner_outcome_def outcome_effects split: if_split_asm)
  next
    case False
    with assms plain show ?thesis
      by (cases out) (auto simp: walk_owner_outcome_def outcome_effects split: if_split_asm)
  qed
qed

lemma walk_complete_completes:
  assumes "walk_complete w b out = Some (Inr e, w', b')" and "wk_pending w = Some p"
  shows "completes w p out e w' \<and>
    (\<exists>b1. reunite_pending p b = Inr b1 \<and> (b' = b1 \<or> b' = note_route_failure b1))"
proof -
  obtain b1 where b1: "reunite_pending p b = Inr b1"
    using assms by (cases "reunite_pending p b") (auto simp: walk_complete_def Let_def)
  let ?w0 = "w\<lparr>wk_pending := None\<rparr>"
  obtain w1 out' where norm: "walk_normalize ?w0 p out = (w1, out')" by force
  define w2 where "w2 = walk_note_overload w1 p out'"
  note w2 = walk_normalize_keeps [OF norm] walk_note_overload_keeps [of w1 p out', folded w2_def]
    walk_normalize_unanswered [OF norm, folded w2_def]
  define w3 where "w3 = w2\<lparr>wk_index := wk_index w2 + 1\<rparr>"
  define w4 where "w4 = (if wk_helper w3 = H_Armed \<and> out' = Out_Shed then w3\<lparr>wk_helper := H_Due\<rparr> else w3)"
  have finished: "(if pd_helper p then walk_helper_outcome w2 b1 out'
      else walk_owner_outcome w4 b1 p out') = (Inr e, w', b')"
    using assms(1) unfolding walk_complete_def assms(2) option.case Let_def b1 sum.case norm prod.case
      w4_def w3_def w2_def by (simp only: option.inject)
  show ?thesis
  proof (cases "pd_helper p")
    case True
    with finished have "walk_helper_outcome w2 b1 out' = (Inr e, w', b')" by simp
    from walk_helper_effect [OF this] w2 True b1 show ?thesis
      unfolding completes_def outcome_effect_def keeps_plan_def by simp
  next
    case False
    with finished have "walk_owner_outcome w4 b1 p out' = (Inr e, w', b')" by simp
    from walk_owner_effect [OF this] w2 have
      fin: "outcome_effect (\<not> pd_handoff p) w4 e w' \<and> (b' = b1 \<or> b' = note_route_failure b1)" by blast
    have "wk_helper w4 = (if wk_helper w2 = H_Armed \<and> out' = Out_Shed then H_Due else wk_helper w2)"
      "wk_index w4 = wk_index w2 + 1" "wk_pending w4 = wk_pending w2" "wk_config w4 = wk_config w2"
      "wk_order w4 = wk_order w2" "wk_targets w4 = wk_targets w2" "wk_count w4 = wk_count w2"
      "wk_batch w4 = wk_batch w2" "wk_done w4 = wk_done w2" "wk_evidence w4 = wk_evidence w2"
      "wk_rank0_unanswered w4 = wk_rank0_unanswered w2"
      by (simp_all add: w4_def w3_def)
    with fin w2 False b1 show ?thesis
      unfolding completes_def outcome_effect_def keeps_plan_def by simp
  qed
qed

subsection \<open>Runs of a walk\<close>

text \<open>
  A run drives one walk: plan, send the planned probe over its request budget (\<open>plan_attempt\<close>), record
  the outcome. Besides the walk and the budget it tracks what the read's own credits were spent on
  (attempts used or sent along, links reserved; a granted probe spends its grant, not the read's
  credits), how many probes were planned, and the outcomes so far, newest first.
\<close>

fun step_probes :: "walk_step \<Rightarrow> nat" where
  "step_probes (Step_Probe _) = 1"
| "step_probes (Step_Granted ps) = length ps"
| "step_probes (Step_End _) = 0"

inductive walk_run ::
  "walk_config \<Rightarrow> budget \<Rightarrow> nat \<Rightarrow> nat \<Rightarrow> nat \<Rightarrow> (pending \<times> outcome) list \<Rightarrow> walk \<Rightarrow> budget \<Rightarrow> bool"
  for c :: walk_config and b0 :: budget where
  run_new: "walk_run c b0 0 0 0 [] (walk_new c) b0"
| run_next: "walk_run c b0 n l k h w b \<Longrightarrow> walk_next w b = Some (Inr st, w', b') \<Longrightarrow>
    walk_run c b0 n l (k + step_probes st) h w' b'"
| run_send: "walk_run c b0 n l k h w b \<Longrightarrow> wk_pending w = Some p \<Longrightarrow> \<not> pd_granted p \<Longrightarrow>
    plan_attempt (walk_request_budget w b) i = (Inr plan, spent) \<Longrightarrow>
    walk_set_request_budget w b spent = (w', b') \<Longrightarrow>
    walk_run c b0 (n + 1 + ap_remote_attempts plan) (l + ap_links plan) k h w' b'"
| run_send_granted: "walk_run c b0 n l k h w b \<Longrightarrow> wk_pending w = Some p \<Longrightarrow> pd_granted p \<Longrightarrow>
    plan_attempt (walk_request_budget w b) i = (Inr plan, spent) \<Longrightarrow>
    walk_set_request_budget w b spent = (w', b') \<Longrightarrow>
    walk_run c b0 n l k h w' b'"
| run_complete: "walk_run c b0 n l k h w b \<Longrightarrow> wk_pending w = Some p \<Longrightarrow>
    walk_complete w b out = Some (Inr e, w', b') \<Longrightarrow>
    walk_run c b0 n l k ((p, out) # h) w' b'"
| run_batch: "walk_run c b0 n l k h w b \<Longrightarrow> walk_complete_granted w copy = Some (e, w') \<Longrightarrow>
    walk_run c b0 n l k h w' b"

text \<open>Configurations a fill passes: the visit order lists owners, an owner's rank is one of them.\<close>

definition config_ok :: "walk_config \<Rightarrow> bool" where
  "config_ok c \<longleftrightarrow>
     wc_owners c \<le> 3 \<and>
     (case wc_rank c of
        None \<Rightarrow> order_ok (wc_order c) \<and> vo_len (wc_order c) \<le> wc_owners c
      | Some rank \<Rightarrow> rank < wc_owners c)"

text \<open>How many targets a walk has.\<close>

definition walk_bound :: "walk_config \<Rightarrow> nat" where
  "walk_bound c =
     (case wc_rank c of
        None \<Rightarrow> vo_len (wc_order c)
      | Some rank \<Rightarrow> min rank 2 + (if wc_page c then min (wc_handoff c) MAX_TARGETS else 0))"

definition walk_ok :: "walk_config \<Rightarrow> walk \<Rightarrow> bool" where
  "walk_ok c w \<longleftrightarrow>
     wk_config w = c \<and> wk_targets w = wk_targets (walk_new c) \<and> wk_count w = wk_count (walk_new c) \<and>
     (wc_rank c = None \<longrightarrow> order_ok (wk_order w) \<and> vo_len (wk_order w) = vo_len (wc_order c)) \<and>
     (wc_rank c \<noteq> None \<longrightarrow> wk_helper w \<in> {H_Unset, H_Off}) \<and>
     wk_index w \<le> walk_bound c \<and>
     (\<forall>p. wk_pending w = Some p \<longrightarrow>
        (if pd_helper p then wk_helper w = H_Used \<and> wc_rank c = None
         else wk_index w < walk_bound c \<and>
           pd_handoff p = (case walk_target w (wk_index w) of Some t \<Rightarrow> wc_owners c \<le> t | None \<Rightarrow> False)))"

lemma config_ok_reader: "config_ok c \<Longrightarrow> wc_rank c = None \<Longrightarrow> order_ok (wc_order c)"
  by (simp add: config_ok_def)

lemma order_ranks_length: "order_ok ord \<Longrightarrow> length (order_ranks ord) = vo_len ord"
  by (auto simp: order_ok_def order_ranks_def)

lemma walk_target_bound:
  assumes "walk_ok c w"
  shows "walk_target w i \<noteq> None \<longleftrightarrow> i < walk_bound c"
proof (cases "wc_rank c")
  case None
  then have "vo_len (wk_order w) = vo_len (wc_order c)" "order_ok (wk_order w)" "wk_config w = c"
    using assms by (auto simp: walk_ok_def)
  with None show ?thesis
    using order_ranks_length [of "wk_order w"]
    by (auto simp: walk_target_def order_get_def walk_bound_def)
next
  case (Some r)
  then have "wk_count w = walk_bound c" "wk_config w = c"
    using assms by (auto simp: walk_ok_def walk_new_def walk_bound_def Let_def)
  with Some show ?thesis by (auto simp: walk_target_def)
qed

lemma owner_target:
  assumes "walk_ok c w" and "wc_rank c = Some r" and "r < wc_owners c" and "i < walk_bound c"
  shows "walk_target w i = Some (if i < min r 2 then i else wc_owners c + (i - min r 2))"
proof -
  have "wk_targets w = wk_targets (walk_new c)" "wk_count w = walk_bound c" "wk_config w = c"
    using assms(1,2) by (auto simp: walk_ok_def walk_new_def walk_bound_def Let_def)
  with assms(2,4) show ?thesis
    by (auto simp: walk_target_def walk_new_def Let_def nth_append walk_bound_def min_def
        split: if_splits)
qed

lemma walk_ok_new: "config_ok c \<Longrightarrow> walk_ok c (walk_new c)"
  by (auto simp: walk_ok_def walk_new_def Let_def config_ok_def split: option.splits)

lemma order_ok_recanonical:
  "order_ok ord \<Longrightarrow> order_ok (canonical_order (length (order_ranks ord))) \<and>
     vo_len (canonical_order (length (order_ranks ord))) = vo_len ord"
  using canonical_order_ok [of "length (order_ranks ord)"] order_ranks_length [of ord]
  by (auto simp: canonical_order_def order_ok_def)

lemma walk_ok_prepared:
  assumes ok: "walk_ok c w" and prep: "prepared b w w1" and none: "wk_pending w = None"
  shows "walk_ok c w1"
proof -
  have cfg: "wk_config w1 = c" "wk_targets w1 = wk_targets (walk_new c)"
      "wk_count w1 = wk_count (walk_new c)" "wk_pending w1 = None"
    using ok prep none by (simp_all add: prepared_def walk_ok_def)
  have ords: "wk_order w1 = wk_order w \<or> wk_order w1 = canonical_order (length (order_ranks (wk_order w)))"
    using prep by (simp add: prepared_def)
  have ord: "order_ok (wk_order w1) \<and> vo_len (wk_order w1) = vo_len (wc_order c)" if "wc_rank c = None"
  proof -
    have "order_ok (wk_order w)" "vo_len (wk_order w) = vo_len (wc_order c)"
      using that ok by (simp_all add: walk_ok_def)
    with ords order_ok_recanonical [of "wk_order w"] show ?thesis by auto
  qed
  have hlp: "wk_helper w1 \<in> {H_Unset, H_Off}" if r: "wc_rank c \<noteq> None"
  proof -
    have "wk_helper w \<in> {H_Unset, H_Off}" using r ok by (simp add: walk_ok_def)
    moreover have "wk_config w = c" using ok by (simp add: walk_ok_def)
    ultimately show ?thesis
      using r prep unfolding prepared_def by (cases "wk_helper w1") auto
  qed
  have "walk_ok c (w1\<lparr>wk_index := 0\<rparr>)"
    unfolding walk_ok_def using cfg ord hlp by simp
  from walk_target_bound [OF this, of 0] have bound: "walk_target w1 0 \<noteq> None \<Longrightarrow> 1 \<le> walk_bound c"
    by simp
  have "wk_index w \<le> walk_bound c" using ok by (simp add: walk_ok_def)
  moreover have "wk_index w1 = wk_index w \<or> wk_index w1 = 1 \<and> walk_target w1 0 \<noteq> None"
    using prep unfolding prepared_def by blast
  ultimately have "wk_index w1 \<le> walk_bound c" using bound by auto
  with cfg ord hlp show ?thesis unfolding walk_ok_def by simp
qed

lemma granted_run_length:
  assumes ok: "walk_ok c w" and "granted_target w (wk_index w)"
  shows "0 < length (granted_run w) \<and> wk_index w + length (granted_run w) \<le> walk_bound c"
proof -
  let ?top = "max (wk_count w) (vo_len (wk_order w))"
  have in_bound: "granted_target w i \<Longrightarrow> i < walk_bound c" for i
    using walk_target_bound [OF ok, of i] by (auto simp: granted_target_def split: option.splits)
  have "walk_bound c \<le> ?top"
    using ok by (auto simp: walk_ok_def walk_bound_def walk_new_def Let_def split: option.splits)
  with in_bound [OF assms(2)] have "wk_index w < ?top" by simp
  then have "[wk_index w..<?top] = wk_index w # [Suc (wk_index w)..<?top]"
    by (rule upt_conv_Cons)
  then have pos: "0 < length (granted_run w)"
    using assms(2) by (simp add: granted_run_def)
  have "set (granted_run w) \<subseteq> {wk_index w..<walk_bound c}"
  proof
    fix i assume "i \<in> set (granted_run w)"
    then have "granted_target w i" "i \<in> set [wk_index w..<?top]"
      unfolding granted_run_def by (auto dest: set_takeWhileD)
    then show "i \<in> {wk_index w..<walk_bound c}" using in_bound by auto
  qed
  moreover have "distinct (granted_run w)"
    unfolding granted_run_def by (intro distinct_takeWhile) simp
  ultimately have "length (granted_run w) \<le> card {wk_index w..<walk_bound c}"
    by (metis card_mono distinct_card finite_atLeastLessThan)
  then have "wk_index w + length (granted_run w) \<le> walk_bound c"
    using in_bound [OF assms(2)] by simp
  with pos show ?thesis by blast
qed

lemma walk_ok_plan:
  assumes ok: "walk_ok c w" and none: "wk_pending w = None"
    and plan: "plan_step d w b (Inr st) w' b'"
  shows "walk_ok c w'"
  using plan
proof cases
  case (ps_probe pr p)
  then show ?thesis
    using ok walk_target_bound [OF ok, of "wk_index w"]
    by (auto simp: walk_ok_def issued_def)
next
  case (ps_helper pr p)
  then show ?thesis using ok by (auto simp: walk_ok_def issued_def)
next
  case ps_granted
  then show ?thesis using ok none granted_run_length [OF ok] by (auto simp: walk_ok_def)
next
  case ps_end
  then show ?thesis
    using ok none walk_stop_effect [OF ps_end(2)] by (simp add: walk_ok_def keeps_plan_def)
qed

lemma walk_ok_next:
  assumes "walk_ok c w" and "walk_next w b = Some (Inr st, w', b')"
  obtains w1 where "prepared b w w1" "walk_ok c w1" "plan_step (wk_helper w = H_Due) w1 b (Inr st) w' b'"
    "wk_pending w = None" "wk_pending w1 = None" "wk_batch w = 0" "\<not> wk_done w" "walk_ok c w'"
proof -
  have "wk_helper w = H_Due \<longrightarrow> wc_rank (wk_config w) = None"
    using assms(1) by (auto simp: walk_ok_def)
  from walk_next_plan [OF assms(2) this] obtain w1 where
    w1: "prepared b w w1" "plan_step (wk_helper w = H_Due) w1 b (Inr st) w' b'"
    and idle: "wk_pending w = None" "wk_batch w = 0" "\<not> wk_done w" by blast
  have ok1: "walk_ok c w1" by (rule walk_ok_prepared [OF assms(1) w1(1) idle(1)])
  have "wk_pending w1 = None" using w1(1) idle by (simp add: prepared_def)
  from walk_ok_plan [OF ok1 this w1(2)] this w1 ok1 idle show ?thesis using that by blast
qed

lemma walk_ok_spend:
  assumes "walk_ok c w" and "walk_set_request_budget w b spent = (w', b')"
  shows "walk_ok c w'"
  using assms by (auto simp: walk_ok_def walk_set_request_budget_def split: option.splits)

lemma walk_ok_complete:
  assumes "walk_ok c w" and "wk_pending w = Some p" and "completes w p out e w'"
  shows "walk_ok c w'"
  using assms by (auto simp: walk_ok_def completes_def split: if_splits)

lemma walk_ok_batch:
  assumes "walk_ok c w" and "walk_complete_granted w copy = Some (e, w')"
  shows "walk_ok c w'"
  using assms by (auto simp: walk_ok_def walk_complete_granted_def split: if_splits)

lemma walk_run_ok:
  assumes "config_ok c" and "walk_run c b0 n l k h w b"
  shows "walk_ok c w"
  using assms(2)
proof (induction rule: walk_run.induct)
  case run_new
  show ?case by (rule walk_ok_new [OF assms(1)])
next
  case (run_next n l k h w b st w' b')
  from run_next.IH run_next.hyps(2) show ?case by (rule walk_ok_next)
next
  case (run_send n l k h w b p i plan spent w' b')
  from run_send.IH run_send.hyps(5) show ?case by (rule walk_ok_spend)
next
  case (run_send_granted n l k h w b p i plan spent w' b')
  from run_send_granted.IH run_send_granted.hyps(5) show ?case by (rule walk_ok_spend)
next
  case (run_complete n l k h w b p out e w' b')
  from walk_complete_completes [OF run_complete.hyps(3,2)] walk_ok_complete run_complete
  show ?case by blast
next
  case (run_batch n l k h w b copy e w')
  from run_batch.IH run_batch.hyps(2) show ?case by (rule walk_ok_batch)
qed

subsection \<open>Credits over a run\<close>

definition child_credit :: "(budget \<Rightarrow> nat) \<Rightarrow> walk \<Rightarrow> nat" where
  "child_credit f w =
     (case wk_pending w of
        None \<Rightarrow> 0
      | Some p \<Rightarrow> (case pd_bounded p of
                     None \<Rightarrow> 0 | Some child \<Rightarrow> if pd_granted p then 0 else f child))"

lemma plan_attempt_links:
  assumes "plan_attempt b i = (Inr plan, spent)"
  shows "route_links b \<noteq> 0"
proof
  assume "route_links b = 0"
  with assms show False by (simp add: plan_attempt_def)
qed

lemma plan_attempt_started:
  assumes "plan_attempt b i = (Inr plan, spent)"
  obtains overall b1 where "route_links b \<noteq> 0"
    "begin_peer_attempt b (ai_now i) (ai_caller_deadline i) (route_links b) = Inr (overall, b1)"
proof -
  have pos: "route_links b \<noteq> 0"
    using plan_attempt_links [OF assms(1)] .
  show ?thesis
  proof (cases "begin_peer_attempt b (ai_now i) (ai_caller_deadline i) (route_links b)")
    case (Inl e)
    with assms pos show ?thesis by (simp add: plan_attempt_def Let_def)
  next
    case (Inr ob)
    with pos that show ?thesis by (cases ob) blast
  qed
qed

text \<open>The plan in full, given what opening the attempt and sending credits along returned.\<close>

lemma plan_attempt_planned:
  assumes "plan_attempt b i = (Inr plan, spent)"
    and "begin_peer_attempt b (ai_now i) (ai_caller_deadline i) (route_links b) = Inr (overall, b1)"
  obtains a where "(if ai_mode i = Acquire
      then send_remote b1 (if ai_route i = FundedRoute then b_attempts b1
             else div_ceil (b_attempts b1) (max (ai_opportunities i) 1))
      else Inr (0, b1)) = Inr (a, spent)"
    "ap_remote_attempts plan = a" "ap_links plan = route_links b" "ap_overall plan = overall"
    "ap_share plan = ai_now i + (overall - ai_now i) div max (ai_opportunities i) 1"
    "ap_attempt_end plan = ai_now i + min (ai_attempt_timeout i)
       (if ai_route i = DirectHedge then (overall - ai_now i) div 3 else overall - ai_now i)"
    "ap_idle plan = min (ap_share plan - ai_now i) (ap_attempt_end plan - ai_now i)"
    "ap_complete_by plan \<in> {ap_attempt_end plan, min (ap_attempt_end plan)
       (overall - min (ap_share plan - ai_now i) ((overall - ap_share plan) div 2))}"
    "ap_observation plan = max (min (ap_share plan - ai_now i) ((ap_attempt_end plan - ai_now i) div 3)) 1"
proof -
  have pos: "route_links b \<noteq> 0"
    using plan_attempt_links [OF assms(1)] .
  let ?sent = "if ai_mode i = Acquire
    then send_remote b1 (if ai_route i = FundedRoute then b_attempts b1
           else div_ceil (b_attempts b1) (max (ai_opportunities i) 1))
    else Inr (0, b1)"
  let ?now = "ai_now i"
  let ?share = "?now + (overall - ?now) div max (ai_opportunities i) 1"
  let ?stop = "?now + min (ai_attempt_timeout i)
    (if ai_route i = DirectHedge then (overall - ?now) div 3 else overall - ?now)"
  let ?reserve = "min (?share - ?now) ((overall - ?share) div 2)"
  show ?thesis
  proof (cases ?sent)
    case (Inl e)
    then show ?thesis
      using assms(1) unfolding plan_attempt_def Let_def assms(2) sum.case prod.case Inl
      by (simp only: pos if_False prod.inject sum.distinct simp_thms)
  next
    case (Inr r)
    obtain a b2 where r: "r = (a, b2)" by force
    let ?plan = "\<lparr>ap_links = route_links b, ap_overall = overall, ap_share = ?share,
      ap_attempt_end = ?stop, ap_idle = min (?share - ?now) (?stop - ?now), ap_remote_attempts = a,
      ap_complete_by = (if ai_opportunities i > 1 \<and> b_attempts b2 > 0 \<and>
          b_links b2 \<ge> ai_failure_links i \<and> ?reserve \<noteq> 0
        then min ?stop (overall - ?reserve) else ?stop),
      ap_observation = max (min (?share - ?now) ((?stop - ?now) div 3)) 1\<rparr>"
    have "(Inr plan, spent) = plan_attempt b i" using assms(1) by simp
    also have "\<dots> = (Inr ?plan, b2)"
      unfolding plan_attempt_def Let_def assms(2) sum.case prod.case Inr r by (simp only: pos if_False)
    finally have eqs: "plan = ?plan" "spent = b2" unfolding prod.inject sum.inject by blast+
    show ?thesis
      by (rule that [of a], simp_all only: eqs Inr r attempt_plan.select_convs)
        (simp only: insert_iff split: if_split, blast)
  qed
qed

lemma plan_attempt_credits:
  assumes "plan_attempt b i = (Inr plan, spent)"
  shows "b_attempts b = b_attempts spent + 1 + ap_remote_attempts plan \<and>
    b_links b = b_links spent + ap_links plan"
proof -
  obtain overall b1 where started: "begin_peer_attempt b (ai_now i) (ai_caller_deadline i) (route_links b) =
      Inr (overall, b1)"
    using plan_attempt_started [OF assms] by blast
  from plan_attempt_planned [OF assms started] obtain a where
    sent: "(if ai_mode i = Acquire
      then send_remote b1 (if ai_route i = FundedRoute then b_attempts b1
             else div_ceil (b_attempts b1) (max (ai_opportunities i) 1))
      else Inr (0, b1)) = Inr (a, spent)"
    and plan: "ap_remote_attempts plan = a" "ap_links plan = route_links b" by blast
  have "b_attempts b1 = b_attempts spent + a \<and> b_links b1 = b_links spent"
    using sent by (cases "ai_mode i = Acquire") (auto simp: send_remote_ok_iff)
  moreover have "b_attempts b = b_attempts b1 + 1 \<and> b_links b = b_links b1 + route_links b"
    using started [unfolded begin_peer_attempt_ok_iff] by auto
  ultimately show ?thesis using plan by auto
qed

lemma plan_step_credits:
  assumes "plan_step d w b (Inr st) w' b'" and "wk_pending w = None"
  shows "b_attempts b' + child_credit b_attempts w' = b_attempts b \<and>
    b_links b' + child_credit b_links w' = b_links b"
  using assms
  by cases
    (auto simp: issued_def child_credit_def split_off_def keeps_plan_def
      dest: walk_stop_effect split: option.splits if_splits)

lemma spend_credits:
  assumes "wk_pending w = Some p" and "\<not> pd_granted p"
    and "plan_attempt (walk_request_budget w b) i = (Inr plan, spent)"
    and "walk_set_request_budget w b spent = (w', b')"
  shows "b_attempts b + child_credit b_attempts w =
      b_attempts b' + child_credit b_attempts w' + 1 + ap_remote_attempts plan \<and>
    b_links b + child_credit b_links w = b_links b' + child_credit b_links w' + ap_links plan"
  using plan_attempt_credits [OF assms(3)] assms(1,2,4)
  by (auto simp: walk_request_budget_def walk_set_request_budget_def child_credit_def split: option.splits)

lemma spend_granted_credits:
  assumes "wk_pending w = Some p" and "pd_granted p" and "pd_bounded p \<noteq> None"
    and "walk_set_request_budget w b spent = (w', b')"
  shows "b' = b \<and> child_credit f w' = child_credit f w"
  using assms by (auto simp: walk_set_request_budget_def child_credit_def split: option.splits)

lemma reunite_pending_credits:
  assumes "reunite_pending p b = Inr b1" and "wk_pending w = Some p"
  shows "b_attempts b1 = b_attempts b + child_credit b_attempts w \<and>
    b_links b1 = b_links b + child_credit b_links w"
  using assms by (auto simp: reunite_pending_def child_credit_def reunite_ok_iff split: option.splits if_splits)

lemma note_route_failure_credits [simp]:
  "b_attempts (note_route_failure b) = b_attempts b" "b_links (note_route_failure b) = b_links b"
  by (simp_all add: note_route_failure_def)

text \<open>What a pending probe carries: a granted one its grant; rank 0's probe is an owner's ordinary one.\<close>

definition pending_ok :: "walk \<Rightarrow> bool" where
  "pending_ok w \<longleftrightarrow>
     (\<forall>p. wk_pending w = Some p \<longrightarrow>
        (pd_granted p \<longrightarrow> pd_bounded p \<noteq> None) \<and> (pd_rank0 p \<longrightarrow> \<not> pd_helper p \<and> \<not> pd_handoff p))"

lemma pending_ok_plan:
  assumes "plan_step d w b (Inr st) w' b'" and "wk_pending w = None"
  shows "pending_ok w'"
  using assms by cases (auto simp: pending_ok_def issued_def keeps_plan_def dest: walk_stop_effect)

lemma set_request_pending:
  assumes "walk_set_request_budget w b spent = (w', b')" and "wk_pending w = Some p"
  obtains x where "wk_pending w' = Some (p\<lparr>pd_bounded := x\<rparr>)" "(x = None) = (pd_bounded p = None)"
    "wk_index w' = wk_index w" "wk_helper w' = wk_helper w" "wk_done w' = wk_done w"
    "wk_evidence w' = wk_evidence w" "wk_rank0_unanswered w' = wk_rank0_unanswered w"
proof (cases "pd_bounded p")
  case None
  with assms that [of None] show ?thesis by (simp add: walk_set_request_budget_def)
next
  case (Some child)
  with assms that [of "Some spent"] show ?thesis by (auto simp: walk_set_request_budget_def)
qed

lemma pending_ok_run:
  assumes "config_ok c" and "walk_run c b0 n l k h w b"
  shows "pending_ok w"
  using assms(2)
proof (induction rule: walk_run.induct)
  case run_new
  show ?case by (simp add: pending_ok_def walk_new_def Let_def)
next
  case (run_next n l k h w b st w' b')
  from walk_ok_next [OF walk_run_ok [OF assms(1) run_next.hyps(1)] run_next.hyps(2)] obtain w1 where
    "plan_step (wk_helper w = H_Due) w1 b (Inr st) w' b'" "wk_pending w1 = None" by blast
  then show ?case by (rule pending_ok_plan)
next
  case (run_send n l k h w b p i plan spent w' b')
  obtain x where "wk_pending w' = Some (p\<lparr>pd_bounded := x\<rparr>)" "(x = None) = (pd_bounded p = None)"
    by (rule set_request_pending [OF run_send.hyps(5,2)])
  with run_send.IH run_send.hyps(2) show ?case by (auto simp: pending_ok_def)
next
  case (run_send_granted n l k h w b p i plan spent w' b')
  obtain x where "wk_pending w' = Some (p\<lparr>pd_bounded := x\<rparr>)" "(x = None) = (pd_bounded p = None)"
    by (rule set_request_pending [OF run_send_granted.hyps(5,2)])
  with run_send_granted.IH run_send_granted.hyps(2) show ?case by (auto simp: pending_ok_def)
next
  case (run_complete n l k h w b p out e w' b')
  from walk_complete_completes [OF run_complete.hyps(3,2)]
  show ?case by (simp add: completes_def pending_ok_def)
next
  case (run_batch n l k h w b copy e w')
  then show ?case by (cases copy) (auto simp: pending_ok_def walk_complete_granted_def split: if_split_asm)
qed

lemma walk_run_credits:
  assumes "config_ok c" and "walk_run c b0 n l k h w b"
  shows "n + b_attempts b + child_credit b_attempts w = b_attempts b0 \<and>
    l + b_links b + child_credit b_links w = b_links b0"
  using assms(2)
proof (induction rule: walk_run.induct)
  case run_new
  show ?case by (simp add: child_credit_def walk_new_def Let_def)
next
  case (run_next n l k h w b st w' b')
  have ok: "walk_ok c w" by (rule walk_run_ok [OF assms(1) run_next.hyps(1)])
  from walk_ok_next [OF ok run_next.hyps(2)] obtain w1 where
    w1: "plan_step (wk_helper w = H_Due) w1 b (Inr st) w' b'" "wk_pending w1 = None" "wk_pending w = None" by blast
  from plan_step_credits [OF w1(1,2)] run_next.IH w1(3) show ?case by (simp add: child_credit_def)
next
  case (run_send n l k h w b p i plan spent w' b')
  from spend_credits [OF run_send.hyps(2-5)] run_send.IH show ?case by linarith
next
  case (run_send_granted n l k h w b p i plan spent w' b')
  have "pd_bounded p \<noteq> None"
    using pending_ok_run [OF assms(1) run_send_granted.hyps(1)] run_send_granted.hyps(2,3)
    by (simp add: pending_ok_def)
  from spend_granted_credits [OF run_send_granted.hyps(2,3) this run_send_granted.hyps(5)]
    run_send_granted.IH show ?case by simp
next
  case (run_complete n l k h w b p out e w' b')
  from walk_complete_completes [OF run_complete.hyps(3,2)] obtain b1 where
    b1: "reunite_pending p b = Inr b1" "b' = b1 \<or> b' = note_route_failure b1" and "wk_pending w' = None"
    by (auto simp: completes_def)
  with reunite_pending_credits [OF b1(1) run_complete.hyps(2)] run_complete.IH
  show ?case by (auto simp: child_credit_def)
next
  case (run_batch n l k h w b copy e w')
  then show ?case by (auto simp: child_credit_def walk_complete_granted_def split: if_splits)
qed

subsection \<open>How many probes a run plans\<close>

definition probe_bound :: "walk \<Rightarrow> nat" where
  "probe_bound w =
     wk_index w + (case wk_pending w of Some p \<Rightarrow> if pd_helper p then 0 else 1 | None \<Rightarrow> 0) +
     (if wk_helper w = H_Used then 1 else 0)"

lemma plan_step_probe_bound:
  assumes plan: "plan_step (wk_helper w = H_Due) w1 b (Inr st) w' b'" and prep: "prepared b w w1"
    and none: "wk_pending w = None" "wk_pending w1 = None"
  shows "probe_bound w + step_probes st \<le> probe_bound w'"
proof -
  have w1: "wk_index w \<le> wk_index w1" "wk_helper w = H_Used \<Longrightarrow> wk_helper w1 = H_Used"
    using prep unfolding prepared_def by linarith+
  show ?thesis
    using plan
  proof cases
    case (ps_probe pr p)
    then show ?thesis using w1 none by (simp add: probe_bound_def)
  next
    case (ps_helper pr p)
    then show ?thesis using w1 none by (simp add: probe_bound_def)
  next
    case ps_granted
    then show ?thesis using w1 none by (simp add: probe_bound_def granted_probes_def)
  next
    case ps_end
    then show ?thesis
      using w1 none walk_stop_effect [OF ps_end(2)] by (auto simp: probe_bound_def keeps_plan_def)
  qed
qed

lemma walk_run_probes:
  assumes "config_ok c" and "walk_run c b0 n l k h w b"
  shows "k \<le> probe_bound w"
  using assms(2)
proof (induction rule: walk_run.induct)
  case run_new
  show ?case by simp
next
  case (run_next n l k h w b st w' b')
  from walk_ok_next [OF walk_run_ok [OF assms(1) run_next.hyps(1)] run_next.hyps(2)] obtain w1 where
    "plan_step (wk_helper w = H_Due) w1 b (Inr st) w' b'" "prepared b w w1" "wk_pending w = None"
    "wk_pending w1 = None" by blast
  from plan_step_probe_bound [OF this] run_next.IH show ?case by linarith
next
  case (run_send n l k h w b p i plan spent w' b')
  then show ?case by (auto simp: probe_bound_def walk_set_request_budget_def split: option.splits)
next
  case (run_send_granted n l k h w b p i plan spent w' b')
  then show ?case by (auto simp: probe_bound_def walk_set_request_budget_def split: option.splits)
next
  case (run_complete n l k h w b p out e w' b')
  from walk_complete_completes [OF run_complete.hyps(3,2)] run_complete.IH run_complete.hyps(2)
  show ?case by (auto simp: completes_def probe_bound_def split: if_splits)
next
  case (run_batch n l k h w b copy e w')
  then show ?case by (auto simp: probe_bound_def walk_complete_granted_def split: if_splits)
qed

lemma probe_bound_walk_bound:
  assumes "walk_ok c w"
  shows "probe_bound w \<le> walk_bound c + (if wc_rank c = None then 1 else 0)"
  using assms by (auto simp: walk_ok_def probe_bound_def split: option.splits if_splits)

end
