(* ===== verification/Racer_Walk_Props.thy ===== *)
theory Racer_Walk_Props
  imports Racer_Walk_Runs "HOL-Library.Sublist"
begin

section \<open>What a candidate walk guarantees\<close>

text \<open>
  The properties of whole walks: exact conservation of the read's credits, a bound on the probes, origin
  authority, which targets are asked for what, the times of one exchange, the remaining walk and the
  handoff target lists.
\<close>

subsection \<open>Evidence\<close>

lemma prepared_index:
  "prepared b w w1 \<Longrightarrow> \<not> ct_primary_consumed (wc_continuation (wk_config w)) \<Longrightarrow> wk_index w1 = wk_index w"
  unfolding prepared_def by blast

lemma owner_handoff:
  assumes "walk_ok c w" and "wc_rank c = Some r" and "r < wc_owners c" and "i < walk_bound c"
    and "walk_target w i = Some t"
  shows "(wc_owners c \<le> t) = (min r 2 \<le> i)"
  using owner_target [OF assms(1-4)] assms(3,5) by (auto split: if_splits)

lemma evidence_next:
  assumes conf: "config_ok c" "wc_rank c = Some r" "\<not> ct_primary_consumed (wc_continuation c)"
    and ok: "walk_ok c w" and nxt: "walk_next w b = Some (Inr st, w', b')"
    and inv: "length (wk_evidence w) = min (wk_index w) (min r 2)" and live: "\<not> wk_done w'"
  shows "length (wk_evidence w') = min (wk_index w') (min r 2)"
proof -
  from walk_ok_next [OF ok nxt] obtain w1 where w1: "prepared b w w1" "walk_ok c w1"
    "plan_step (wk_helper w = H_Due) w1 b (Inr st) w' b'" by blast
  have cfg: "wk_config w = c" "r < wc_owners c" using ok conf by (auto simp: walk_ok_def config_ok_def)
  have ev: "wk_evidence w1 = wk_evidence w" using w1(1) by (simp add: prepared_def)
  have ix: "wk_index w1 = wk_index w" using prepared_index [OF w1(1)] conf(3) cfg by simp
  show ?thesis
    using w1(3)
  proof cases
    case ps_granted
    then obtain t where t: "walk_target w1 (wk_index w1) = Some t" "wc_owners (wk_config w1) \<le> t"
      by (auto simp: granted_target_def split: option.splits)
    have "wk_config w1 = c" using w1(2) by (simp add: walk_ok_def)
    moreover have "wk_index w1 < walk_bound c" using walk_target_bound [OF w1(2)] t by auto
    ultimately have "min r 2 \<le> wk_index w1" using owner_handoff [OF w1(2) conf(2) cfg(2) _ t(1)] t(2) by simp
    then show ?thesis using ps_granted inv ev ix by simp
  next
    case ps_end
    with walk_stop_effect [OF ps_end(2)] live show ?thesis by simp
  qed (use inv ev ix in simp_all)
qed

lemma evidence_complete:
  assumes conf: "config_ok c" "wc_rank c = Some r"
    and ok: "walk_ok c w" and pend: "wk_pending w = Some p" and fin: "completes w p out e w'"
    and inv: "length (wk_evidence w) = min (wk_index w) (min r 2)" and live: "\<not> wk_done w'"
  shows "length (wk_evidence w') = min (wk_index w') (min r 2)"
proof -
  have p: "\<not> pd_helper p" "wk_index w < walk_bound c"
    "pd_handoff p = (case walk_target w (wk_index w) of Some t \<Rightarrow> wc_owners c \<le> t | None \<Rightarrow> False)"
    using ok pend conf(2) by (auto simp: walk_ok_def split: if_splits)
  have "r < wc_owners c" using conf by (auto simp: config_ok_def)
  moreover obtain t where t: "walk_target w (wk_index w) = Some t"
    using walk_target_bound [OF ok] p(2) by blast
  ultimately have "pd_handoff p = (min r 2 \<le> wk_index w)"
    using owner_handoff [OF ok conf(2) _ p(2)] p(3) by simp
  moreover have "e = None" using fin live by (auto simp: completes_def)
  ultimately show ?thesis using fin p(1) inv by (auto simp: completes_def)
qed

lemma walk_run_evidence:
  assumes conf: "config_ok c" "wc_rank c = Some r" "\<not> ct_primary_consumed (wc_continuation c)"
    and "walk_run c b0 n l k h w b"
  shows "\<not> wk_done w \<longrightarrow> length (wk_evidence w) = min (wk_index w) (min r 2)"
  using assms(4)
proof (induction rule: walk_run.induct)
  case run_new
  show ?case by (simp add: walk_new_def Let_def)
next
  case (run_next n l k h w b st w' b')
  have ok: "walk_ok c w" by (rule walk_run_ok [OF conf(1) run_next.hyps(1)])
  from walk_ok_next [OF ok run_next.hyps(2)] have "\<not> wk_done w" by blast
  with run_next.IH have "length (wk_evidence w) = min (wk_index w) (min r 2)" by blast
  from evidence_next [OF conf ok run_next.hyps(2) this] show ?case by blast
next
  case (run_send n l k h w b p i plan spent w' b')
  from set_request_pending [OF run_send.hyps(5,2)] run_send.IH show ?case by metis
next
  case (run_send_granted n l k h w b p i plan spent w' b')
  from set_request_pending [OF run_send_granted.hyps(5,2)] run_send_granted.IH show ?case by metis
next
  case (run_complete n l k h w b p out e w' b')
  have ok: "walk_ok c w" by (rule walk_run_ok [OF conf(1) run_complete.hyps(1)])
  from walk_complete_completes [OF run_complete.hyps(3,2)] have fin: "completes w p out e w'" by blast
  show ?case
  proof
    assume live: "\<not> wk_done w'"
    with fin have "\<not> wk_done w" by (simp add: completes_def)
    with run_complete.IH have "length (wk_evidence w) = min (wk_index w) (min r 2)" by blast
    from evidence_complete [OF conf(1,2) ok run_complete.hyps(2) fin this live]
    show "length (wk_evidence w') = min (wk_index w') (min r 2)" .
  qed
next
  case (run_batch n l k h w b copy e w')
  then show ?case by (cases copy) (auto simp: walk_complete_granted_def split: if_split_asm)
qed

text \<open>The flag that keeps an owner from the origin is exactly that some probe of rank 0 left it the fetch.\<close>

definition rank0_left :: "walk_config \<Rightarrow> (pending \<times> outcome) list \<Rightarrow> bool" where
  "rank0_left c h \<longleftrightarrow> list_ex (\<lambda>(p, out). pd_rank0 p \<and> leaves_rank0 (wc_rank0 c) out) h"

lemma walk_run_unanswered:
  assumes conf: "config_ok c" and "walk_run c b0 n l k h w b"
  shows "wk_rank0_unanswered w = rank0_left c h"
  using assms(2)
proof (induction rule: walk_run.induct)
  case run_new
  show ?case by (simp add: walk_new_def Let_def rank0_left_def)
next
  case (run_next n l k h w b st w' b')
  from walk_ok_next [OF walk_run_ok [OF conf run_next.hyps(1)] run_next.hyps(2)] obtain w1 where
    w1: "prepared b w w1" "plan_step (wk_helper w = H_Due) w1 b (Inr st) w' b'" by blast
  from w1(2) have "wk_rank0_unanswered w' = wk_rank0_unanswered w1"
    by cases (auto dest: walk_stop_effect)
  with w1(1) run_next.IH show ?case by (simp add: prepared_def)
next
  case (run_send n l k h w b p i plan spent w' b')
  from set_request_pending [OF run_send.hyps(5,2)] run_send.IH show ?case by metis
next
  case (run_send_granted n l k h w b p i plan spent w' b')
  from set_request_pending [OF run_send_granted.hyps(5,2)] run_send_granted.IH show ?case by metis
next
  case (run_complete n l k h w b p out e w' b')
  have cfg: "wk_config w = c" using walk_run_ok [OF conf run_complete.hyps(1)] by (simp add: walk_ok_def)
  have "pd_rank0 p \<longrightarrow> \<not> pd_helper p \<and> \<not> pd_handoff p"
    using pending_ok_run [OF conf run_complete.hyps(1)] run_complete.hyps(2) by (simp add: pending_ok_def)
  then have "wk_rank0_unanswered w' = (wk_rank0_unanswered w \<or> pd_rank0 p \<and> leaves_rank0 (wc_rank0 c) out)"
    using walk_complete_completes [OF run_complete.hyps(3,2)] cfg
    by (cases out) (auto simp: completes_def)
  with run_complete.IH show ?case by (auto simp: rank0_left_def)
next
  case (run_batch n l k h w b copy e w')
  then show ?case by (cases copy) (auto simp: walk_complete_granted_def split: if_split_asm)
qed

lemma walk_next_end:
  assumes "config_ok c" and "walk_run c b0 n l k h w b" and "walk_next w b = Some (Inr (Step_End e), w', b')"
  obtains w1 where "prepared b w w1" "walk_ok c w1" "walk_over w1" "e = walk_finish w1" "b' = b" "wk_done w'"
    "\<not> wk_done w"
proof -
  from walk_ok_next [OF walk_run_ok [OF assms(1,2)] assms(3)] obtain w1 where
    w1: "prepared b w w1" "walk_ok c w1" "plan_step (wk_helper w = H_Due) w1 b (Inr (Step_End e)) w' b'"
    "\<not> wk_done w" by blast
  from w1(3) show ?thesis
  proof cases
    case ps_end
    with walk_stop_effect [OF ps_end(2)] w1 that show ?thesis by auto
  qed
qed

lemma owner_over:
  assumes "walk_ok c w" and "wc_rank c = Some rank" and "rank < wc_owners c"
    and "walk_over w" and "\<not> ct_bounded_routes (wc_continuation c)"
  shows "min rank 2 \<le> wk_index w"
proof (cases "walk_target w (wk_index w)")
  case None
  then have "\<not> wk_index w < walk_bound c" using walk_target_bound [OF assms(1)] by blast
  then show ?thesis using assms(2) by (simp add: walk_bound_def)
next
  case (Some t)
  then have "wk_index w < walk_bound c" using walk_target_bound [OF assms(1)] by blast
  moreover have "wk_config w = c" using assms(1) by (simp add: walk_ok_def)
  then have "wc_owners c \<le> t" using assms(2,4,5) Some by (simp add: walk_over_def)
  ultimately show ?thesis using owner_handoff [OF assms(1-3) _ Some] by simp
qed

lemma origin_end:
  assumes conf: "config_ok c" "\<not> ct_primary_consumed (wc_continuation c)"
      "\<not> ct_bounded_routes (wc_continuation c)"
    and run: "walk_run c b0 n l k h w b"
    and fin: "walk_next w b = Some (Inr (Step_End (End_Origin rank ev)), w', b')"
  shows "wc_rank c = Some rank \<and> rank < 3 \<and> length ev = rank \<and> \<not> rank0_left c h"
proof -
  from walk_next_end [OF conf(1) run fin] obtain w1 where
    w1: "prepared b w w1" "walk_ok c w1" "walk_over w1" "End_Origin rank ev = walk_finish w1" "\<not> wk_done w"
    by blast
  have cfg: "wk_config w1 = c" "wk_config w = c"
    using w1(1,2) walk_run_ok [OF conf(1) run] by (simp_all add: walk_ok_def)
  then have rank: "wc_rank c = Some rank" and ev: "ev = wk_evidence w1" and "\<not> wk_rank0_unanswered w1"
    using w1(4) by (auto simp: walk_finish_def split: option.splits if_splits)
  then have quiet: "\<not> rank0_left c h"
    using w1(1) walk_run_unanswered [OF conf(1) run] by (simp add: prepared_def)
  have own: "rank < wc_owners c" "wc_owners c \<le> 3" using conf(1) rank by (auto simp: config_ok_def)
  have ix: "wk_index w1 = wk_index w" "wk_evidence w1 = wk_evidence w"
    using prepared_index [OF w1(1)] conf(2) cfg w1(1) by (simp_all add: prepared_def)
  have "min rank 2 \<le> wk_index w1"
    using owner_over [OF w1(2) rank own(1) w1(3) conf(3)] .
  moreover have "length ev = min (wk_index w) (min rank 2)"
    using walk_run_evidence [OF conf(1) rank conf(2) run] w1(5) ev ix by simp
  ultimately show ?thesis using rank quiet own ix by auto
qed

subsection \<open>Targets and modes\<close>

lemma owner_probe:
  assumes conf: "config_ok c" "wc_rank c = Some r"
    and run: "walk_run c b0 n l k h w b"
    and nxt: "walk_next w b = Some (Inr (Step_Probe pr), w', b')"
  shows "(pr_canonical pr < r \<or> wc_owners c \<le> pr_canonical pr) \<and>
    (pr_mode pr = Acquire \<longrightarrow> pr_canonical pr = 0 \<and> 0 < r)"
proof -
  from walk_ok_next [OF walk_run_ok [OF conf(1) run] nxt] obtain w1 where
    w1: "walk_ok c w1" "plan_step (wk_helper w = H_Due) w1 b (Inr (Step_Probe pr)) w' b'" by blast
  have cfg: "wk_config w1 = c" using w1(1) by (simp add: walk_ok_def)
  have own: "r < wc_owners c" using conf by (auto simp: config_ok_def)
  have iss: "\<exists>p. issued w1 b pr p b' \<and> \<not> pd_helper p"
    using w1(2)
  proof cases
    case (ps_helper p)
    then show ?thesis using conf(2) cfg by (simp add: issued_def)
  next
    case ps_end
    with walk_stop_effect [OF ps_end(2)] show ?thesis by simp
  qed auto
  then obtain p where p: "issued w1 b pr p b'" "\<not> pd_helper p" by blast
  then have t: "walk_target w1 (wk_index w1) = Some (pr_canonical pr)" by (simp add: issued_def)
  then have "wk_index w1 < walk_bound c" using walk_target_bound [OF w1(1)] by blast
  from owner_target [OF w1(1) conf(2) own this] t
  have "pr_canonical pr < r \<or> wc_owners c \<le> pr_canonical pr" by (auto split: if_splits)
  moreover have "pr_mode pr = Acquire \<longrightarrow> pr_canonical pr = 0 \<and> 0 < r"
    using p conf(2) cfg by (auto simp: issued_def)
  ultimately show ?thesis by blast
qed

lemma granted_nonempty:
  assumes "walk_ok c w" and "walk_next w b = Some (Inr (Step_Granted ps), w', b')"
  shows "ps \<noteq> []"
proof -
  from walk_ok_next [OF assms] obtain w1 where
    w1: "walk_ok c w1" "plan_step (wk_helper w = H_Due) w1 b (Inr (Step_Granted ps)) w' b'" by blast
  from w1(2) show ?thesis
  proof cases
    case ps_granted
    with granted_run_length [OF w1(1)] show ?thesis by (auto simp: granted_probes_def)
  next
    case ps_end
    with walk_stop_effect [OF ps_end(2)] show ?thesis by simp
  qed
qed

subsection \<open>An owner's walk, step by step\<close>

text \<open>
  The owner of rank 1 asks rank 0 to acquire the page, learns that it has no copy, and ends with the
  authority to ask the origin.
\<close>

definition example_owner :: walk_config where
  "example_owner =
     \<lparr>wc_rank = Some 1, wc_owners = 3, wc_order = canonical_order 3, wc_page = True,
      wc_continuation = continuation_default, wc_handoff = 0, wc_previous = 0, wc_helper = False,
      wc_lineage = [0, 0, 0], wc_granted = 0, wc_parallel = False, wc_rank0 = R0_Unknown\<rparr>"

definition example_budget :: budget where
  "example_budget = budget_new 1000 5 20"

definition example_inputs :: attempt_inputs where
  "example_inputs =
     \<lparr>ai_now = 10, ai_caller_deadline = 900, ai_opportunities = 2, ai_route = FundedRoute,
      ai_mode = Acquire, ai_attempt_timeout = 500, ai_failure_links = 4\<rparr>"

definition example_left :: budget where
  "example_left = budget_new 1000 3 16"

definition example_child :: budget where
  "example_child = budget_new 1000 2 4"

definition example_used :: budget where
  "example_used = \<lparr>b_deadline = 1000, b_attempts = 0, b_links = 0, b_charged = 4,
     b_failed_route = False, b_remote_sent = 1\<rparr>"

definition example_pending :: "budget \<Rightarrow> pending" where
  "example_pending child = \<lparr>pd_bounded = Some child, pd_handoff = False, pd_delegated = True,
     pd_rank0 = True, pd_previous = False, pd_helper = False, pd_granted = False\<rparr>"

definition example_walk :: "nat \<Rightarrow> probe_outcome list \<Rightarrow> pending option \<Rightarrow> walk" where
  "example_walk index evidence p =
     \<lparr>wk_config = example_owner, wk_order = canonical_order 1, wk_targets = [0], wk_count = 1,
      wk_batch = 0, wk_index = index, wk_evidence = evidence, wk_saw_transient = False,
      wk_saw_version = False, wk_funding = False, wk_pending = p, wk_done = False, wk_helper = H_Off,
      wk_rank0_unanswered = False, wk_saw_busy = False\<rparr>"

definition example_probe :: probe where
  "example_probe = \<lparr>pr_index = 0, pr_canonical = 0, pr_mode = Acquire, pr_opportunities = 2,
    pr_route = FundedRoute, pr_previous = False\<rparr>"

definition example_plan :: attempt_plan where
  "example_plan = \<lparr>ap_links = 4, ap_overall = 900, ap_share = 455, ap_attempt_end = 510, ap_idle = 445,
     ap_remote_attempts = 1, ap_complete_by = 510, ap_observation = 166\<rparr>"

lemma example_config_ok: "config_ok example_owner"
  by code_simp

lemma example_next:
  "walk_next (walk_new example_owner) example_budget =
     Some (Inr (Step_Probe example_probe), example_walk 0 [] (Some (example_pending example_child)),
       example_left)"
  by code_simp

lemma example_send: "plan_attempt example_child example_inputs = (Inr example_plan, example_used)"
  by (simp add: plan_attempt_def begin_peer_attempt_def send_remote_def route_links_def example_child_def
      example_inputs_def budget_new_def example_plan_def example_used_def Let_def checked_sub_def sat_add_def
      NORMAL_ROUTE_LINKS_def div_ceil_def flip: numeral_2_eq_2)

lemma example_complete:
  "walk_complete (example_walk 0 [] (Some (example_pending example_used))) example_left (Out_Probe CopyMiss) =
     Some (Inr None, example_walk 1 [CopyMiss] None, example_left)"
  by (simp add: walk_complete_def example_walk_def example_pending_def reunite_pending_def reunite_def
      example_left_def example_used_def budget_new_def checked_add_def walk_normalize_def
      walk_note_overload_def walk_owner_outcome_def push_evidence_def transient_def route_failed_def Let_def)

lemma example_end:
  "walk_next (example_walk 1 [CopyMiss] None) example_left =
     Some (Inr (Step_End (End_Origin 1 [CopyMiss])), (example_walk 1 [] None)\<lparr>wk_done := True\<rparr>,
       example_left)"
  by code_simp

lemma example_run_sent:
  "walk_run example_owner example_budget 2 4 1 []
     (example_walk 0 [] (Some (example_pending example_used))) example_left"
proof -
  let ?w = "example_walk 0 [] (Some (example_pending example_child))"
  have "walk_run example_owner example_budget 0 0 1 [] ?w example_left"
    using run_next [OF run_new example_next] by simp
  moreover have "wk_pending ?w = Some (example_pending example_child)"
    "\<not> pd_granted (example_pending example_child)"
    by (simp_all add: example_walk_def example_pending_def)
  moreover have "plan_attempt (walk_request_budget ?w example_left) example_inputs =
      (Inr example_plan, example_used)"
    using example_send by (simp add: walk_request_budget_def example_walk_def example_pending_def)
  moreover have "walk_set_request_budget ?w example_left example_used =
      (example_walk 0 [] (Some (example_pending example_used)), example_left)"
    by (simp add: walk_set_request_budget_def example_walk_def example_pending_def)
  ultimately have "walk_run example_owner example_budget (0 + 1 + ap_remote_attempts example_plan)
      (0 + ap_links example_plan) 1 [] (example_walk 0 [] (Some (example_pending example_used))) example_left"
    by (rule run_send)
  then show ?thesis by (simp add: example_plan_def numeral_2_eq_2)
qed

lemma example_run:
  "walk_run example_owner example_budget 2 4 1
     [(example_pending example_used, Out_Probe CopyMiss)] (example_walk 1 [CopyMiss] None) example_left"
  by (rule run_complete [OF example_run_sent _ example_complete]) (simp add: example_walk_def)

subsection \<open>Properties of walks\<close>









text \<open>
  A continuation that bounds the routes takes that authority away: with too few links for a bounded
  probe the owner's walk breaks off before its predecessor was asked, still ends in an origin fetch, and
  the check then refuses it.
\<close>

lemma bounded_owner_unauthorized:
  "let c = example_owner\<lparr>wc_continuation := continuation_default\<lparr>ct_bounded_routes := True\<rparr>\<rparr>;
       b = budget_new 1000 2 3
   in config_ok c \<and>
      fst (the (walk_next (walk_new c) b)) = Inr (Step_End (End_Origin 1 [])) \<and>
      validate_origin_authority \<lparr>af_object = (7::nat), af_page = 3, af_rank = 1, af_evidence = length [],
        af_member = True, af_local = False\<rparr> 7 3 = Inl Unauthorized"
  by code_simp

subsection \<open>The times of one exchange\<close>



subsection \<open>The remaining walk\<close>

text \<open>Driving a remaining walk with the outcomes of its probes: the owners asked, and how it ends.\<close>

fun remaining_drive :: "remaining_walk \<Rightarrow> budget \<Rightarrow> outcome list \<Rightarrow> nat list \<times> remaining_end option" where
  "remaining_drive r b [] =
     (case remaining_next r of Some (Inl e, _) \<Rightarrow> ([], Some e) | _ \<Rightarrow> ([], None))"
| "remaining_drive r b (out # outs) =
     (case remaining_next r of
        Some (Inr pr, r1) \<Rightarrow>
          (case remaining_complete r1 b out of
             Some (None, r2, b') \<Rightarrow>
               (let (asked, e) = remaining_drive r2 b' outs in (pr_canonical pr # asked, e))
           | Some (Some e, _, _) \<Rightarrow> ([pr_canonical pr], Some e)
           | None \<Rightarrow> ([], None))
      | Some (Inl e, _) \<Rightarrow> ([], Some e)
      | None \<Rightarrow> ([], None))"

text \<open>Outcomes after which an owner might still hold the version.\<close>

fun leaves_doubt :: "outcome \<Rightarrow> bool" where
  "leaves_doubt Out_Copy = False"
| "leaves_doubt (Out_Probe x) = transient x"
| "leaves_doubt _ = True"

lemma remaining_drive_step:
  assumes "\<not> rw_pending r" and "rw_index r < rw_owners r" and "out \<noteq> Out_Copy"
  shows "\<exists>b'. remaining_drive r b (out # outs) =
    (let (asked, e) = remaining_drive (r\<lparr>rw_index := rw_index r + 1,
         rw_transient := rw_transient r \<or> leaves_doubt out\<rparr>) b' outs in (rw_index r # asked, e))"
  using assms
  by (cases out; cases r) (auto simp: remaining_next_def remaining_complete_def Let_def intro!: exI)

lemma remaining_drive_from:
  assumes "\<not> rw_pending r" and "length outs = rw_owners r - rw_index r"
  shows "remaining_drive r b outs =
    (if Out_Copy \<in> set outs
     then ([rw_index r..<rw_index r + length (takeWhile (\<lambda>out. out \<noteq> Out_Copy) outs) + 1], Some Rem_Copy)
     else ([rw_index r..<rw_owners r],
           Some (if rw_transient r \<or> list_ex leaves_doubt outs then Rem_Unavailable else Rem_None)))"
  using assms
proof (induction outs arbitrary: r b)
  case Nil
  then show ?case by (simp add: remaining_next_def)
next
  case (Cons out outs)
  have lt: "rw_index r < rw_owners r" using Cons.prems(2) by simp
  show ?case
  proof (cases "out = Out_Copy")
    case True
    then show ?thesis using Cons.prems(1) lt by (simp add: remaining_next_def remaining_complete_def Let_def)
  next
    case False
    let ?r = "r\<lparr>rw_index := rw_index r + 1, rw_transient := rw_transient r \<or> leaves_doubt out\<rparr>"
    obtain b' where step: "remaining_drive r b (out # outs) =
        (let (asked, e) = remaining_drive ?r b' outs in (rw_index r # asked, e))"
      using remaining_drive_step [OF Cons.prems(1) lt False] by blast
    have "length outs = rw_owners ?r - rw_index ?r" "\<not> rw_pending ?r" using Cons.prems by simp_all
    note ih = Cons.IH [OF this(2,1), of b']
    have "[rw_index r..<rw_owners r] = rw_index r # [Suc (rw_index r)..<rw_owners r]"
      using lt by (rule upt_conv_Cons)
    moreover have "[rw_index r..<Suc (Suc (rw_index r + k))] =
        rw_index r # [Suc (rw_index r)..<Suc (Suc (rw_index r + k))]" for k
      by (rule upt_conv_Cons) simp
    ultimately show ?thesis using step ih False by auto
  qed
qed

text \<open>C20: After an origin version miss the remaining walk asks every owner ranked after the caller once, in
  order, and stops at the first copy; without a copy it says that no copy exists only when every owner
  answered without leaving a doubt, and otherwise that the version is unavailable for now.\<close>

theorem remaining_walk_exhaustive:
  assumes "length outs = owners - (rank + 1)"
  shows "remaining_drive (remaining_new rank owners) b outs =
    (if Out_Copy \<in> set outs
     then ([rank + 1..<rank + 2 + length (takeWhile (\<lambda>out. out \<noteq> Out_Copy) outs)], Some Rem_Copy)
     else ([rank + 1..<owners], Some (if list_ex leaves_doubt outs then Rem_Unavailable else Rem_None)))"
  using remaining_drive_from [of "remaining_new rank owners" outs b] assms
  by (simp add: remaining_new_def)

theorem remaining_walk_exhaustive_witness:
  "remaining_drive (remaining_new 0 3) example_budget [Out_Probe CopyMiss, Out_Shed] =
     ([1, 2], Some Rem_Unavailable)"
proof -
  have "remaining_drive (remaining_new 0 3) example_budget [Out_Probe CopyMiss, Out_Shed] =
      ([0 + 1..<3], Some Rem_Unavailable)"
    using remaining_walk_exhaustive [of "[Out_Probe CopyMiss, Out_Shed]" 3 0 example_budget] by simp
  then show ?thesis by (simp add: upt_rec)
qed

subsection \<open>Handoff targets\<close>

lemma merge_previous_props:
  "distinct targets \<Longrightarrow> length targets \<le> MAX_LINEAGE \<Longrightarrow>
   let m = merge_previous targets previous in
     distinct m \<and> length m \<le> MAX_LINEAGE \<and> prefix targets m \<and> set m \<subseteq> set targets \<union> set previous \<and>
     (length m < MAX_HANDOFF \<longrightarrow> set previous \<subseteq> set m)"
proof (induction targets previous rule: merge_previous.induct)
  case (1 targets)
  then show ?case by simp
next
  case (2 targets n previous)
  show ?case
  proof (cases "length targets \<ge> MAX_HANDOFF")
    case True
    then show ?thesis using 2(2,3) by auto
  next
    case False
    let ?t = "if n \<in> set targets then targets else list_push MAX_TARGETS targets n"
    have t: "?t = (if n \<in> set targets then targets else targets @ [n])"
      using False by (auto simp: list_push_def MAX_TARGETS_def MAX_HANDOFF_def MAX_LINEAGE_def REPLICAS_BELOW_def)
    have "length ?t \<le> MAX_LINEAGE" "distinct ?t"
      using 2(2) False by (auto simp: t MAX_HANDOFF_def MAX_LINEAGE_def)
    from 2(1) [OF False this(2,1)] False
    have ih: "distinct (merge_previous ?t previous)" "length (merge_previous ?t previous) \<le> MAX_LINEAGE"
      "prefix ?t (merge_previous ?t previous)" "set (merge_previous ?t previous) \<subseteq> set ?t \<union> set previous"
      "length (merge_previous ?t previous) < MAX_HANDOFF \<longrightarrow> set previous \<subseteq> set (merge_previous ?t previous)"
      by (auto simp: Let_def)
    have pre: "prefix targets ?t" "set ?t = insert n (set targets)" by (auto simp: t)
    have "n \<in> set (merge_previous ?t previous)"
      using set_mono_prefix [OF ih(3)] pre(2) by auto
    then show ?thesis
      using False ih pre prefix_order.trans [OF pre(1) ih(3)] by (auto simp: Let_def)
  qed
qed

lemma handoff_targets_props:
  "length (handoff_targets previous current rank) \<le> MAX_HANDOFF \<and>
   set (handoff_targets previous current rank) \<subseteq> set previous - set (take (rank + 1) current)"
proof -
  have "set (take (rank + 1) current) =
      set (take rank current) \<union> (if rank < length current then {current ! rank} else {})"
    by (simp add: take_Suc_conv_app_nth)
  moreover have "take (min rank (length current)) current = take rank current"
    by (simp add: min_def)
  moreover have "set (handoff_targets previous current rank) \<subseteq>
      set (filter (\<lambda>n. Some n \<noteq> (if rank < length current then Some (current ! rank) else None) \<and>
        n \<notin> set (take (min rank (length current)) current)) previous)"
    unfolding handoff_targets_def Let_def
    by (rule subset_trans [OF _ set_take_subset [of MAX_HANDOFF]]) simp
  moreover have "length (handoff_targets previous current rank) \<le> MAX_HANDOFF"
    by (simp add: handoff_targets_def Let_def)
  ultimately show ?thesis by (auto split: if_splits)
qed



lemma filter_zip_snd:
  "length owners = length since \<Longrightarrow>
   length (filter (\<lambda>(_, s). P s) (drop k (zip owners since))) = length (filter P (drop k since))"
proof -
  assume "length owners = length since"
  then have "drop k since = map snd (drop k (zip owners since))"
    by (simp add: drop_map [symmetric])
  then show ?thesis by (simp add: filter_map comp_def case_prod_unfold)
qed

text \<open>C28: What a reader sets aside for an owner's lineage is what that owner walks: the count a reader derives
  from the owners' arrival times is, for every owner, the number of lineage targets the owner itself
  derives.\<close>

theorem lineage_counts_agree:
  assumes "length owners = length since" and "rank < MAX_HANDOFF"
  shows "lineage_counts since ! rank = length (lineage_targets owners since rank)"
proof (cases "since_at since rank")
  case None
  then show ?thesis using assms(2) by (simp add: lineage_counts_def lineage_targets_def MAX_HANDOFF_def)
next
  case (Some mine)
  then show ?thesis
    using assms filter_zip_snd [OF assms(1), of "\<lambda>s. case s of None \<Rightarrow> False | Some s \<Rightarrow> s < mine" "rank + 1"]
    by (simp add: lineage_counts_def lineage_targets_def MAX_HANDOFF_def min.commute)
qed

theorem lineage_counts_agree_witness:
  "lineage_counts [Some 5, Some 2, None] ! 0 = length (lineage_targets [10 :: nat, 11, 12] [Some 5, Some 2, None] 0)"
  by (rule lineage_counts_agree) (simp_all add: MAX_HANDOFF_def)

end
