(* ===== verification/Racer_Fill.thy ===== *)
theory Racer_Fill
  imports Racer_Walk Racer_Policy
begin

unbundle bit_operations_syntax

section \<open>One read's acquisition (core/src/read/walk.rs, Fill)\<close>

text \<open>
  \<open>Fill\<close> is the state machine of one read: it ranks the page, collects an owner's handoff targets, may
  race a hedge, drives a candidate walk (once more under a newer or the previous membership), fetches
  from origin when the walk grants it, asks the remaining owners after a version miss, and publishes.
  The caller performs each action and feeds the event that answers it.

  \<open>fill_on\<close> is \<open>Fill::on\<close>. Every handler takes the fill and the read's budget and returns
  \<open>(result, fill, budget)\<close>; \<open>None\<close> stands for a panic (an assertion of the walk, an \<open>expect\<close>, an index
  out of range). \<open>Result\<close> errors are \<open>Inl\<close>. Nodes are the dense member indices (\<open>u32\<close>) the source uses.
\<close>

subsection \<open>Successor targets (core/src/read/hints.rs)\<close>

definition push_new :: "nat \<Rightarrow> 'a \<Rightarrow> 'a list \<Rightarrow> 'a list" where
  "push_new capacity n xs = (if n \<in> set xs then xs else list_push capacity xs n)"

definition successor_targets :: "'n list \<Rightarrow> 'n list \<Rightarrow> nat \<Rightarrow> 'n list" where
  "successor_targets hints owners rank =
     fold (\<lambda>n out. case position (\<lambda>m. m = n) owners of
             None \<Rightarrow> out
           | Some r \<Rightarrow> if r > rank then push_new MAX_HANDOFF n out else out)
       (rev hints) []"

definition with_successors :: "'n list \<Rightarrow> 'n list \<Rightarrow> 'n list \<times> nat" where
  "with_successors successors handoff =
     (let first = fold (\<lambda>n out. if length out < MAX_HANDOFF then push_new MAX_TARGETS n out else out)
                    successors [];
          all = fold (push_new MAX_TARGETS) handoff first
      in (all, length first))"

subsection \<open>Configuration\<close>

definition NOT_MEMBER :: nat where "NOT_MEMBER = u32_max"

text \<open>\<open>topology::RETAINED_DEPTH - topology::REPLICAS\<close>\<close>

definition DEMOTED :: nat where "DEMOTED = 12 - 3"

record features =
  ft_bits :: nat
  ft_lineage_cap :: nat

definition FT_LINEAGE_GRANTS :: nat where "FT_LINEAGE_GRANTS = 1"
definition FT_LINEAGE_SLACK :: nat where "FT_LINEAGE_SLACK = 2"
definition FT_PARALLEL_GRANTED :: nat where "FT_PARALLEL_GRANTED = 4"
definition FT_HELPER :: nat where "FT_HELPER = 8"
definition FT_STALE_FALLBACK :: nat where "FT_STALE_FALLBACK = 16"
definition FT_STALE_WAIT :: nat where "FT_STALE_WAIT = 32"
definition FT_RANK0_FAILED :: nat where "FT_RANK0_FAILED = 64"

definition features_production :: features where
  "features_production = \<lparr>ft_bits = 127, ft_lineage_cap = MAX_LINEAGE\<rparr>"

definition features_new :: "nat \<Rightarrow> nat \<Rightarrow> features" where
  "features_new bits lineage_cap =
     \<lparr>ft_bits = bits, ft_lineage_cap = (if lineage_cap < MAX_LINEAGE then lineage_cap else MAX_LINEAGE)\<rparr>"

definition features_with :: "features \<Rightarrow> nat \<Rightarrow> bool \<Rightarrow> features" where
  "features_with ft b on =
     ft\<lparr>ft_bits := (if on then ft_bits ft OR b else ft_bits ft AND (u32_max - b))\<rparr>"

definition features_has :: "features \<Rightarrow> nat \<Rightarrow> bool" where
  "features_has ft b \<longleftrightarrow> ft_bits ft AND b \<noteq> 0"

record fill_config =
  fc_operation :: operation_kind
  fc_hedge :: bool
  fc_walk_only :: bool
  fc_scope :: instant
  fc_features :: features

datatype ranking = RankCurrent | RankPrevious | RankFallback | RankAuthority

record ranked =
  rk_version :: nat
  rk_owners :: "nat list"
  rk_rank :: "nat option"
  rk_since :: "nat option list"
  rk_order :: visit_order
  rk_demoted :: "nat list"
  rk_demoted_since :: "nat option list"
  rk_oldest :: "nat option"
  rk_members :: nat
  rk_recent_member :: bool

definition ranked_new :: "nat \<Rightarrow> nat list \<Rightarrow> nat option \<Rightarrow> ranked" where
  "ranked_new version owners rank =
     \<lparr>rk_version = version, rk_owners = take MAX_HANDOFF owners, rk_rank = rank,
      rk_since = replicate MAX_HANDOFF None, rk_order = canonical_order (length owners),
      rk_demoted = [], rk_demoted_since = replicate DEMOTED None, rk_oldest = None, rk_members = 0,
      rk_recent_member = False\<rparr>"

subsection \<open>Events and actions\<close>

datatype hedge_end =
    HedgeNotStarted
  | HedgeWon
  | HedgeLost bool "probe_outcome option" "error option"

datatype reply =
    Answer response_kind bool
  | ReplyTimedOut
  | ReplyFailed error bool bool

datatype event =
    Ev_Start bool
  | Ev_Ranked "ranked res"
  | Ev_Hints "nat list" rank0_state
  | Ev_Hedge hedge_end
  | Ev_Reply reply
  | Ev_Validated "probe_outcome option res"
  | Ev_NoHelper
  | Ev_BatchDone bool
  | Ev_Timer
  | Ev_Membership "nat option" bool
  | Ev_Origin "unit res"
  | Ev_Published "unit res"
  | Ev_Abort error

datatype action =
    Act_Rank ranking "nat option"
  | Act_Hints
  | Act_Hedge bool nat nat
  | Act_Refresh
  | Act_Probe probe
  | Act_Validate
  | Act_Batch nat nat nat
  | Act_Wait duration
  | Act_Origin nat
  | Act_Publish page_source
  | Act_Done "page_source res"
  | Act_Idle

datatype silence_note = Sil_Answered | Sil_Shed | Sil_TimedOut nat

datatype rank0_note = Note_Answered | Note_Failed | Note_TimedOut

record evidence =
  ev_outcome :: "outcome res option"
  ev_helper :: bool
  ev_granted :: bool
  ev_rank0_probe :: bool
  ev_silence :: "silence_note option"
  ev_rank0 :: "rank0_note option"
  ev_notes :: nat

definition evidence_default :: evidence where
  "evidence_default =
     \<lparr>ev_outcome = None, ev_helper = False, ev_granted = False, ev_rank0_probe = False,
      ev_silence = None, ev_rank0 = None, ev_notes = 0\<rparr>"

definition N_STALE_SKIP :: nat where "N_STALE_SKIP = 1"
definition N_OWNER_STALE_SKIP :: nat where "N_OWNER_STALE_SKIP = 2"
definition N_REFRESH :: nat where "N_REFRESH = 4"
definition N_FALLBACK :: nat where "N_FALLBACK = 8"
definition N_FALLBACK_DENIED :: nat where "N_FALLBACK_DENIED = 16"
definition N_WAIT_DENIED :: nat where "N_WAIT_DENIED = 32"
definition N_FALLBACK_BLOCKED :: nat where "N_FALLBACK_BLOCKED = 64"
definition N_RANK0_LEFT :: nat where "N_RANK0_LEFT = 128"
definition N_WALK_COPY :: nat where "N_WALK_COPY = 256"
definition N_EXHAUSTED :: nat where "N_EXHAUSTED = 512"
definition N_EXHAUSTED_FUNDING :: nat where "N_EXHAUSTED_FUNDING = 1024"
definition N_EXHAUSTED_STALE :: nat where "N_EXHAUSTED_STALE = 2048"
definition N_REMAINING :: nat where "N_REMAINING = 4096"

datatype target_kind = Tgt_Successor | Tgt_Lineage | Tgt_Demoted | Tgt_Handoff

datatype walking = NoWalk | Candidates walk | Remaining remaining_walk

record fill =
  f_config :: fill_config
  f_hedge :: bool
  f_ranking :: ranking
  f_hedge_refresh :: bool
  f_version :: nat
  f_owners :: "nat list"
  f_rank :: "nat option"
  f_order :: visit_order
  f_members :: nat
  f_lineage :: "nat list"
  f_lineage_targets :: "nat list"
  f_demoted :: "nat list"
  f_handoff :: "nat list"
  f_successors :: nat
  f_granted :: nat
  f_previous :: nat
  f_rank0 :: rank0_state
  f_bounded :: bool
  f_continuation :: continuation
  f_walk :: walking
  f_probe :: "probe option"
  f_signed :: bool
  f_retried :: bool
  f_fell_back :: bool
  f_fallback_denied :: bool
  f_waits :: nat
  f_waiting :: bool
  f_stale :: nat
  f_latest :: nat
  f_evidence :: "probe_outcome list"
  f_origin_rank :: nat
  f_origin_pending :: bool
  f_source :: page_source
  f_funding :: bool
  f_remaining_end :: "remaining_end option"
  f_out :: evidence

type_synonym fill_result = "(action res \<times> fill \<times> budget) option"

definition fill_new :: "fill_config \<Rightarrow> fill" where
  "fill_new config =
     \<lparr>f_config = config, f_hedge = (fc_hedge config \<and> \<not> fc_walk_only config),
      f_ranking = RankCurrent, f_hedge_refresh = False, f_version = 0, f_owners = [], f_rank = None,
      f_order = canonical_order 0, f_members = 0, f_lineage = replicate MAX_HANDOFF 0,
      f_lineage_targets = [], f_demoted = [], f_handoff = [], f_successors = 0, f_granted = 0,
      f_previous = 0, f_rank0 = R0_Unknown, f_bounded = False,
      f_continuation = continuation_default, f_walk = NoWalk, f_probe = None, f_signed = False,
      f_retried = False, f_fell_back = False, f_fallback_denied = False, f_waits = 0,
      f_waiting = False, f_stale = 0, f_latest = 0, f_evidence = [], f_origin_rank = 0,
      f_origin_pending = False, f_source = FromPeer, f_funding = False, f_remaining_end = None,
      f_out = evidence_default\<rparr>"

subsection \<open>Queries\<close>

definition fill_request_budget :: "fill \<Rightarrow> budget \<Rightarrow> budget" where
  "fill_request_budget f b =
     (case f_walk f of Candidates w \<Rightarrow> walk_request_budget w b | _ \<Rightarrow> b)"

definition fill_set_request_budget :: "fill \<Rightarrow> budget \<Rightarrow> budget \<Rightarrow> fill \<times> budget" where
  "fill_set_request_budget f b spent =
     (case f_walk f of
        Candidates w \<Rightarrow>
          (case walk_set_request_budget w b spent of (w', b') \<Rightarrow> (f\<lparr>f_walk := Candidates w'\<rparr>, b'))
      | _ \<Rightarrow> (f, spent))"

text \<open>\<open>dest\<close>: an owner or handoff target; \<open>Some None\<close> is the overflow helper, \<open>None\<close> an index out of range.\<close>

definition fill_dest :: "fill \<Rightarrow> probe \<Rightarrow> nat option option" where
  "fill_dest f pr =
     (if length (f_owners f) \<le> pr_canonical pr
      then if f_rank f \<noteq> None
           then if pr_canonical pr - length (f_owners f) < length (f_handoff f)
                then Some (Some (f_handoff f ! (pr_canonical pr - length (f_owners f)))) else None
           else Some None
      else Some (Some (f_owners f ! pr_canonical pr)))"

definition fill_target_kind :: "fill \<Rightarrow> nat \<Rightarrow> target_kind" where
  "fill_target_kind f i =
     (if i < f_successors f then Tgt_Successor
      else if i < f_granted f \<and> f_handoff f ! i \<in> set (f_demoted f) then Tgt_Demoted
      else if i < f_granted f \<and> f_handoff f ! i \<in> set (f_lineage_targets f) then Tgt_Lineage
      else Tgt_Handoff)"

definition fill_page :: "fill \<Rightarrow> bool" where
  "fill_page f \<longleftrightarrow> fc_operation (f_config f) = Op_Page"

definition fill_has :: "fill \<Rightarrow> nat \<Rightarrow> bool" where
  "fill_has f b = features_has (fc_features (f_config f)) b"

definition fill_note :: "nat \<Rightarrow> fill \<Rightarrow> fill" where
  "fill_note n f = f\<lparr>f_out := (f_out f)\<lparr>ev_notes := ev_notes (f_out f) OR n\<rparr>\<rparr>"

definition fill_outcome :: "outcome res \<Rightarrow> fill \<Rightarrow> fill" where
  "fill_outcome r f = f\<lparr>f_out := (f_out f)\<lparr>ev_outcome := Some r\<rparr>\<rparr>"

definition fill_silence :: "silence_note \<Rightarrow> fill \<Rightarrow> fill" where
  "fill_silence s f = f\<lparr>f_out := (f_out f)\<lparr>ev_silence := Some s\<rparr>\<rparr>"

definition fill_rank_next :: "ranking \<Rightarrow> nat option \<Rightarrow> fill \<Rightarrow> action res \<times> fill" where
  "fill_rank_next r v f = (Inr (Act_Rank r v), f\<lparr>f_ranking := r\<rparr>)"

definition fill_publish :: "page_source \<Rightarrow> fill \<Rightarrow> action res \<times> fill" where
  "fill_publish source f = (Inr (Act_Publish source), f\<lparr>f_source := source\<rparr>)"

definition fill_walked :: "page_source \<Rightarrow> fill \<Rightarrow> action res \<times> fill" where
  "fill_walked source f =
     (if fc_walk_only (f_config f) then (Inr (Act_Done (Inr source)), f) else fill_publish source f)"

subsection \<open>How walks end\<close>

definition fill_remaining_ended :: "remaining_end \<Rightarrow> fill \<Rightarrow> action res \<times> fill" where
  "fill_remaining_ended e f =
     (let f1 = f\<lparr>f_walk := NoWalk, f_remaining_end := Some e\<rparr> in
      case e of
        Rem_Copy \<Rightarrow> fill_publish FromPeer f1
      | Rem_None \<Rightarrow> (Inl (origin_miss_error (f_evidence f1)), f1)
      | Rem_Unavailable \<Rightarrow> (Inl Unavailable, f1))"

definition fill_take_flags :: "fill \<Rightarrow> fill" where
  "fill_take_flags f =
     (case f_walk f of
        Candidates w \<Rightarrow>
          let f1 = f\<lparr>f_funding := wk_funding w\<rparr> in
          if wk_rank0_unanswered w then fill_note N_RANK0_LEFT f1 else f1
      | _ \<Rightarrow> f)"

definition fill_end :: "walk_end \<Rightarrow> fill \<Rightarrow> action res \<times> fill" where
  "fill_end e f =
     (let f1 = (fill_take_flags f)\<lparr>f_walk := NoWalk\<rparr> in
      case e of
        End_Copy \<Rightarrow> fill_walked FromPeer (fill_note N_WALK_COPY f1)
      | End_StaleMembership \<Rightarrow>
          fill_rank_next RankCurrent (Some (f_latest f1))
            ((fill_note N_REFRESH f1)
               \<lparr>f_retried := True,
                f_continuation := continuation_default\<lparr>ct_bounded_routes := f_bounded f1\<rparr>\<rparr>)
      | End_Origin rank ev \<Rightarrow>
          fill_rank_next RankAuthority (Some (f_version f1))
            (f1\<lparr>f_evidence := ev, f_origin_rank := rank\<rparr>)
      | End_VersionUnavailable \<Rightarrow> (Inl VersionUnavailable, f1)
      | End_Exhausted funding \<Rightarrow>
          let f2 = fill_note (if funding then N_EXHAUSTED_FUNDING else N_EXHAUSTED) f1 in
          (Inl Unavailable, if f_stale f2 > 0 then fill_note N_EXHAUSTED_STALE f2 else f2))"

subsection \<open>Driving the current walk\<close>

text \<open>An action that leaves the budget as it is.\<close>

definition fill_ok :: "action res \<times> fill \<Rightarrow> budget \<Rightarrow> fill_result" where
  "fill_ok r b = Some (fst r, snd r, b)"

definition fill_next :: "fill \<Rightarrow> budget \<Rightarrow> fill_result" where
  "fill_next f b =
     (case f_walk f of
        Candidates w \<Rightarrow>
          (case walk_next w b of
             None \<Rightarrow> None
           | Some (r, w', b') \<Rightarrow>
               let f1 = f\<lparr>f_walk := Candidates w'\<rparr> in
               case r of
                 Inl e \<Rightarrow> Some (Inl e, f1, b')
               | Inr (Step_Probe pr) \<Rightarrow> Some (Inr (Act_Probe pr), f1\<lparr>f_probe := Some pr\<rparr>, b')
               | Inr (Step_Granted []) \<Rightarrow> None
               | Inr (Step_Granted (p # ps)) \<Rightarrow>
                   Some (Inr (Act_Batch (pr_canonical p - length (f_owners f)) (length (p # ps))
                                (pr_opportunities p)), f1, b')
               | Inr (Step_End e) \<Rightarrow> fill_ok (fill_end e f1) b')
      | Remaining r \<Rightarrow>
          (case remaining_next r of
             None \<Rightarrow> None
           | Some (Inr pr, r') \<Rightarrow>
               Some (Inr (Act_Probe pr), f\<lparr>f_walk := Remaining r', f_probe := Some pr\<rparr>, b)
           | Some (Inl e, r') \<Rightarrow> fill_ok (fill_remaining_ended e (f\<lparr>f_walk := Remaining r'\<rparr>)) b)
      | NoWalk \<Rightarrow> Some (Inr Act_Idle, f, b))"

definition fill_after :: "walk_end option \<Rightarrow> bool \<Rightarrow> fill \<Rightarrow> budget \<Rightarrow> fill_result" where
  "fill_after e skipped f b =
     (case e of
        Some e \<Rightarrow> fill_ok (fill_end e f) b
      | None \<Rightarrow>
          fill_next
            (if skipped \<and> f_rank f = None \<and> \<not> f_retried f \<and> \<not> f_fell_back f
             then fill_note N_FALLBACK_BLOCKED f else f) b)"

text \<open>\<open>walk.complete(budget, outcome)?\<close> followed by \<open>after\<close>.\<close>

definition fill_complete_walk :: "walk \<Rightarrow> outcome \<Rightarrow> bool \<Rightarrow> fill \<Rightarrow> budget \<Rightarrow> fill_result" where
  "fill_complete_walk w out skipped f b =
     (case walk_complete w b out of
        None \<Rightarrow> None
      | Some (Inl e, w', b') \<Rightarrow> Some (Inl e, f\<lparr>f_walk := Candidates w'\<rparr>, b')
      | Some (Inr e, w', b') \<Rightarrow> fill_after e skipped (f\<lparr>f_walk := Candidates w'\<rparr>) b')"

definition fill_walk_complete :: "outcome \<Rightarrow> fill \<Rightarrow> budget \<Rightarrow> fill_result" where
  "fill_walk_complete out f b =
     (case f_walk f of
        Candidates w \<Rightarrow> fill_complete_walk w out False f b
      | Remaining r \<Rightarrow>
          (case remaining_complete r b out of
             None \<Rightarrow> None
           | Some (Some e, r', b') \<Rightarrow>
               fill_ok (fill_remaining_ended e (f\<lparr>f_walk := Remaining r'\<rparr>)) b'
           | Some (None, r', b') \<Rightarrow> fill_next (f\<lparr>f_walk := Remaining r'\<rparr>) b')
      | NoWalk \<Rightarrow> Some (Inr Act_Idle, f, b))"

text \<open>\<open>pending\<close>: note what the outstanding probe asked; whether a stale answer must not refresh.\<close>

definition fill_pending :: "fill \<Rightarrow> bool \<times> fill" where
  "fill_pending f =
     (case f_walk f of
        Candidates w \<Rightarrow>
          let is = (\<lambda>g. case wk_pending w of None \<Rightarrow> False | Some p \<Rightarrow> g p) in
          (is (\<lambda>p. pd_handoff p \<or> pd_previous p),
           f\<lparr>f_out := (f_out f)\<lparr>ev_helper := is pd_helper, ev_granted := is pd_granted,
                               ev_rank0_probe := is pd_rank0\<rparr>\<rparr>)
      | _ \<Rightarrow> (False, f))"

definition outcome_overloaded :: "outcome \<Rightarrow> bool" where
  "outcome_overloaded out \<longleftrightarrow>
     out = Out_Probe OutcomeOverloaded \<or> out = Out_Transport OutcomeOverloaded"

fun rank0_note_of :: "outcome \<Rightarrow> rank0_note option" where
  "rank0_note_of Out_TimedOut = Some Note_TimedOut"
| "rank0_note_of (Out_Probe OutcomeOverloaded) = Some Note_TimedOut"
| "rank0_note_of (Out_Transport OutcomeOverloaded) = Some Note_TimedOut"
| "rank0_note_of Out_Failed = Some Note_Failed"
| "rank0_note_of Out_Copy = Some Note_Answered"
| "rank0_note_of (Out_Probe CopyMiss) = Some Note_Answered"
| "rank0_note_of (Out_Probe OutcomeVersionUnavailable) = Some Note_Answered"
| "rank0_note_of (Out_Probe Unreachable) = Some Note_Answered"
| "rank0_note_of _ = None"

definition fill_note_rank0 :: "outcome \<Rightarrow> fill \<Rightarrow> fill" where
  "fill_note_rank0 out f =
     (if ev_rank0_probe (f_out f) \<and> \<not> ev_helper (f_out f) \<and>
         (f_signed f \<or> out = Out_TimedOut \<or> outcome_overloaded out)
      then f\<lparr>f_out := (f_out f)\<lparr>ev_rank0 := rank0_note_of out\<rparr>\<rparr> else f)"

definition fill_complete :: "outcome \<Rightarrow> fill \<Rightarrow> budget \<Rightarrow> fill_result" where
  "fill_complete out f b =
     (let f1 = fill_outcome (Inr out) (snd (fill_pending f))
      in fill_walk_complete out (fill_note_rank0 out f1) b)"

subsection \<open>Starting a walk\<close>

definition fill_granted_count :: "fill \<Rightarrow> nat" where
  "fill_granted_count f =
     (if fill_has f FT_LINEAGE_GRANTS \<and> f_rank f = Some 0 \<and> fill_page f then length (f_handoff f)
      else f_successors f +
        (if fill_has f FT_LINEAGE_GRANTS \<and> f_rank f \<noteq> None
         then granted_prefix (drop (f_successors f) (f_handoff f)) (f_lineage_targets f) else 0))"

definition fill_walk_config :: "fill \<Rightarrow> walk_config" where
  "fill_walk_config f =
     \<lparr>wc_rank = f_rank f, wc_owners = length (f_owners f), wc_order = f_order f,
      wc_page = fill_page f, wc_continuation = f_continuation f,
      wc_handoff = length (f_handoff f), wc_previous = f_previous f,
      wc_helper = (f_rank f = None \<and> fill_page f \<and> fill_has f FT_HELPER \<and>
                   f_members f > length (f_owners f) + 1),
      wc_lineage = f_lineage f, wc_granted = fill_granted_count f,
      wc_parallel = fill_has f FT_PARALLEL_GRANTED, wc_rank0 = f_rank0 f\<rparr>"

definition fill_start_walk :: "fill \<Rightarrow> budget \<Rightarrow> fill_result" where
  "fill_start_walk f b =
     fill_next
       (f\<lparr>f_granted := fill_granted_count f, f_continuation := continuation_default,
          f_bounded := ct_bounded_routes (f_continuation f),
          f_walk := Candidates (walk_new (fill_walk_config f))\<rparr>) b"

definition fill_walk_or_hedge :: "fill \<Rightarrow> budget \<Rightarrow> fill_result" where
  "fill_walk_or_hedge f b =
     (if \<not> f_hedge f then fill_start_walk f b
      else let first = (case order_get (f_order f) 0 of None \<Rightarrow> 0 | Some r \<Rightarrow> r);
               second = (case order_get (f_order f) 1 of None \<Rightarrow> 0 | Some r \<Rightarrow> r)
           in Some (Inr (Act_Hedge
                (hedge_eligible (fill_page f) (f_rank f \<noteq> None) (f_owners f) first second b)
                first second), f, b))"

definition fill_targets :: "fill \<Rightarrow> budget \<Rightarrow> fill_result" where
  "fill_targets f b =
     (if f_rank f \<noteq> None \<and> fill_page f then Some (Inr Act_Hints, f, b) else fill_walk_or_hedge f b)"

definition add_demoted :: "nat \<Rightarrow> 'n list \<Rightarrow> 'n list \<Rightarrow> 'n list" where
  "add_demoted cap demoted targets =
     fold (\<lambda>n out. if n \<notin> set out \<and> length out < cap then list_push MAX_LINEAGE out n else out)
       demoted targets"

text \<open>An owner's lineage and demoted targets under a ranking.\<close>

definition fill_lineage :: "fill \<Rightarrow> ranked \<Rightarrow> nat list" where
  "fill_lineage f r =
     (if \<not> fill_page f \<or> (fill_has f FT_LINEAGE_GRANTS \<and> \<not> fill_has f FT_LINEAGE_SLACK)
      then replicate MAX_HANDOFF 0
      else lineage_counts (take (length (rk_owners r)) (rk_since r)))"

definition fill_demoted :: "fill \<Rightarrow> ranked \<Rightarrow> nat list" where
  "fill_demoted f r =
     (case rk_rank r of
        Some rank \<Rightarrow>
          if fill_page f
          then demoted_targets (take (length (rk_owners r)) (rk_since r)) (rk_demoted r)
                 (take (length (rk_demoted r)) (rk_demoted_since r)) rank (rk_oldest r)
          else []
      | None \<Rightarrow> [])"

definition fill_lineage_targets :: "fill \<Rightarrow> ranked \<Rightarrow> nat list" where
  "fill_lineage_targets f r =
     (case rk_rank r of
        Some rank \<Rightarrow>
          if fill_page f
          then add_demoted (ft_lineage_cap (fc_features (f_config f))) (fill_demoted f r)
                 (take MAX_LINEAGE
                   (lineage_targets (rk_owners r) (take (length (rk_owners r)) (rk_since r)) rank))
          else []
      | None \<Rightarrow> [])"

definition fill_ranked :: "ranked \<Rightarrow> fill \<Rightarrow> budget \<Rightarrow> fill_result" where
  "fill_ranked r f b =
     (if rk_owners r = [] then Some (Inl Unavailable, f, b)
      else
        let f1 = f\<lparr>f_version := rk_version r, f_owners := rk_owners r, f_rank := rk_rank r,
                   f_members := rk_members r,
                   f_order := (if rk_rank r \<noteq> None then canonical_order 0 else rk_order r),
                   f_lineage := fill_lineage f r,
                   f_lineage_targets := fill_lineage_targets f r, f_demoted := fill_demoted f r,
                   f_handoff := take MAX_TARGETS (fill_lineage_targets f r), f_successors := 0,
                   f_previous := 0, f_stale := 0, f_rank0 := R0_Unknown\<rparr>
        in if rk_rank r \<noteq> None \<and> fill_page f \<and> rk_version r > 0
           then fill_ok (fill_rank_next RankPrevious (Some (rk_version r - 1)) f1) b
           else fill_targets f1 b)"

subsection \<open>Destinations that are behind\<close>

definition fill_skip :: "fill \<Rightarrow> budget \<Rightarrow> fill_result" where
  "fill_skip f b =
     (let f1 = fill_note N_STALE_SKIP (f\<lparr>f_stale := f_stale f + 1\<rparr>);
          f2 = (if f_rank f1 \<noteq> None then fill_note N_OWNER_STALE_SKIP f1 else f1);
          f3 = fill_outcome (Inr Out_StaleDestination) (snd (fill_pending f2))
      in case f_walk f3 of
           Candidates w \<Rightarrow> fill_complete_walk w Out_StaleDestination True f3 b
         | _ \<Rightarrow> Some (Inr Act_Idle, f3, b))"

definition fill_wait :: "fill \<Rightarrow> budget \<Rightarrow> instant \<Rightarrow> duration option res \<times> fill \<times> budget" where
  "fill_wait f b now =
     (if \<not> fill_has f FT_STALE_WAIT then (Inr None, f, b)
      else case f_walk f of
             Candidates w \<Rightarrow>
               (case stale_wait (f_waits f) (walk_retry_affordable w b)
                       (min (b_deadline b) (fc_scope (f_config f)) - now) of
                  None \<Rightarrow> (Inr None, f, b)
                | Some wait \<Rightarrow>
                    (case walk_retry_pending w b of
                       (Inl e, w', b') \<Rightarrow> (Inl e, f\<lparr>f_walk := Candidates w'\<rparr>, b')
                     | (Inr (), w', b') \<Rightarrow>
                         (Inr (Some wait),
                          f\<lparr>f_walk := Candidates w', f_waits := sat_add u8_max (f_waits f) 1,
                            f_waiting := True\<rparr>, b')))
           | _ \<Rightarrow> (Inr None, f, b))"

text \<open>Wait for the destination, or skip it when no wait is left.\<close>

definition fill_wait_or_skip :: "nat \<Rightarrow> fill \<Rightarrow> budget \<Rightarrow> instant \<Rightarrow> fill_result" where
  "fill_wait_or_skip denied f b now =
     (case fill_wait f b now of
        (Inl e, f1, b1) \<Rightarrow> Some (Inl e, f1, b1)
      | (Inr (Some wait), f1, b1) \<Rightarrow> Some (Inr (Act_Wait wait), fill_note denied f1, b1)
      | (Inr None, f1, b1) \<Rightarrow> fill_skip f1 b1)"

text \<open>Give the walk up for the previous membership: \<open>complete(StaleDestination)?\<close>, then \<open>abandon?\<close>.\<close>

definition fill_leave_walk :: "fill \<Rightarrow> budget \<Rightarrow> (unit res \<times> fill \<times> budget) option" where
  "fill_leave_walk f b =
     (case f_walk f of
        Candidates w \<Rightarrow>
          (case walk_complete w b Out_StaleDestination of
             None \<Rightarrow> None
           | Some (Inl e, w', b') \<Rightarrow> Some (Inl e, f\<lparr>f_walk := Candidates w'\<rparr>, b')
           | Some (Inr _, w', b') \<Rightarrow>
               (case walk_abandon w' b' of
                  (r, w'', b'') \<Rightarrow> Some (r, f\<lparr>f_walk := Candidates w''\<rparr>, b'')))
      | _ \<Rightarrow> Some (Inr (), f, b))"

definition fill_fallback_ranked :: "ranked res \<Rightarrow> fill \<Rightarrow> budget \<Rightarrow> instant \<Rightarrow> fill_result" where
  "fill_fallback_ranked ranked f b now =
     (case ranked of
        Inr r \<Rightarrow>
          if rk_owners r \<noteq> [] \<and> rk_rank r = None
          then
            let f1 = fill_note (N_STALE_SKIP OR N_FALLBACK) (f\<lparr>f_stale := f_stale f + 1\<rparr>);
                f2 = fill_outcome (Inr Out_StaleDestination) (snd (fill_pending f1))
            in case fill_leave_walk f2 b of
                 None \<Rightarrow> None
               | Some (Inl e, f3, b') \<Rightarrow> Some (Inl e, f3, b')
               | Some (Inr _, f3, b') \<Rightarrow>
                   fill_ranked r
                     (f3\<lparr>f_walk := NoWalk, f_retried := True,
                         f_continuation := continuation_default\<rparr>) b'
          else
            fill_wait_or_skip N_WAIT_DENIED
              ((fill_note N_FALLBACK_DENIED f)\<lparr>f_fallback_denied := True, f_fell_back := False\<rparr>) b now
      | Inl _ \<Rightarrow> fill_wait_or_skip 0 (f\<lparr>f_fell_back := False\<rparr>) b now)"

text \<open>\<open>self.version - 1\<close> underflows at version 0.\<close>

definition fill_membership :: "nat option \<Rightarrow> bool \<Rightarrow> fill \<Rightarrow> budget \<Rightarrow> instant \<Rightarrow> fill_result" where
  "fill_membership latest previous_recent_member f b now =
     (case stale_action (f_retried f) (f_version f) latest of
        Inl e \<Rightarrow>
          Some (Inl e,
                if f_hedge_refresh f then f else fill_outcome (Inl e) (snd (fill_pending f)), b)
      | Inr act \<Rightarrow>
          let new = (case latest of None \<Rightarrow> 0 | Some v \<Rightarrow> v) in
          if f_hedge_refresh f
          then (case act of
                  StaleRefresh \<Rightarrow>
                    fill_ok (fill_rank_next RankCurrent (Some new)
                      ((fill_note N_REFRESH f)\<lparr>f_retried := True\<rparr>)) b
                | StaleSkip \<Rightarrow> fill_start_walk (fill_note N_STALE_SKIP f) b)
          else (case act of
                  StaleRefresh \<Rightarrow> fill_complete Out_StaleMembership (f\<lparr>f_latest := new\<rparr>) b
                | StaleSkip \<Rightarrow>
                    if fill_has f FT_STALE_FALLBACK \<and> \<not> f_fallback_denied f \<and>
                       previous_fallback (f_rank f \<noteq> None) (f_retried f \<or> f_fell_back f)
                         previous_recent_member
                    then if f_version f = 0 then None
                         else fill_ok (fill_rank_next RankFallback (Some (f_version f - 1))
                                (f\<lparr>f_fell_back := True\<rparr>)) b
                    else if f_rank f = None then fill_wait_or_skip 0 f b now
                    else fill_skip f b))"

subsection \<open>Answers\<close>

text \<open>An answer without a payload; \<open>Inl\<close> ends the read.\<close>

definition fill_classify :: "fill \<Rightarrow> probe \<Rightarrow> response_kind \<Rightarrow> outcome res" where
  "fill_classify f pr kind =
     (case classify kind (fc_operation (f_config f)) (pr_mode pr = Acquire) (\<lambda>_. Inr ()) of
        Inr out \<Rightarrow> Inr (Out_Probe (case out of None \<Rightarrow> UnusableCopy | Some x \<Rightarrow> x))
      | Inl e \<Rightarrow>
          (case unusable_copy e (fc_operation (f_config f)) of
             Some x \<Rightarrow> Inr (Out_Probe x)
           | None \<Rightarrow> Inl e))"

definition fill_answer ::
  "response_kind \<Rightarrow> bool \<Rightarrow> bool \<Rightarrow> probe \<Rightarrow> fill \<Rightarrow> budget \<Rightarrow> fill_result" where
  "fill_answer kind is_signed no_refresh pr f b =
     (let f1 = (if is_signed
                then fill_silence (if kind = K_Overloaded \<and> fill_page f then Sil_Shed else Sil_Answered)
                       (f\<lparr>f_signed := True\<rparr>)
                else f\<lparr>f_signed := False\<rparr>)
      in if kind = K_Overloaded \<and> is_signed then fill_complete Out_Shed f1 b
         else if kind = K_StaleMembership
         then (case f_walk f1 of
                 Remaining _ \<Rightarrow>
                   Some (Inl IncompatibleMembership, fill_outcome (Inl IncompatibleMembership) f1, b)
               | _ \<Rightarrow> if no_refresh then fill_complete Out_StaleMembership f1 b
                      else Some (Inr Act_Refresh, f1\<lparr>f_hedge_refresh := False\<rparr>, b))
         else if kind = K_Unavailable \<and> is_signed \<and> ev_rank0_probe (f_out f1) \<and> fill_has f1 FT_RANK0_FAILED
         then fill_complete Out_Failed f1 b
         else if has_payload kind then Some (Inr Act_Validate, f1, b)
         else case fill_classify f1 pr kind of
                Inr out \<Rightarrow> fill_complete out f1 b
              | Inl e \<Rightarrow> Some (Inl e, fill_outcome (Inl e) f1, b))"

definition fill_timed_out :: "probe \<Rightarrow> fill \<Rightarrow> budget \<Rightarrow> fill_result" where
  "fill_timed_out pr f b =
     (let rank0 = (ev_rank0_probe (f_out f) \<or>
                   (f_rank f = None \<and> pr_canonical pr = 0 \<and> \<not> ev_helper (f_out f)))
      in fill_complete Out_TimedOut
           (if fill_page f then fill_silence (Sil_TimedOut (if rank0 then RANK0_TIMEOUTS else NO_PING)) f
            else f) b)"

definition fill_failed :: "error \<Rightarrow> bool \<Rightarrow> bool \<Rightarrow> fill \<Rightarrow> budget \<Rightarrow> fill_result" where
  "fill_failed e sent scope_live f b =
     (case (case transport_outcome e of
              Some x \<Rightarrow> Some x
            | None \<Rightarrow> if ev_granted (f_out f) \<and> scope_live then Some Unreachable else None) of
        None \<Rightarrow> Some (Inl e, if sent then fill_outcome (Inl e) f else f, b)
      | Some x \<Rightarrow>
          if \<not> sent
          then fill_walk_complete (Out_Transport x)
                 (f\<lparr>f_out := evidence_default\<lparr>ev_notes := ev_notes (f_out f)\<rparr>\<rparr>) b
          else fill_complete (Out_Transport x) f b)"

definition fill_reply :: "reply \<Rightarrow> fill \<Rightarrow> budget \<Rightarrow> fill_result" where
  "fill_reply reply f b =
     (case f_probe f of
        None \<Rightarrow> None
      | Some pr \<Rightarrow>
          (case fill_pending f of
             (no_refresh, f1) \<Rightarrow>
               let f2 = f1\<lparr>f_signed := False\<rparr> in
               case reply of
                 Answer kind is_signed \<Rightarrow> fill_answer kind is_signed no_refresh pr f2 b
               | ReplyTimedOut \<Rightarrow> fill_timed_out pr f2 b
               | ReplyFailed e sent scope_live \<Rightarrow> fill_failed e sent scope_live f2 b))"

subsection \<open>Events\<close>

definition fill_previous_ranked :: "ranked res \<Rightarrow> fill \<Rightarrow> fill" where
  "fill_previous_ranked ranked f =
     (case (ranked, f_rank f) of
        (Inr previous, Some rank) \<Rightarrow>
          let targets = filter (\<lambda>n. n \<noteq> NOT_MEMBER)
                          (handoff_targets (rk_owners previous) (f_owners f) rank);
              f1 = (if rk_recent_member previous
                    then f\<lparr>f_previous := same_rank_previous (rk_owners previous) (f_owners f) rank\<rparr>
                    else f)
          in f1\<lparr>f_handoff := merge_handoff targets (f_lineage_targets f1)\<rparr>
      | _ \<Rightarrow> f)"

definition fill_hints :: "nat list \<Rightarrow> rank0_state \<Rightarrow> fill \<Rightarrow> fill" where
  "fill_hints hints rank0 f =
     (case f_rank f of
        None \<Rightarrow> f\<lparr>f_rank0 := rank0\<rparr>
      | Some rank \<Rightarrow>
          (case successor_targets hints (f_owners f) rank of
             [] \<Rightarrow> f\<lparr>f_rank0 := rank0\<rparr>
           | targets \<Rightarrow>
               (case with_successors targets (f_handoff f) of
                  (handoff, successors) \<Rightarrow>
                    f\<lparr>f_handoff := handoff, f_successors := successors, f_rank0 := rank0\<rparr>)))"

definition fill_hedge_lost :: "bool \<Rightarrow> probe_outcome option \<Rightarrow> fill \<Rightarrow> budget \<Rightarrow> fill_result" where
  "fill_hedge_lost stale primary f b =
     (let f1 = f\<lparr>f_continuation :=
                 \<lparr>ct_primary_consumed = (\<not> stale),
                  ct_primary_outcome =
                    (if \<not> stale
                     then Some (case primary of None \<Rightarrow> Unreachable | Some x \<Rightarrow> x) else None),
                  ct_bounded_routes = True\<rparr>\<rparr>
      in if stale then Some (Inr Act_Refresh, f1\<lparr>f_hedge_refresh := True\<rparr>, b)
         else fill_start_walk f1 b)"

definition fill_hedged :: "hedge_end \<Rightarrow> fill \<Rightarrow> budget \<Rightarrow> fill_result" where
  "fill_hedged e f b =
     (let f1 = f\<lparr>f_hedge := False\<rparr> in
      case e of
        HedgeNotStarted \<Rightarrow> fill_start_walk f1 b
      | HedgeWon \<Rightarrow> fill_ok (fill_walked FromHedge f1) b
      | HedgeLost stale primary err \<Rightarrow>
          (case err of
             Some e \<Rightarrow> if \<not> hedge_fallback e then Some (Inl e, f1, b)
                       else fill_hedge_lost stale primary f1 b
           | None \<Rightarrow> fill_hedge_lost stale primary f1 b))"

definition fill_handle :: "event \<Rightarrow> fill \<Rightarrow> budget \<Rightarrow> instant \<Rightarrow> fill_result" where
  "fill_handle event f b now =
     (case event of
        Ev_Start local_hit \<Rightarrow>
          if local_hit then Some (Inr (Act_Done (Inr FromLocal)), f, b)
          else fill_ok (fill_rank_next RankCurrent None f) b
      | Ev_Ranked ranked \<Rightarrow>
          (case f_ranking f of
             RankCurrent \<Rightarrow>
               (case ranked of Inl e \<Rightarrow> Some (Inl e, f, b) | Inr r \<Rightarrow> fill_ranked r f b)
           | RankPrevious \<Rightarrow> fill_targets (fill_previous_ranked ranked f) b
           | RankFallback \<Rightarrow> fill_fallback_ranked ranked f b now
           | RankAuthority \<Rightarrow>
               (case ranked of
                  Inl e \<Rightarrow> Some (Inl e, f, b)
                | Inr r \<Rightarrow>
                    if rk_owners r \<noteq> f_owners f then Some (Inl IncompatibleMembership, f, b)
                    else Some (Inr (Act_Origin (f_origin_rank f)),
                               f\<lparr>f_origin_pending := \<not> fc_walk_only (f_config f)\<rparr>, b)))
      | Ev_Hints hints rank0 \<Rightarrow> fill_walk_or_hedge (fill_hints hints rank0 f) b
      | Ev_Hedge e \<Rightarrow> fill_hedged e f b
      | Ev_Reply reply \<Rightarrow> fill_reply reply f b
      | Ev_Validated result \<Rightarrow>
          (case result of
             Inr None \<Rightarrow> fill_complete Out_Copy f b
           | Inr (Some x) \<Rightarrow> fill_complete (Out_Probe x) f b
           | Inl e \<Rightarrow> Some (Inl e, fill_outcome (Inl e) (snd (fill_pending f)), b))
      | Ev_NoHelper \<Rightarrow>
          (case f_walk f of
             Candidates w \<Rightarrow> fill_complete_walk w (Out_Probe CopyMiss) False f b
           | _ \<Rightarrow> Some (Inr Act_Idle, f, b))
      | Ev_BatchDone copy \<Rightarrow>
          (case f_walk f of
             Candidates w \<Rightarrow>
               (case walk_complete_granted w copy of
                  None \<Rightarrow> None
                | Some (Some e, w') \<Rightarrow> fill_ok (fill_end e (f\<lparr>f_walk := Candidates w'\<rparr>)) b
                | Some (None, w') \<Rightarrow> fill_next (f\<lparr>f_walk := Candidates w'\<rparr>) b)
           | _ \<Rightarrow> Some (Inr Act_Idle, f, b))
      | Ev_Timer \<Rightarrow>
          if f_waiting f then fill_next (f\<lparr>f_waiting := False\<rparr>) b else Some (Inr Act_Idle, f, b)
      | Ev_Membership latest previous_recent_member \<Rightarrow>
          fill_membership latest previous_recent_member f b now
      | Ev_Origin result \<Rightarrow>
          if \<not> f_origin_pending f then None
          else let f1 = f\<lparr>f_origin_pending := False\<rparr> in
            (case result of
               Inr () \<Rightarrow> fill_ok (fill_publish FromOrigin f1) b
             | Inl e \<Rightarrow>
                 if e = VersionUnavailable
                 then fill_next
                   ((fill_note N_REMAINING f1)
                     \<lparr>f_walk := Remaining (remaining_new
                        (case f_rank f1 of None \<Rightarrow> 0 | Some r \<Rightarrow> r) (length (f_owners f1)))\<rparr>) b
                 else Some (Inl e, f1, b))
      | Ev_Published result \<Rightarrow>
          (case result of
             Inr () \<Rightarrow> Some (Inr (Act_Done (Inr (f_source f))), f, b)
           | Inl e \<Rightarrow> Some (Inl e, f, b))
      | Ev_Abort e \<Rightarrow> Some (Inl e, f, b))"

definition fill_on ::
  "event \<Rightarrow> fill \<Rightarrow> budget \<Rightarrow> instant \<Rightarrow> (action \<times> evidence \<times> fill \<times> budget) option" where
  "fill_on event f b now =
     (case fill_handle event f b now of
        None \<Rightarrow> None
      | Some (Inr act, f', b') \<Rightarrow> Some (act, f_out f', f'\<lparr>f_out := evidence_default\<rparr>, b')
      | Some (Inl e, f', b') \<Rightarrow>
          let b'' = (case f_walk f' of
                       Candidates w \<Rightarrow> (case walk_abandon w b' of (_, _, b'') \<Rightarrow> b'')
                     | _ \<Rightarrow> b')
          in Some (Act_Done (Inl e), f_out f', f'\<lparr>f_walk := NoWalk, f_out := evidence_default\<rparr>, b''))"

end
