(* ===== verification/Racer_Fill_Props.thy ===== *)
theory Racer_Fill_Props
  imports Racer_Walk_Props Racer_Fill
begin

section \<open>Every read's acquisition runs to its end\<close>

text \<open>
  A read's acquisition (\<open>Racer_Fill\<close>) driven by a caller that answers each action with an event of the
  documented kind. One invariant relates the last action to the state; with it no assertion of the fill
  or of the walk it drives can fire, every event lowers a potential, so the acquisition ends, a read
  changes its membership at most once, and origin is only asked with authority.
\<close>

subsection \<open>The walk inside a fill\<close>

definition walk_idle :: "walk \<Rightarrow> bool" where
  "walk_idle w \<longleftrightarrow> wk_pending w = None \<and> wk_batch w = 0 \<and> \<not> wk_done w"

definition walk_asking :: "walk \<Rightarrow> bool" where
  "walk_asking w \<longleftrightarrow> wk_pending w \<noteq> None \<and> wk_batch w = 0 \<and> \<not> wk_done w"

definition walk_batching :: "walk \<Rightarrow> bool" where
  "walk_batching w \<longleftrightarrow> wk_pending w = None \<and> 0 < wk_batch w \<and> \<not> wk_done w"

lemmas walk_phase_defs = walk_idle_def walk_asking_def walk_batching_def

definition evidence_ok :: "walk_config \<Rightarrow> walk \<Rightarrow> bool" where
  "evidence_ok c w \<longleftrightarrow>
     (\<forall>r. wc_rank c = Some r \<longrightarrow> \<not> ct_primary_consumed (wc_continuation c) \<longrightarrow> \<not> wk_done w \<longrightarrow>
        length (wk_evidence w) = min (wk_index w) (min r 2))"

definition walk_good :: "walk \<Rightarrow> bool" where
  "walk_good w \<longleftrightarrow>
     config_ok (wk_config w) \<and> walk_ok (wk_config w) w \<and> pending_ok w \<and> evidence_ok (wk_config w) w"

text \<open>How many completions a walk has left.\<close>

definition walk_work :: "walk \<Rightarrow> nat" where
  "walk_work w =
     (walk_bound (wk_config w) - wk_index w) + (if wk_helper w = H_Used then 0 else 1) +
     (case wk_pending w of Some p \<Rightarrow> if pd_helper p then 1 else 0 | None \<Rightarrow> 0)"

lemma walk_good_new:
  assumes "config_ok c"
  shows "walk_good (walk_new c) \<and> walk_idle (walk_new c) \<and> walk_work (walk_new c) \<le> 11 \<and>
    wk_config (walk_new c) = c"
proof -
  have fields: "wk_config (walk_new c) = c" "wk_pending (walk_new c) = None" "wk_batch (walk_new c) = 0"
    "\<not> wk_done (walk_new c)" "wk_index (walk_new c) = 0" "wk_evidence (walk_new c) = []"
    "wk_helper (walk_new c) = H_Unset"
    by (simp_all add: walk_new_def Let_def)
  moreover have "walk_bound c \<le> 10"
    using assms
    by (auto simp: config_ok_def walk_bound_def order_ok_def MAX_TARGETS_def REPLICAS_BELOW_def
        MAX_HANDOFF_def MAX_LINEAGE_def split: option.splits)
  ultimately show ?thesis
    using walk_ok_new [OF assms] assms
    by (simp add: walk_good_def walk_idle_def pending_ok_def evidence_ok_def walk_work_def)
qed

lemma walk_next_some: "walk_idle w \<Longrightarrow> walk_next w b \<noteq> None"
  by (simp add: walk_next_def walk_idle_def Let_def del: not_None_eq)

lemma walk_complete_some: "walk_asking w \<Longrightarrow> walk_complete w b out \<noteq> None"
  by (auto simp: walk_complete_def walk_asking_def Let_def simp del: not_None_eq split: option.splits)

lemma walk_good_next:
  assumes good: "walk_good w" and nxt: "walk_next w b = Some (Inr st, w', b')"
  shows "wk_config w' = wk_config w \<and>
    (case st of
       Step_Probe pr \<Rightarrow> walk_good w' \<and> walk_asking w' \<and> walk_work w' \<le> walk_work w
     | Step_Granted ps \<Rightarrow> ps \<noteq> [] \<and> walk_good w' \<and> walk_batching w' \<and> walk_work w' < walk_work w
     | Step_End e \<Rightarrow> e \<noteq> End_Copy \<and> e \<noteq> End_StaleMembership)"
proof -
  let ?c = "wk_config w"
  have ok: "walk_ok ?c w" using good by (simp add: walk_good_def)
  from walk_ok_next [OF ok nxt] obtain w1 where
    w1: "prepared b w w1" "walk_ok ?c w1" "plan_step (wk_helper w = H_Due) w1 b (Inr st) w' b'"
      "wk_pending w = None" "wk_pending w1 = None" "wk_batch w = 0" "\<not> wk_done w" "walk_ok ?c w'"
    by blast
  have cfg: "wk_config w' = ?c" "wk_config w1 = ?c" using w1(2,8) by (simp_all add: walk_ok_def)
  have prep: "wk_batch w1 = 0" "\<not> wk_done w1" "wk_index w \<le> wk_index w1"
    "wk_helper w = H_Used \<Longrightarrow> wk_helper w1 = H_Used"
    using w1(1,6,7) unfolding prepared_def by auto
  have ev: "evidence_ok ?c w'"
    unfolding evidence_ok_def
    using evidence_next [OF _ _ _ ok nxt] good w1(7) by (auto simp: walk_good_def evidence_ok_def)
  have good': "walk_good w'"
    using good w1(8) pending_ok_plan [OF w1(3,5)] ev by (simp add: walk_good_def cfg)
  show ?thesis
    using w1(3)
  proof cases
    case (ps_probe pr p)
    then show ?thesis
      using good' prep w1(4,5) cfg by (auto simp: walk_asking_def walk_work_def)
  next
    case (ps_helper pr p)
    then show ?thesis
      using good' prep w1(4,5) cfg by (auto simp: walk_asking_def walk_work_def)
  next
    case ps_granted
    with granted_run_length [OF w1(2)] have len: "0 < length (granted_run w1)"
      "wk_index w1 + length (granted_run w1) \<le> walk_bound ?c" by auto
    then have "walk_bound ?c - (wk_index w1 + length (granted_run w1)) < walk_bound ?c - wk_index w"
      using prep(3) by linarith
    then have "walk_work w' < walk_work w" using ps_granted prep(4) w1(4,5) cfg by (auto simp: walk_work_def)
    with len(1) show ?thesis
      using ps_granted good' prep w1(4,5) cfg by (auto simp: walk_batching_def granted_probes_def)
  next
    case ps_end
    from walk_stop_effect [OF ps_end(2)] have "st = Step_End (walk_finish w1)" by simp
    then show ?thesis using cfg by (auto simp: walk_finish_def split: option.splits)
  qed
qed

lemma walk_good_origin:
  assumes good: "walk_good w" and nxt: "walk_next w b = Some (Inr (Step_End (End_Origin rank ev)), w', b')"
  shows "wc_rank (wk_config w) = Some rank \<and>
    (\<not> ct_primary_consumed (wc_continuation (wk_config w)) \<longrightarrow>
     \<not> ct_bounded_routes (wc_continuation (wk_config w)) \<longrightarrow> length ev = rank)"
proof -
  let ?c = "wk_config w"
  have ok: "walk_ok ?c w" "config_ok ?c" using good by (simp_all add: walk_good_def)
  from walk_ok_next [OF ok(1) nxt] obtain w1 where
    w1: "prepared b w w1" "walk_ok ?c w1" "plan_step (wk_helper w = H_Due) w1 b (Inr (Step_End (End_Origin rank ev))) w' b'"
      "\<not> wk_done w" by blast
  have fin: "walk_over w1 \<and> End_Origin rank ev = walk_finish w1"
    using w1(3)
  proof cases
    case ps_end
    with walk_stop_effect [OF ps_end(2)] show ?thesis by simp
  qed
  have cfg: "wk_config w1 = ?c" using w1(2) by (simp add: walk_ok_def)
  then have rank: "wc_rank ?c = Some rank" and ev: "ev = wk_evidence w1"
    using fin by (auto simp: walk_finish_def split: option.splits if_splits)
  have "length ev = rank"
    if free: "\<not> ct_primary_consumed (wc_continuation ?c)" "\<not> ct_bounded_routes (wc_continuation ?c)"
  proof -
    have own: "rank < wc_owners ?c" "wc_owners ?c \<le> 3" using ok(2) rank by (auto simp: config_ok_def)
    have ix: "wk_index w1 = wk_index w" "wk_evidence w1 = wk_evidence w"
      using prepared_index [OF w1(1)] free(1) w1(1) by (simp_all add: prepared_def)
    have "min rank 2 \<le> wk_index w1"
      using owner_over [OF w1(2) rank own(1) _ free(2)] fin by simp
    moreover have "length ev = min (wk_index w) (min rank 2)"
      using good rank free(1) w1(4) ev ix by (simp add: walk_good_def evidence_ok_def)
    ultimately show ?thesis using own ix by auto
  qed
  with rank show ?thesis by blast
qed

lemma walk_stale_end:
  assumes "walk_complete w b out = Some (Inr (Some End_StaleMembership), w', b')" and "wk_pending w = Some p"
  shows "out = Out_StaleMembership \<and> \<not> pd_handoff p \<and> \<not> pd_previous p"
proof -
  obtain b1 where b1: "reunite_pending p b = Inr b1"
    using assms by (cases "reunite_pending p b") (auto simp: walk_complete_def Let_def)
  obtain w1 out' where norm: "walk_normalize (w\<lparr>wk_pending := None\<rparr>) p out = (w1, out')" by force
  have out: "out' = Out_StaleMembership \<Longrightarrow> out = Out_StaleMembership"
    using norm by (cases out) (auto simp: walk_normalize_def)
  have owner: "\<exists>v bv. walk_owner_outcome v bv p out' = (Inr (Some End_StaleMembership), w', b')"
  proof (cases "pd_helper p")
    case True
    then have "walk_helper_outcome (walk_note_overload w1 p out') b1 out' =
        (Inr (Some End_StaleMembership), w', b')"
      using assms b1 norm by (simp add: walk_complete_def)
    then show ?thesis by (cases out') (auto simp: walk_helper_outcome_def)
  next
    case False
    then show ?thesis
      using assms(1) unfolding walk_complete_def assms(2) option.case Let_def b1 sum.case norm prod.case
      by (auto split: if_split_asm)
  qed
  then obtain v bv where v: "walk_owner_outcome v bv p out' = (Inr (Some End_StaleMembership), w', b')" by blast
  then have "out' = Out_StaleMembership \<and> \<not> pd_handoff p \<and> \<not> pd_previous p"
    by (cases out') (auto simp: walk_owner_outcome_def split: if_split_asm)
  with out show ?thesis by blast
qed

lemma walk_good_complete:
  assumes good: "walk_good w" and ask: "walk_asking w" and pend: "wk_pending w = Some p"
    and fin: "walk_complete w b out = Some (Inr e, w', b')"
  shows "wk_config w' = wk_config w \<and>
    (e = None \<longrightarrow> walk_good w' \<and> walk_idle w' \<and> walk_work w' < walk_work w) \<and>
    e \<in> {None, Some End_Copy, Some End_StaleMembership, Some End_VersionUnavailable} \<and>
    (e = Some End_StaleMembership \<longrightarrow> out = Out_StaleMembership \<and> \<not> pd_handoff p \<and> \<not> pd_previous p)"
proof -
  let ?c = "wk_config w"
  have ok: "walk_ok ?c w" "config_ok ?c" using good by (simp_all add: walk_good_def)
  from walk_complete_completes [OF fin pend] have comp: "completes w p out e w'" by blast
  have cfg: "wk_config w' = ?c" using comp by (simp add: completes_def)
  have live: "walk_good w' \<and> walk_idle w' \<and> walk_work w' < walk_work w" if none: "e = None"
  proof -
    have flags: "wk_pending w' = None" "wk_batch w' = 0" "\<not> wk_done w'"
      using comp none ask by (simp_all add: completes_def walk_asking_def)
    have "evidence_ok ?c w'"
      unfolding evidence_ok_def
      using evidence_complete [OF ok(2) _ ok(1) pend comp] good ask
      by (auto simp: walk_good_def evidence_ok_def walk_asking_def)
    then have "walk_good w'"
      using walk_ok_complete [OF ok(1) pend comp] ok(2) flags(1) cfg by (simp add: walk_good_def pending_ok_def)
    moreover have "walk_work w' < walk_work w"
    proof (cases "pd_helper p")
      case True
      with ok(1) pend have "wk_helper w = H_Used" by (auto simp: walk_ok_def)
      with True comp pend flags cfg show ?thesis by (simp add: completes_def walk_work_def)
    next
      case False
      with ok(1) pend have "wk_index w < walk_bound ?c" by (auto simp: walk_ok_def)
      with False comp pend flags cfg show ?thesis by (auto simp: completes_def walk_work_def)
    qed
    ultimately show ?thesis using flags by (simp add: walk_idle_def)
  qed
  have "e \<in> {None, Some End_Copy, Some End_StaleMembership, Some End_VersionUnavailable}"
    using comp by (simp add: completes_def)
  with live cfg walk_stale_end [OF _ pend] fin show ?thesis by blast
qed

lemma walk_good_retry:
  assumes "walk_good w" and "walk_asking w" and "walk_retry_pending w b = (Inr (), w', b')"
  shows "walk_good w' \<and> walk_idle w' \<and> walk_work w' \<le> walk_work w \<and> wk_config w' = wk_config w"
proof -
  have w': "w' = w\<lparr>wk_pending := None\<rparr>"
    using assms(3) by (auto simp: walk_retry_pending_def Let_def split: option.splits sum.splits)
  with assms(1) have "walk_good w'"
    by (auto simp: walk_good_def walk_ok_def pending_ok_def evidence_ok_def)
  with assms(2) show ?thesis by (auto simp: w' walk_asking_def walk_idle_def walk_work_def)
qed

lemma walk_good_spend:
  assumes "walk_good w" and "walk_asking w" and "walk_set_request_budget w b spent = (w', b')"
  shows "walk_good w' \<and> walk_asking w' \<and> walk_work w' = walk_work w \<and> wk_config w' = wk_config w"
proof -
  obtain p where p: "wk_pending w = Some p" using assms(2) by (auto simp: walk_asking_def)
  show ?thesis
  proof (cases "pd_bounded p")
    case None
    with assms p show ?thesis by (auto simp: walk_set_request_budget_def)
  next
    case (Some child)
    then have w': "w' = w\<lparr>wk_pending := Some (p\<lparr>pd_bounded := Some spent\<rparr>)\<rparr>"
      using assms(3) p by (auto simp: walk_set_request_budget_def)
    have "walk_ok (wk_config w) w'"
      using walk_ok_spend [OF _ assms(3)] assms(1) by (simp add: walk_good_def)
    with assms(1) p w' Some have "walk_good w'"
      by (simp add: walk_good_def pending_ok_def evidence_ok_def)
    with assms(2) p show ?thesis by (auto simp: w' walk_asking_def walk_work_def)
  qed
qed

lemma walk_good_batch:
  assumes "walk_good w" and "walk_batching w"
  shows "walk_complete_granted w copy =
    (if copy then Some (Some End_Copy, w\<lparr>wk_batch := 0, wk_done := True\<rparr>)
     else Some (None, w\<lparr>wk_batch := 0\<rparr>)) \<and>
    walk_good (w\<lparr>wk_batch := 0\<rparr>) \<and> walk_idle (w\<lparr>wk_batch := 0\<rparr>) \<and>
    walk_work (w\<lparr>wk_batch := 0\<rparr>) = walk_work w"
proof -
  have "walk_good (w\<lparr>wk_batch := 0\<rparr>)"
    using assms by (simp add: walk_good_def walk_ok_def pending_ok_def evidence_ok_def walk_batching_def)
  with assms(2) show ?thesis
    by (simp add: walk_complete_granted_def walk_batching_def walk_idle_def walk_work_def)
qed

subsection \<open>The invariant of a fill\<close>

definition fill_base :: "fill \<Rightarrow> bool" where
  "fill_base f \<longleftrightarrow>
     length (f_owners f) \<le> 3 \<and> f_waits f \<le> MAX_STALE_WAITS \<and>
     \<not> ct_primary_consumed (f_continuation f) \<and>
     (f_rank f = None \<longrightarrow> order_ok (f_order f) \<and> vo_len (f_order f) \<le> length (f_owners f)) \<and>
     (\<forall>r. f_rank f = Some r \<longrightarrow> r < length (f_owners f))"

text \<open>The fill drives a candidate walk of its own ranking.\<close>

definition fill_walks :: "fill \<Rightarrow> walk \<Rightarrow> bool" where
  "fill_walks f w \<longleftrightarrow>
     f_walk f = Candidates w \<and> walk_good w \<and> wc_rank (wk_config w) = f_rank f \<and>
     wc_owners (wk_config w) = length (f_owners f) \<and>
     ct_bounded_routes (wc_continuation (wk_config w)) = f_bounded f \<and>
     (f_rank f \<noteq> None \<longrightarrow> \<not> ct_primary_consumed (wc_continuation (wk_config w)))"

definition fill_probing :: "fill \<Rightarrow> bool" where
  "fill_probing f \<longleftrightarrow>
     f_probe f \<noteq> None \<and>
     ((\<exists>w. fill_walks f w \<and> walk_asking w) \<or> (\<exists>r. f_walk f = Remaining r \<and> rw_pending r \<and>
        rw_index r < rw_owners r \<and> f_rank f \<noteq> None))"

definition fill_authority :: "fill \<Rightarrow> bool" where
  "fill_authority f \<longleftrightarrow>
     f_rank f = Some (f_origin_rank f) \<and>
     (\<not> f_bounded f \<longrightarrow> length (f_evidence f) = f_origin_rank f)"

fun fill_at :: "fill \<Rightarrow> action \<Rightarrow> bool" where
  "fill_at f (Act_Rank r v) =
     (f_ranking f = r \<and>
      (case r of
         RankCurrent \<Rightarrow> f_walk f = NoWalk
       | RankPrevious \<Rightarrow> f_walk f = NoWalk
       | RankFallback \<Rightarrow> f_rank f = None \<and> \<not> f_retried f \<and> (\<exists>w. fill_walks f w \<and> walk_asking w)
       | RankAuthority \<Rightarrow> f_walk f = NoWalk \<and> fill_authority f))"
| "fill_at f Act_Hints = (f_walk f = NoWalk)"
| "fill_at f (Act_Hedge eligible _ _) = (f_walk f = NoWalk \<and> (eligible \<longrightarrow> f_rank f = None))"
| "fill_at f Act_Refresh =
     (if f_hedge_refresh f then f_walk f = NoWalk
      else \<exists>w p. fill_walks f w \<and> walk_asking w \<and> wk_pending w = Some p \<and> \<not> pd_handoff p \<and> \<not> pd_previous p)"
| "fill_at f (Act_Probe pr) = (f_probe f = Some pr \<and> fill_probing f)"
| "fill_at f Act_Validate = fill_probing f"
| "fill_at f (Act_Batch _ _ _) = (\<exists>w. fill_walks f w \<and> walk_batching w)"
| "fill_at f (Act_Wait _) = (f_waiting f \<and> (\<exists>w. fill_walks f w \<and> walk_idle w))"
| "fill_at f (Act_Origin rank) =
     (f_walk f = NoWalk \<and> f_origin_pending f = (\<not> fc_walk_only (f_config f)) \<and> fill_authority f \<and>
      rank = f_origin_rank f)"
| "fill_at f (Act_Publish _) = True"
| "fill_at f (Act_Done _) = True"
| "fill_at f Act_Idle = False"

definition fill_inv :: "fill \<Rightarrow> action \<Rightarrow> bool" where
  "fill_inv f a \<longleftrightarrow> fill_base f \<and> fill_at f a"

text \<open>What is left to do: membership changes first, then the phases of one epoch.\<close>

definition fill_epochs :: "fill \<Rightarrow> nat" where
  "fill_epochs f = (if f_retried f then 0 else 102)"

definition walk_potential :: "fill \<Rightarrow> nat" where
  "walk_potential f =
     12 + 6 * (case f_walk f of Candidates w \<Rightarrow> walk_work w | _ \<Rightarrow> 0) + 6 * (MAX_STALE_WAITS - f_waits f)"

definition probe_potential :: "fill \<Rightarrow> nat \<Rightarrow> nat" where
  "probe_potential f k =
     (case f_walk f of
        Remaining r \<Rightarrow> 2 * (rw_owners r - rw_index r) + k
      | _ \<Rightarrow> walk_potential f + 2 + k)"

fun fill_phase :: "fill \<Rightarrow> action \<Rightarrow> nat" where
  "fill_phase f (Act_Rank r _) =
     (case r of RankCurrent \<Rightarrow> 101 | RankPrevious \<Rightarrow> 100 | RankFallback \<Rightarrow> walk_potential f + 2
      | RankAuthority \<Rightarrow> 11)"
| "fill_phase f Act_Hints = 99"
| "fill_phase f (Act_Hedge _ _ _) = 98"
| "fill_phase f Act_Refresh = (if f_hedge_refresh f then 97 else walk_potential f + 3)"
| "fill_phase f (Act_Probe _) = probe_potential f 2"
| "fill_phase f Act_Validate = probe_potential f 1"
| "fill_phase f (Act_Batch _ _ _) = walk_potential f + 5"
| "fill_phase f (Act_Wait _) = walk_potential f + 5"
| "fill_phase f (Act_Origin _) = 10"
| "fill_phase f (Act_Publish _) = 1"
| "fill_phase f (Act_Done _) = 0"
| "fill_phase f Act_Idle = 0"

definition fill_pot :: "fill \<Rightarrow> action \<Rightarrow> nat" where
  "fill_pot f a = fill_epochs f + fill_phase f a"

text \<open>How the membership a read walks may change with one event.\<close>

definition fill_moves :: "fill \<Rightarrow> fill \<Rightarrow> action \<Rightarrow> bool" where
  "fill_moves f0 f a \<longleftrightarrow>
     (f_retried f0 \<longrightarrow> f_retried f) \<and>
     (case a of
        Act_Rank RankCurrent v \<Rightarrow> \<not> f_retried f0 \<and> f_retried f \<and> (\<exists>x. v = Some x \<and> f_version f0 < x)
      | Act_Rank RankFallback v \<Rightarrow> \<not> f_retried f0 \<and> f_rank f0 = None \<and> v = Some (f_version f0 - 1)
      | _ \<Rightarrow> True)"

definition fill_good :: "fill \<Rightarrow> nat \<Rightarrow> fill_result \<Rightarrow> bool" where
  "fill_good f0 k r =
     (case r of
        None \<Rightarrow> False
      | Some (Inl _, _, _) \<Rightarrow> True
      | Some (Inr a, f, _) \<Rightarrow> fill_inv f a \<and> fill_pot f a < k \<and> fill_moves f0 f a)"

lemma fill_good_simps [simp]:
  "\<not> fill_good f0 k None"
  "fill_good f0 k (Some (Inl e, f, b))"
  "fill_good f0 k (Some (Inr a, f, b)) = (fill_inv f a \<and> fill_pot f a < k \<and> fill_moves f0 f a)"
  by (simp_all add: fill_good_def)

lemma fill_good_mono: "fill_good f0 k r \<Longrightarrow> k \<le> k' \<Longrightarrow> fill_good f0 k' r"
  by (auto simp: fill_good_def split: option.splits sum.splits)

lemma fill_good_error [simp]: "fill_good f0 k (fill_ok (Inl e, f) b)"
  by (simp add: fill_ok_def)

subsection \<open>Each handler keeps the invariant\<close>

lemmas fill_out_defs = fill_note_def fill_outcome_def fill_silence_def

lemma fill_pending_out: "\<exists>ev. snd (fill_pending f) = f\<lparr>f_out := ev\<rparr>"
proof (cases "f_walk f")
  case (Candidates w)
  then show ?thesis by (simp add: fill_pending_def Let_def) blast
next
  case NoWalk
  then show ?thesis by (simp add: fill_pending_def) (rule exI [of _ "f_out f"], simp)
next
  case (Remaining r)
  then show ?thesis by (simp add: fill_pending_def) (rule exI [of _ "f_out f"], simp)
qed

text \<open>Only what the event showed changes: everything the invariant reads stays.\<close>

lemma fill_base_out [simp]: "fill_base (f\<lparr>f_out := ev\<rparr>) = fill_base f"
  by (simp add: fill_base_def)

lemma fill_walks_out [simp]: "fill_walks (f\<lparr>f_out := ev\<rparr>) w = fill_walks f w"
  by (simp add: fill_walks_def)

lemma fill_epochs_out [simp]: "fill_epochs (f\<lparr>f_out := ev\<rparr>) = fill_epochs f"
  by (simp add: fill_epochs_def)

lemma fill_walked_good:
  assumes "fill_base f" and "1 < k" and "f_retried f0 \<longrightarrow> f_retried f"
  shows "fill_good f0 (fill_epochs f + k) (fill_ok (fill_walked source f) b)"
  using assms
  by (auto simp: fill_walked_def fill_publish_def fill_ok_def fill_inv_def fill_pot_def fill_moves_def
      fill_base_def fill_epochs_def)

lemma fill_end_origin:
  assumes "fill_base f" and "f_rank f = Some rank" and "\<not> f_bounded f \<longrightarrow> length ev = rank"
    and "f_retried f0 \<longrightarrow> f_retried f"
  shows "fill_good f0 (fill_epochs f + 12) (fill_ok (fill_end (End_Origin rank ev) f) b)"
  using assms
  by (auto simp: fill_end_def Let_def fill_take_flags_def fill_rank_next_def fill_ok_def fill_inv_def
      fill_pot_def fill_moves_def fill_base_def fill_epochs_def fill_authority_def fill_out_defs
      split: walking.split)

lemma fill_end_stale:
  assumes "fill_base f" and "\<not> f_retried f0" and "\<not> f_retried f" and "f_version f0 < f_latest f"
  shows "fill_good f0 (fill_epochs f + k) (fill_ok (fill_end End_StaleMembership f) b)"
  using assms
  by (auto simp: fill_end_def Let_def fill_take_flags_def fill_rank_next_def fill_ok_def fill_inv_def
      fill_pot_def fill_moves_def fill_base_def fill_epochs_def fill_out_defs continuation_default_def
      split: walking.split)

lemma fill_end_copy:
  assumes "fill_base f" and "f_retried f0 \<longrightarrow> f_retried f"
  shows "fill_good f0 (fill_epochs f + 2) (fill_ok (fill_end End_Copy f) b)"
proof -
  let ?f = "fill_note N_WALK_COPY ((fill_take_flags f)\<lparr>f_walk := NoWalk\<rparr>)"
  have "fill_base ?f \<and> f_retried ?f = f_retried f \<and> fill_epochs ?f = fill_epochs f"
    using assms(1)
    by (auto simp: fill_take_flags_def Let_def fill_out_defs fill_base_def fill_epochs_def split: walking.split)
  with fill_walked_good [of ?f 2 f0 FromPeer b] assms(2) show ?thesis
    by (simp add: fill_end_def Let_def)
qed

lemma fill_end_error:
  "e = End_VersionUnavailable \<or> (\<exists>x. e = End_Exhausted x) \<Longrightarrow> fill_good f0 k (fill_ok (fill_end e f) b)"
  by (auto simp: fill_end_def Let_def fill_ok_def)

lemma fill_walks_step:
  assumes "fill_walks f w" and "walk_good w'" and "wk_config w' = wk_config w"
  shows "fill_walks (f\<lparr>f_walk := Candidates w'\<rparr>) w'"
  using assms by (simp add: fill_walks_def)

lemma fill_base_walk [simp]: "fill_base (f\<lparr>f_walk := x\<rparr>) = fill_base f"
  by (simp add: fill_base_def)

lemma fill_epochs_walk [simp]: "fill_epochs (f\<lparr>f_walk := x\<rparr>) = fill_epochs f"
  by (simp add: fill_epochs_def)

text \<open>The bound for what planning may return.\<close>

definition next_pot :: "fill \<Rightarrow> nat \<Rightarrow> nat" where
  "next_pot f n = fill_epochs f + 17 + 6 * n + 6 * (MAX_STALE_WAITS - f_waits f)"

lemma fill_next_good:
  assumes base: "fill_base f" and walks: "fill_walks f w" and idle: "walk_idle w"
    and mono: "f_retried f0 \<longrightarrow> f_retried f"
  shows "fill_good f0 (next_pot f (walk_work w)) (fill_next f b)"
proof -
  have w: "f_walk f = Candidates w" "walk_good w" using walks by (simp_all add: fill_walks_def)
  obtain r w' b' where nxt: "walk_next w b = Some (r, w', b')"
    using walk_next_some [OF idle, of b] by auto
  show ?thesis
  proof (cases r)
    case (Inl e)
    then show ?thesis using w nxt by (simp add: fill_next_def)
  next
    case (Inr st)
    note step = walk_good_next [OF w(2) nxt [unfolded Inr]]
    let ?f = "f\<lparr>f_walk := Candidates w'\<rparr>"
    show ?thesis
    proof (cases st)
      case (Step_Probe pr)
      have "fill_walks ?f w'" using fill_walks_step [OF walks] step Step_Probe by simp
      then have "fill_walks (?f\<lparr>f_probe := Some pr\<rparr>) w'" by (simp add: fill_walks_def)
      moreover have "fill_base (?f\<lparr>f_probe := Some pr\<rparr>)" using base by (simp add: fill_base_def)
      moreover have "walk_asking w'" "walk_work w' \<le> walk_work w" using step Step_Probe by simp_all
      ultimately show ?thesis
        using w nxt Inr Step_Probe mono
        by (auto simp: fill_next_def fill_inv_def fill_probing_def fill_pot_def probe_potential_def
            walk_potential_def next_pot_def fill_moves_def fill_epochs_def)
    next
      case (Step_Granted ps)
      then obtain q qs where ps: "ps = q # qs" using step by (cases ps) auto
      have "fill_walks ?f w'" using fill_walks_step [OF walks] step Step_Granted by simp
      moreover have "walk_batching w'" "walk_work w' < walk_work w" using step Step_Granted by simp_all
      ultimately show ?thesis
        using w nxt Inr Step_Granted ps base mono
        by (auto simp: fill_next_def fill_inv_def fill_pot_def walk_potential_def next_pot_def
            fill_moves_def fill_epochs_def)
    next
      case (Step_End e)
      have res: "fill_next f b = fill_ok (fill_end e ?f) b'"
        using w nxt Inr Step_End by (simp add: fill_next_def)
      show ?thesis
      proof (cases e)
        case (End_Origin rank ev)
        from walk_good_origin [OF w(2) nxt [unfolded Inr Step_End End_Origin]] walks
        have "f_rank f = Some rank" "\<not> f_bounded f \<longrightarrow> length ev = rank"
          by (auto simp: fill_walks_def)
        with fill_end_origin [of ?f rank ev f0 b'] base mono
        have "fill_good f0 (fill_epochs f + 12) (fill_next f b)" unfolding res End_Origin by simp
        then show ?thesis by (rule fill_good_mono) (simp add: next_pot_def)
      qed (use step Step_End res in \<open>auto intro: fill_end_error\<close>)
    qed
  qed
qed

lemma fill_complete_walk_good:
  assumes base: "fill_base f" and walks: "fill_walks f w" and ask: "walk_asking w"
    and mono: "f_retried f0 \<longrightarrow> f_retried f"
    and stale: "\<And>p. out = Out_StaleMembership \<Longrightarrow> wk_pending w = Some p \<Longrightarrow> \<not> pd_handoff p \<Longrightarrow>
      \<not> pd_previous p \<Longrightarrow> \<not> f_retried f0 \<and> \<not> f_retried f \<and> f_version f0 < f_latest f"
  shows "fill_good f0 (fill_epochs f + walk_potential f) (fill_complete_walk w out skipped f b)"
proof -
  have w: "f_walk f = Candidates w" "walk_good w" using walks by (simp_all add: fill_walks_def)
  obtain p where p: "wk_pending w = Some p" using ask by (auto simp: walk_asking_def)
  obtain r w' b' where fin: "walk_complete w b out = Some (r, w', b')"
    using walk_complete_some [OF ask, of b out] by auto
  show ?thesis
  proof (cases r)
    case (Inl e)
    then show ?thesis using fin by (simp add: fill_complete_walk_def)
  next
    case (Inr e)
    note step = walk_good_complete [OF w(2) ask p fin [unfolded Inr]]
    let ?f = "f\<lparr>f_walk := Candidates w'\<rparr>"
    have res: "fill_complete_walk w out skipped f b = fill_after e skipped ?f b'"
      using fin Inr by (simp add: fill_complete_walk_def)
    show ?thesis
    proof (cases e)
      case None
      let ?g = "if skipped \<and> f_rank ?f = None \<and> \<not> f_retried ?f \<and> \<not> f_fell_back ?f
        then fill_note N_FALLBACK_BLOCKED ?f else ?f"
      have "fill_walks ?f w'" using fill_walks_step [OF walks] step None by simp
      then have "fill_walks ?g w'" "fill_base ?g" "f_retried f0 \<longrightarrow> f_retried ?g"
        and pot: "next_pot ?g (walk_work w') = next_pot f (walk_work w')"
        using base mono by (simp_all add: fill_note_def next_pot_def)
      then have "fill_good f0 (next_pot f (walk_work w')) (fill_next ?g b')"
        using fill_next_good [of ?g w' f0 b'] step None by simp
      then have "fill_good f0 (fill_epochs f + walk_potential f) (fill_next ?g b')"
        by (rule fill_good_mono) (use step None w in \<open>simp add: next_pot_def walk_potential_def\<close>)
      then show ?thesis unfolding res fill_after_def None by simp
    next
      case (Some x)
      have after: "fill_complete_walk w out skipped f b = fill_ok (fill_end x ?f) b'"
        unfolding res fill_after_def Some by simp
      from step Some consider "x = End_Copy" | "x = End_StaleMembership" | "x = End_VersionUnavailable"
        by auto
      then show ?thesis
      proof cases
        case 1
        have "fill_good f0 (fill_epochs f + 2) (fill_ok (fill_end x ?f) b')"
          using fill_end_copy [of ?f f0 b'] base mono unfolding 1 by simp
        then show ?thesis unfolding after by (rule fill_good_mono) (simp add: walk_potential_def)
      next
        case 2
        with step Some stale [OF _ p] show ?thesis
          using fill_end_stale [of ?f f0 "walk_potential f" b'] base unfolding after by simp
      next
        case 3
        then show ?thesis unfolding after by (simp add: fill_end_error)
      qed
    qed
  qed
qed

subsubsection \<open>The remaining walk\<close>

lemma fill_remaining_ended_good:
  assumes "fill_base f" and "f_retried f0 \<longrightarrow> f_retried f"
  shows "fill_good f0 (fill_epochs f + 2) (fill_ok (fill_remaining_ended e f) b)"
  using assms
  by (cases e) (auto simp: fill_remaining_ended_def Let_def fill_publish_def fill_ok_def fill_inv_def
      fill_pot_def fill_moves_def fill_base_def fill_epochs_def)

lemma fill_next_remaining:
  assumes base: "fill_base f" and walk: "f_walk f = Remaining r" "\<not> rw_pending r" "f_rank f \<noteq> None"
    and mono: "f_retried f0 \<longrightarrow> f_retried f"
  shows "fill_good f0 (fill_epochs f + 2 * (rw_owners r - rw_index r) + 3) (fill_next f b)"
proof (cases "rw_index r < rw_owners r")
  case True
  then have "remaining_next r = Some (Inr \<lparr>pr_index = rw_index r, pr_canonical = rw_index r,
      pr_mode = CopyOnly, pr_opportunities = rw_owners r - rw_index r, pr_route = SharedRoute,
      pr_previous = False\<rparr>, r\<lparr>rw_pending := True\<rparr>)"
    using walk by (simp add: remaining_next_def)
  then show ?thesis
    using base walk True mono
    by (auto simp: fill_next_def fill_inv_def fill_base_def fill_probing_def fill_pot_def
        probe_potential_def fill_moves_def fill_epochs_def)
next
  case False
  then obtain e where "remaining_next r = Some (Inl e, r)"
    using walk by (auto simp: remaining_next_def)
  then have "fill_next f b = fill_ok (fill_remaining_ended e (f\<lparr>f_walk := Remaining r\<rparr>)) b"
    using walk by (simp add: fill_next_def)
  with fill_remaining_ended_good [of "f\<lparr>f_walk := Remaining r\<rparr>" f0 e b] base mono
  show ?thesis by (auto intro: fill_good_mono)
qed

lemma fill_walk_complete_remaining:
  assumes base: "fill_base f" and walk: "f_walk f = Remaining r" "rw_pending r" "rw_index r < rw_owners r"
      "f_rank f \<noteq> None"
    and mono: "f_retried f0 \<longrightarrow> f_retried f"
  shows "fill_good f0 (fill_epochs f + 2 * (rw_owners r - rw_index r) + 1) (fill_walk_complete out f b)"
proof -
  obtain e r' b' where comp: "remaining_complete r b out = Some (e, r', b')"
    using walk(2) by (cases "remaining_complete r b out") (auto simp: remaining_complete_def Let_def)
  have r': "rw_owners r' = rw_owners r" "rw_index r' = rw_index r + 1" "\<not> rw_pending r'"
    using comp walk(2) by (auto simp: remaining_complete_def Let_def split: outcome.splits)
  let ?f = "f\<lparr>f_walk := Remaining r'\<rparr>"
  show ?thesis
  proof (cases e)
    case None
    then have "fill_walk_complete out f b = fill_next ?f b'"
      using walk comp by (simp add: fill_walk_complete_def)
    moreover have "fill_good f0 (fill_epochs f + 2 * (rw_owners r - (rw_index r + 1)) + 3) (fill_next ?f b')"
      using fill_next_remaining [of ?f r' f0 b'] base r' mono walk(4) by simp
    ultimately show ?thesis using walk(3) by (auto elim: fill_good_mono)
  next
    case (Some x)
    then have "fill_walk_complete out f b = fill_ok (fill_remaining_ended x ?f) b'"
      using walk comp by (simp add: fill_walk_complete_def)
    with fill_remaining_ended_good [of ?f f0 x b'] base mono walk(3)
    show ?thesis by (auto elim!: fill_good_mono)
  qed
qed

subsubsection \<open>Answers to probes\<close>

lemma fill_frame [simp]:
  "fill_base (f\<lparr>f_signed := x\<rparr>) = fill_base f"
  "fill_walks (f\<lparr>f_signed := x\<rparr>) w = fill_walks f w"
  "fill_epochs (f\<lparr>f_signed := x\<rparr>) = fill_epochs f"
  "walk_potential (f\<lparr>f_signed := x\<rparr>) = walk_potential f"
  "walk_potential (f\<lparr>f_out := ev\<rparr>) = walk_potential f"
  "probe_potential (f\<lparr>f_signed := x\<rparr>) k = probe_potential f k"
  "probe_potential (f\<lparr>f_out := ev\<rparr>) k = probe_potential f k"
  by (simp_all add: fill_base_def fill_walks_def fill_epochs_def walk_potential_def probe_potential_def
      cong: walking.case_cong)

lemma fill_probing_frame [simp]:
  "fill_probing (f\<lparr>f_signed := x\<rparr>) = fill_probing f"
  "fill_probing (f\<lparr>f_out := ev\<rparr>) = fill_probing f"
  by (simp_all add: fill_probing_def)

text \<open>A stale answer that ends the walk comes with a newer membership to walk instead.\<close>

definition stale_ready :: "fill \<Rightarrow> outcome \<Rightarrow> fill \<Rightarrow> bool" where
  "stale_ready f0 out f \<longleftrightarrow>
     (out = Out_StaleMembership \<longrightarrow>
        (\<forall>w p. f_walk f = Candidates w \<longrightarrow> wk_pending w = Some p \<longrightarrow> \<not> pd_handoff p \<longrightarrow>
           \<not> pd_previous p \<longrightarrow> \<not> f_retried f0 \<and> \<not> f_retried f \<and> f_version f0 < f_latest f))"

lemma stale_ready_frame [simp]:
  "stale_ready f0 out (f\<lparr>f_signed := x\<rparr>) = stale_ready f0 out f"
  "stale_ready f0 out (f\<lparr>f_out := ev\<rparr>) = stale_ready f0 out f"
  by (simp_all add: stale_ready_def)

lemma stale_ready_other [simp]: "out \<noteq> Out_StaleMembership \<Longrightarrow> stale_ready f0 out f"
  by (simp add: stale_ready_def)

lemma fill_walk_complete_good:
  assumes "fill_base f" and "fill_probing f" and "f_retried f0 \<longrightarrow> f_retried f" and "stale_ready f0 out f"
  shows "fill_good f0 (fill_epochs f + probe_potential f 1) (fill_walk_complete out f b)"
proof -
  from assms(2) consider (cand) w where "fill_walks f w" "walk_asking w"
    | (rem) r where "f_walk f = Remaining r" "rw_pending r" "rw_index r < rw_owners r" "f_rank f \<noteq> None"
    by (auto simp: fill_probing_def)
  then show ?thesis
  proof cases
    case cand
    have w: "f_walk f = Candidates w" using cand(1) by (simp add: fill_walks_def)
    have "fill_good f0 (fill_epochs f + walk_potential f) (fill_complete_walk w out False f b)"
      using assms(4) w unfolding stale_ready_def
      by (intro fill_complete_walk_good [OF assms(1) cand assms(3)]) blast
    then show ?thesis
      unfolding fill_walk_complete_def w walking.case
      by (rule fill_good_mono) (simp add: probe_potential_def w)
  next
    case rem
    from fill_walk_complete_remaining [OF assms(1) rem assms(3)] rem show ?thesis
      by (simp add: probe_potential_def add.assoc)
  qed
qed

lemma fill_note_rank0_out: "\<exists>ev. fill_note_rank0 out f = f\<lparr>f_out := ev\<rparr>"
proof (cases "ev_rank0_probe (f_out f) \<and> \<not> ev_helper (f_out f) \<and>
    (f_signed f \<or> out = Out_TimedOut \<or> outcome_overloaded out)")
  case True
  then show ?thesis unfolding fill_note_rank0_def if_P [OF True] by (intro exI) (rule refl)
next
  case False
  have "f = f\<lparr>f_out := f_out f\<rparr>" by simp
  then show ?thesis unfolding fill_note_rank0_def if_not_P [OF False] by (rule exI)
qed

lemma fill_complete_good:
  assumes "fill_base f" and "fill_probing f" and "f_retried f0 \<longrightarrow> f_retried f" and "stale_ready f0 out f"
  shows "fill_good f0 (fill_epochs f + probe_potential f 1) (fill_complete out f b)"
proof -
  obtain ev where ev: "snd (fill_pending f) = f\<lparr>f_out := ev\<rparr>" using fill_pending_out by blast
  obtain ev' where "fill_note_rank0 out (fill_outcome (Inr out) (f\<lparr>f_out := ev\<rparr>)) = f\<lparr>f_out := ev'\<rparr>"
    using fill_note_rank0_out [of out "fill_outcome (Inr out) (f\<lparr>f_out := ev\<rparr>)"]
    by (auto simp: fill_outcome_def)
  then have "fill_complete out f b = fill_walk_complete out (f\<lparr>f_out := ev'\<rparr>) b"
    by (simp add: fill_complete_def ev)
  with fill_walk_complete_good [of "f\<lparr>f_out := ev'\<rparr>" f0 out b] assms show ?thesis by simp
qed

lemma fill_probing_refresh:
  assumes "fill_probing f" and "f_walk f = Candidates w"
  shows "fill_walks f w \<and> walk_asking w"
  using assms by (auto simp: fill_probing_def fill_walks_def)

lemma fill_pending_flag:
  "f_walk f = Candidates w \<Longrightarrow> wk_pending w = Some p \<Longrightarrow> fst (fill_pending f) = (pd_handoff p \<or> pd_previous p)"
  by (simp add: fill_pending_def Let_def)

lemma fill_answer_good:
  assumes base: "fill_base f" and probing: "fill_probing f" and mono: "f_retried f0 \<longrightarrow> f_retried f"
    and flag: "\<And>w p. f_walk f = Candidates w \<Longrightarrow> wk_pending w = Some p \<Longrightarrow>
      no_refresh = (pd_handoff p \<or> pd_previous p)"
  shows "fill_good f0 (fill_epochs f + probe_potential f 2) (fill_answer kind is_signed no_refresh pr f b)"
proof -
  define f1 where "f1 = (if is_signed
    then fill_silence (if kind = K_Overloaded \<and> fill_page f then Sil_Shed else Sil_Answered) (f\<lparr>f_signed := True\<rparr>)
    else f\<lparr>f_signed := False\<rparr>)"
  have f1: "fill_base f1" "fill_probing f1" "f_retried f0 \<longrightarrow> f_retried f1" "fill_epochs f1 = fill_epochs f"
    "probe_potential f1 k = probe_potential f k" "f_walk f1 = f_walk f" for k
    using base probing mono by (simp_all add: f1_def fill_silence_def)
  have complete: "fill_good f0 (fill_epochs f + probe_potential f 2) (fill_complete out f1 b)"
    if "stale_ready f0 out f1" for out
    using fill_complete_good [OF f1(1-3) that, of b] f1(4,5)
    by (auto elim!: fill_good_mono simp: probe_potential_def split: walking.splits)
  have stale: "fill_good f0 (fill_epochs f + probe_potential f 2)
      (case f_walk f1 of
         Remaining _ \<Rightarrow> Some (Inl IncompatibleMembership, fill_outcome (Inl IncompatibleMembership) f1, b)
       | _ \<Rightarrow> if no_refresh then fill_complete Out_StaleMembership f1 b
              else Some (Inr Act_Refresh, f1\<lparr>f_hedge_refresh := False\<rparr>, b))"
  proof (cases "f_walk f1")
    case NoWalk
    then show ?thesis using f1(2) by (auto simp: fill_probing_def fill_walks_def)
  next
    case (Candidates w)
    from fill_probing_refresh [OF f1(2) this] obtain p where
      w: "fill_walks f1 w" "walk_asking w" "wk_pending w = Some p" by (auto simp: walk_asking_def)
    have flag': "no_refresh = (pd_handoff p \<or> pd_previous p)" using flag Candidates f1(6) w(3) by simp
    show ?thesis
    proof (cases no_refresh)
      case True
      then have "stale_ready f0 Out_StaleMembership f1"
        using flag' Candidates w(3) by (auto simp: stale_ready_def)
      with complete True Candidates show ?thesis by simp
    next
      case False
      have "fill_walks (f1\<lparr>f_hedge_refresh := False\<rparr>) w" "fill_base (f1\<lparr>f_hedge_refresh := False\<rparr>)"
        using w(1) f1(1) by (simp_all add: fill_walks_def fill_base_def)
      with False w flag' Candidates f1(3,4) f1(5) [of 2] show ?thesis
        by (auto simp: fill_inv_def fill_pot_def fill_moves_def fill_epochs_def walk_potential_def
            probe_potential_def)
    qed
  next
    case (Remaining r)
    then show ?thesis by simp
  qed
  have validate: "fill_good f0 (fill_epochs f + probe_potential f 2) (Some (Inr Act_Validate, f1, b))"
    using f1(1-4) f1(5) [of 1]
    by (auto simp: fill_inv_def fill_pot_def fill_moves_def probe_potential_def split: walking.splits)
  have classified: "fill_good f0 (fill_epochs f + probe_potential f 2)
      (case fill_classify f1 pr kind of
         Inr out \<Rightarrow> fill_complete out f1 b
       | Inl e \<Rightarrow> Some (Inl e, fill_outcome (Inl e) f1, b))"
  proof (cases "fill_classify f1 pr kind")
    case (Inr out)
    then have "out \<noteq> Out_StaleMembership"
      by (auto simp: fill_classify_def split: sum.splits option.splits)
    with Inr complete show ?thesis by simp
  qed simp
  show ?thesis
    unfolding fill_answer_def Let_def f1_def [symmetric]
    using complete stale validate classified by (simp del: fill_good_simps(3))
qed

lemma fill_timed_out_good:
  assumes "fill_base f" and "fill_probing f" and "f_retried f0 \<longrightarrow> f_retried f"
  shows "fill_good f0 (fill_epochs f + probe_potential f 2) (fill_timed_out pr f b)"
proof -
  obtain ev where "fill_timed_out pr f b = fill_complete Out_TimedOut (f\<lparr>f_out := ev\<rparr>) b"
  proof (cases "fill_page f")
    case True
    with that show ?thesis by (auto simp: fill_timed_out_def Let_def fill_silence_def)
  next
    case False
    with that [of "f_out f"] show ?thesis by (simp add: fill_timed_out_def)
  qed
  with fill_complete_good [of "f\<lparr>f_out := ev\<rparr>" f0 Out_TimedOut b] assms show ?thesis
    by (auto elim!: fill_good_mono simp: probe_potential_def split: walking.splits)
qed

lemma fill_failed_good:
  assumes "fill_base f" and "fill_probing f" and "f_retried f0 \<longrightarrow> f_retried f"
  shows "fill_good f0 (fill_epochs f + probe_potential f 2) (fill_failed e sent scope_live f b)"
proof -
  have weaken: "fill_good f0 (fill_epochs f + probe_potential f 2) r"
    if "fill_good f0 (fill_epochs f + probe_potential f 1) r" for r
    using that by (auto elim!: fill_good_mono simp: probe_potential_def split: walking.splits)
  have "fill_good f0 (fill_epochs f + probe_potential f 2) (fill_complete (Out_Transport x) f b)" for x
    using fill_complete_good [OF assms, of "Out_Transport x" b] weaken by simp
  moreover have "fill_good f0 (fill_epochs f + probe_potential f 2)
      (fill_walk_complete (Out_Transport x) (f\<lparr>f_out := ev\<rparr>) b)" for x ev
    using fill_walk_complete_good [of "f\<lparr>f_out := ev\<rparr>" f0 "Out_Transport x" b] assms weaken by simp
  ultimately show ?thesis
    by (simp add: fill_failed_def split: option.split)
qed

lemma fill_reply_good:
  assumes base: "fill_base f" and probing: "fill_probing f" and mono: "f_retried f0 \<longrightarrow> f_retried f"
  shows "fill_good f0 (fill_epochs f + probe_potential f 2) (fill_reply reply f b)"
proof -
  obtain pr where pr: "f_probe f = Some pr" using probing by (auto simp: fill_probing_def)
  obtain ev where ev: "snd (fill_pending f) = f\<lparr>f_out := ev\<rparr>" using fill_pending_out by blast
  let ?f = "f\<lparr>f_out := ev, f_signed := False\<rparr>"
  have pend: "fill_pending f = (fst (fill_pending f), f\<lparr>f_out := ev\<rparr>)" by (simp add: ev [symmetric])
  have f: "fill_base ?f" "fill_probing ?f" "f_retried f0 \<longrightarrow> f_retried ?f" "fill_epochs ?f = fill_epochs f"
    "probe_potential ?f 2 = probe_potential f 2"
    using base probing mono by simp_all
  have res: "fill_reply reply f b =
      (case reply of
         Answer kind is_signed \<Rightarrow> fill_answer kind is_signed (fst (fill_pending f)) pr ?f b
       | ReplyTimedOut \<Rightarrow> fill_timed_out pr ?f b
       | ReplyFailed e sent scope_live \<Rightarrow> fill_failed e sent scope_live ?f b)"
    unfolding fill_reply_def pr option.case by (subst pend) (simp add: Let_def)
  show ?thesis
  proof (cases reply)
    case (Answer kind is_signed)
    have "fill_good f0 (fill_epochs ?f + probe_potential ?f 2)
        (fill_answer kind is_signed (fst (fill_pending f)) pr ?f b)"
      by (rule fill_answer_good [OF f(1-3)]) (simp add: fill_pending_flag)
    then show ?thesis unfolding res unfolding Answer by simp
  next
    case ReplyTimedOut
    then show ?thesis unfolding res using fill_timed_out_good [OF f(1-3)] by simp
  next
    case (ReplyFailed e sent scope_live)
    then show ?thesis unfolding res using fill_failed_good [OF f(1-3)] by simp
  qed
qed

subsubsection \<open>Starting a walk\<close>

lemma fill_start_walk_good:
  assumes len: "length (f_owners f) \<le> 3" and waits: "f_waits f \<le> MAX_STALE_WAITS"
    and cons: "f_rank f \<noteq> None \<longrightarrow> \<not> ct_primary_consumed (f_continuation f)"
    and reader: "f_rank f = None \<longrightarrow> order_ok (f_order f) \<and> vo_len (f_order f) \<le> length (f_owners f)"
    and owner: "\<And>r. f_rank f = Some r \<Longrightarrow> r < length (f_owners f)"
    and mono: "f_retried f0 \<longrightarrow> f_retried f"
  shows "fill_good f0 (fill_epochs f + 96) (fill_start_walk f b)"
proof -
  let ?c = "fill_walk_config f"
  let ?f = "f\<lparr>f_granted := fill_granted_count f, f_continuation := continuation_default,
    f_bounded := ct_bounded_routes (f_continuation f), f_walk := Candidates (walk_new ?c)\<rparr>"
  have conf: "config_ok ?c"
    using len reader owner by (auto simp: config_ok_def fill_walk_config_def split: option.split)
  note new = walk_good_new [OF conf]
  have "fill_base ?f"
    using len waits reader owner by (simp add: fill_base_def continuation_default_def)
  moreover have "fill_walks ?f (walk_new ?c)"
    using new cons by (simp add: fill_walks_def fill_walk_config_def)
  ultimately have "fill_good f0 (next_pot ?f (walk_work (walk_new ?c))) (fill_next ?f b)"
    using new mono by (intro fill_next_good) simp_all
  then have "fill_good f0 (fill_epochs f + 96) (fill_next ?f b)"
    by (rule fill_good_mono) (use new in \<open>simp add: next_pot_def fill_epochs_def MAX_STALE_WAITS_def, arith\<close>)
  then show ?thesis by (simp add: fill_start_walk_def)
qed

lemma fill_base_start:
  assumes "fill_base f" and "f_retried f0 \<longrightarrow> f_retried f"
  shows "fill_good f0 (fill_epochs f + 96) (fill_start_walk f b)"
  using assms by (intro fill_start_walk_good) (simp_all add: fill_base_def)

lemma fill_walk_or_hedge_good:
  assumes base: "fill_base f" and walk: "f_walk f = NoWalk" and mono: "f_retried f0 \<longrightarrow> f_retried f"
  shows "fill_good f0 (fill_epochs f + 99) (fill_walk_or_hedge f b)"
proof (cases "f_hedge f")
  case True
  then show ?thesis
    using assms
    by (auto simp: fill_walk_or_hedge_def Let_def fill_inv_def fill_pot_def fill_moves_def hedge_eligible_def)
next
  case False
  with fill_base_start [OF base mono, of b] show ?thesis
    by (auto simp: fill_walk_or_hedge_def elim!: fill_good_mono)
qed

lemma fill_targets_good:
  assumes base: "fill_base f" and walk: "f_walk f = NoWalk" and mono: "f_retried f0 \<longrightarrow> f_retried f"
  shows "fill_good f0 (fill_epochs f + 100) (fill_targets f b)"
proof (cases "f_rank f \<noteq> None \<and> fill_page f")
  case True
  then show ?thesis
    using assms by (auto simp: fill_targets_def fill_inv_def fill_pot_def fill_moves_def)
next
  case False
  with fill_walk_or_hedge_good [OF assms, of b] show ?thesis
    by (auto simp: fill_targets_def elim!: fill_good_mono)
qed

text \<open>What the documentation of \<open>Ranked\<close> promises of a ranking.\<close>

definition ranked_ok :: "ranked \<Rightarrow> bool" where
  "ranked_ok r \<longleftrightarrow>
     length (rk_owners r) \<le> 3 \<and>
     (case rk_rank r of
        Some i \<Rightarrow> i < length (rk_owners r)
      | None \<Rightarrow> order_ok (rk_order r) \<and> vo_len (rk_order r) \<le> length (rk_owners r))"

lemma fill_ranked_good:
  assumes ok: "ranked_ok r" and waits: "f_waits f \<le> MAX_STALE_WAITS"
    and cons: "\<not> ct_primary_consumed (f_continuation f)"
    and walk: "f_walk f = NoWalk" and mono: "f_retried f0 \<longrightarrow> f_retried f"
  shows "fill_good f0 (fill_epochs f + 101) (fill_ranked r f b)"
proof (cases "rk_owners r = []")
  case True
  then show ?thesis by (simp add: fill_ranked_def)
next
  case False
  let ?f = "f\<lparr>f_version := rk_version r, f_owners := rk_owners r, f_rank := rk_rank r,
    f_members := rk_members r, f_order := (if rk_rank r \<noteq> None then canonical_order 0 else rk_order r),
    f_lineage := fill_lineage f r, f_lineage_targets := fill_lineage_targets f r,
    f_demoted := fill_demoted f r, f_handoff := take MAX_TARGETS (fill_lineage_targets f r),
    f_successors := 0, f_previous := 0, f_stale := 0, f_rank0 := R0_Unknown\<rparr>"
  have base: "fill_base ?f" using ok waits cons by (auto simp: fill_base_def ranked_ok_def split: option.splits)
  show ?thesis
  proof (cases "rk_rank r \<noteq> None \<and> fill_page f \<and> rk_version r > 0")
    case True
    then have res: "fill_ranked r f b = Some (Inr (Act_Rank RankPrevious (Some (rk_version r - 1))),
        ?f\<lparr>f_ranking := RankPrevious\<rparr>, b)"
      using False by (simp add: fill_ranked_def Let_def fill_rank_next_def fill_ok_def)
    have "fill_base (?f\<lparr>f_ranking := RankPrevious\<rparr>)" using base by (simp add: fill_base_def)
    then show ?thesis unfolding res
      using walk mono by (simp add: fill_inv_def fill_pot_def fill_moves_def fill_epochs_def)
  next
    case plain: False
    then have res: "fill_ranked r f b = fill_targets ?f b"
      unfolding fill_ranked_def Let_def if_not_P [OF False] by (rule if_not_P)
    have "fill_good f0 (fill_epochs ?f + 100) (fill_targets ?f b)"
      using base walk mono by (intro fill_targets_good) simp_all
    then show ?thesis unfolding res by (rule fill_good_mono) (simp add: fill_epochs_def)
  qed
qed

subsubsection \<open>Destinations that are behind\<close>

lemma fill_skip_good:
  assumes base: "fill_base f" and walks: "fill_walks f w" "walk_asking w" and mono: "f_retried f0 \<longrightarrow> f_retried f"
  shows "fill_good f0 (fill_epochs f + walk_potential f) (fill_skip f b)"
proof -
  define f2 where "f2 = (let f1 = fill_note N_STALE_SKIP (f\<lparr>f_stale := f_stale f + 1\<rparr>)
    in if f_rank f1 \<noteq> None then fill_note N_OWNER_STALE_SKIP f1 else f1)"
  obtain ev where ev: "snd (fill_pending f2) = f2\<lparr>f_out := ev\<rparr>" using fill_pending_out by blast
  let ?f = "fill_outcome (Inr Out_StaleDestination) (snd (fill_pending f2))"
  have f2: "fill_base f2" "fill_walks f2 w" "fill_epochs f2 = fill_epochs f"
    "walk_potential f2 = walk_potential f" "f_retried f2 = f_retried f" "f_walk f2 = Candidates w"
    using base walks
    by (simp_all add: f2_def Let_def fill_note_def fill_base_def fill_walks_def fill_epochs_def walk_potential_def)
  then have f: "fill_base ?f" "fill_walks ?f w" "fill_epochs ?f = fill_epochs f"
    "walk_potential ?f = walk_potential f" "f_retried f0 \<longrightarrow> f_retried ?f" "f_walk ?f = Candidates w"
    using mono by (simp_all add: ev fill_outcome_def)
  have "fill_skip f b = fill_complete_walk w Out_StaleDestination True ?f b"
    using f(6) unfolding fill_skip_def Let_def f2_def by simp
  moreover have "fill_good f0 (fill_epochs ?f + walk_potential ?f)
      (fill_complete_walk w Out_StaleDestination True ?f b)"
    by (rule fill_complete_walk_good [OF f(1,2) walks(2) f(5)]) simp
  ultimately show ?thesis using f(3,4) by simp
qed

lemma stale_wait_bound: "stale_wait n a d = Some x \<Longrightarrow> n < MAX_STALE_WAITS"
  by (auto simp: stale_wait_def split: if_splits)

lemma fill_wait_or_skip_good:
  assumes base: "fill_base f" and walks: "fill_walks f w" "walk_asking w" and mono: "f_retried f0 \<longrightarrow> f_retried f"
  shows "fill_good f0 (fill_epochs f + walk_potential f) (fill_wait_or_skip denied f b now)"
proof -
  have w: "f_walk f = Candidates w" "walk_good w" using walks(1) by (simp_all add: fill_walks_def)
  let ?sw = "stale_wait (f_waits f) (walk_retry_affordable w b)
    (min (b_deadline b) (fc_scope (f_config f)) - now)"
  show ?thesis
  proof (cases "fill_has f FT_STALE_WAIT \<and> ?sw \<noteq> None")
    case False
    then have "fill_wait f b now = (Inr None, f, b)" using w by (auto simp: fill_wait_def)
    with fill_skip_good [OF assms] show ?thesis by (simp add: fill_wait_or_skip_def)
  next
    case True
    then obtain x where x: "?sw = Some x" by blast
    obtain r w' b' where retry: "walk_retry_pending w b = (r, w', b')" by (metis prod_cases3)
    show ?thesis
    proof (cases r)
      case (Inl e)
      then show ?thesis using True w x retry by (simp add: fill_wait_or_skip_def fill_wait_def)
    next
      case (Inr u)
      let ?f = "f\<lparr>f_walk := Candidates w', f_waits := sat_add u8_max (f_waits f) 1, f_waiting := True\<rparr>"
      have res: "fill_wait_or_skip denied f b now = Some (Inr (Act_Wait x), fill_note denied ?f, b')"
        using True w x retry Inr by (simp add: fill_wait_or_skip_def fill_wait_def split: unit.split)
      have waits: "f_waits f < MAX_STALE_WAITS" "sat_add u8_max (f_waits f) 1 = f_waits f + 1"
        using stale_wait_bound [OF x] by (auto simp: sat_add_def MAX_STALE_WAITS_def)
      note good = walk_good_retry [OF w(2) walks(2) retry [unfolded Inr, simplified]]
      have "fill_walks (fill_note denied ?f) w'"
        using walks(1) good by (simp add: fill_walks_def fill_note_def)
      moreover have "fill_base (fill_note denied ?f)"
        using base waits by (simp add: fill_base_def fill_note_def)
      moreover have "fill_pot (fill_note denied ?f) (Act_Wait x) < fill_epochs f + walk_potential f"
        using good w waits by (simp add: fill_pot_def fill_note_def walk_potential_def fill_epochs_def, arith)
      ultimately show ?thesis
        unfolding res using good mono by (auto simp: fill_inv_def fill_moves_def fill_note_def)
    qed
  qed
qed

lemma fill_leave_walk_some:
  assumes "fill_walks f w" and "walk_asking w"
  obtains r x b' where "fill_leave_walk f b = Some (r, f\<lparr>f_walk := x\<rparr>, b')"
proof -
  have w: "f_walk f = Candidates w" using assms(1) by (simp add: fill_walks_def)
  obtain r w' b' where fin: "walk_complete w b Out_StaleDestination = Some (r, w', b')"
    using walk_complete_some [OF assms(2), of b Out_StaleDestination] by auto
  show ?thesis
  proof (cases r)
    case (Inl e)
    with w fin that show ?thesis by (auto simp: fill_leave_walk_def)
  next
    case (Inr e)
    obtain r' w'' b'' where "walk_abandon w' b' = (r', w'', b'')" by (metis prod_cases3)
    with w fin Inr that show ?thesis by (auto simp: fill_leave_walk_def)
  qed
qed

lemma fill_fallback_good:
  assumes base: "fill_base f" and walks: "fill_walks f w" "walk_asking w"
    and fresh: "\<not> f_retried f" and ok: "\<And>r. ranked = Inr r \<Longrightarrow> ranked_ok r"
  shows "fill_good f (fill_epochs f + walk_potential f) (fill_fallback_ranked ranked f b now)"
proof -
  have wait: "fill_good f (fill_epochs f + walk_potential f) (fill_wait_or_skip n g b now)"
    if "g = f\<lparr>f_fell_back := False\<rparr> \<or> g = (fill_note N_FALLBACK_DENIED f)\<lparr>f_fallback_denied := True, f_fell_back := False\<rparr>"
    for g n
  proof -
    have "fill_base g" "fill_walks g w" "f_retried f \<longrightarrow> f_retried g" "fill_epochs g = fill_epochs f"
      "walk_potential g = walk_potential f"
      using that base walks(1)
      by (auto simp: fill_note_def fill_base_def fill_walks_def fill_epochs_def walk_potential_def)
    with fill_wait_or_skip_good [of g w f n b now] walks(2) show ?thesis by simp
  qed
  show ?thesis
  proof (cases ranked)
    case (Inl e)
    then show ?thesis using wait by (simp add: fill_fallback_ranked_def)
  next
    case (Inr r)
    show ?thesis
    proof (cases "rk_owners r \<noteq> [] \<and> rk_rank r = None")
      case False
      then show ?thesis using Inr wait by (auto simp: fill_fallback_ranked_def)
    next
      case True
      let ?f1 = "fill_note (N_STALE_SKIP OR N_FALLBACK) (f\<lparr>f_stale := f_stale f + 1\<rparr>)"
      let ?f2 = "fill_outcome (Inr Out_StaleDestination) (snd (fill_pending ?f1))"
      obtain ev where ev: "snd (fill_pending ?f1) = ?f1\<lparr>f_out := ev\<rparr>" using fill_pending_out by blast
      have f2: "fill_walks ?f2 w" "f_waits ?f2 = f_waits f"
        using walks(1) unfolding ev by (simp_all add: fill_outcome_def fill_note_def fill_walks_def)
      obtain res x b' where leave: "fill_leave_walk ?f2 b = Some (res, ?f2\<lparr>f_walk := x\<rparr>, b')"
        by (rule fill_leave_walk_some [OF f2(1) walks(2), of b])
      show ?thesis
      proof (cases res)
        case (Inl e)
        then show ?thesis using Inr True leave by (simp add: fill_fallback_ranked_def Let_def)
      next
        case left: (Inr u)
        let ?g = "?f2\<lparr>f_walk := NoWalk, f_retried := True, f_continuation := continuation_default\<rparr>"
        have "fill_fallback_ranked ranked f b now = fill_ranked r ?g b'"
          using Inr True leave left by (simp add: fill_fallback_ranked_def Let_def)
        moreover have "fill_good f (fill_epochs ?g + 101) (fill_ranked r ?g b')"
          using base ok [OF Inr] f2(2)
          by (intro fill_ranked_good) (simp_all add: fill_base_def continuation_default_def)
        ultimately show ?thesis
          using fresh by (auto simp: fill_epochs_def elim!: fill_good_mono)
      qed
    qed
  qed
qed

subsubsection \<open>Refreshing the membership\<close>

lemma stale_refresh:
  "stale_action retried v latest = Inr StaleRefresh \<Longrightarrow>
     \<not> retried \<and> v < (case latest of None \<Rightarrow> 0 | Some x \<Rightarrow> x)"
  by (auto simp: stale_action_def split: option.splits if_splits)

lemma fill_hedge_membership_good:
  assumes base: "fill_base f" and walk: "f_walk f = NoWalk" and hedge: "f_hedge_refresh f"
  shows "fill_good f (fill_epochs f + 97) (fill_membership latest prm f b now)"
proof (cases "stale_action (f_retried f) (f_version f) latest")
  case (Inl e)
  then show ?thesis by (simp add: fill_membership_def)
next
  case (Inr act)
  show ?thesis
  proof (cases act)
    case StaleRefresh
    with stale_refresh [OF Inr [unfolded StaleRefresh]] Inr hedge base walk show ?thesis
      by (auto simp: fill_membership_def Let_def fill_rank_next_def fill_ok_def fill_note_def fill_inv_def
          fill_base_def fill_pot_def fill_moves_def fill_epochs_def)
  next
    case StaleSkip
    let ?f = "fill_note N_STALE_SKIP f"
    have "fill_good f (fill_epochs ?f + 96) (fill_start_walk ?f b)"
      using base by (intro fill_base_start) (simp_all add: fill_note_def)
    with StaleSkip Inr hedge show ?thesis
      by (auto simp: fill_membership_def Let_def fill_note_def elim!: fill_good_mono)
  qed
qed

lemma fill_membership_good:
  assumes base: "fill_base f" and walks: "fill_walks f w" "walk_asking w"
    and hedge: "\<not> f_hedge_refresh f" and prm: "prm \<longrightarrow> 0 < f_version f"
  shows "fill_good f (fill_epochs f + walk_potential f + 3) (fill_membership latest prm f b now)"
proof (cases "stale_action (f_retried f) (f_version f) latest")
  case (Inl e)
  then show ?thesis by (simp add: fill_membership_def)
next
  case (Inr act)
  have w: "f_walk f = Candidates w" using walks(1) by (simp add: fill_walks_def)
  show ?thesis
  proof (cases act)
    case StaleRefresh
    let ?f = "f\<lparr>f_latest := (case latest of None \<Rightarrow> 0 | Some x \<Rightarrow> x)\<rparr>"
    obtain ev where ev: "snd (fill_pending ?f) = ?f\<lparr>f_out := ev\<rparr>" using fill_pending_out by blast
    obtain ev' where out: "fill_note_rank0 Out_StaleMembership (fill_outcome (Inr Out_StaleMembership)
        (?f\<lparr>f_out := ev\<rparr>)) = ?f\<lparr>f_out := ev'\<rparr>"
      using fill_note_rank0_out [of Out_StaleMembership "fill_outcome (Inr Out_StaleMembership) (?f\<lparr>f_out := ev\<rparr>)"]
      by (auto simp: fill_outcome_def)
    let ?g = "?f\<lparr>f_out := ev'\<rparr>"
    have "fill_membership latest prm f b now = fill_complete Out_StaleMembership ?f b"
      using Inr StaleRefresh hedge by (simp add: fill_membership_def Let_def)
    also have "\<dots> = fill_complete_walk w Out_StaleMembership False ?g b"
      unfolding fill_complete_def Let_def ev out by (simp add: fill_walk_complete_def w)
    finally have res: "fill_membership latest prm f b now = fill_complete_walk w Out_StaleMembership False ?g b" .
    have "fill_base ?g" "fill_walks ?g w" "fill_epochs ?g = fill_epochs f" "walk_potential ?g = walk_potential f"
      using base walks(1) by (simp_all add: fill_base_def fill_walks_def fill_epochs_def walk_potential_def)
    moreover from this have "fill_good f (fill_epochs ?g + walk_potential ?g)
        (fill_complete_walk w Out_StaleMembership False ?g b)"
      using stale_refresh [OF Inr [unfolded StaleRefresh]] walks(2)
      by (intro fill_complete_walk_good) auto
    ultimately show ?thesis unfolding res by (auto elim!: fill_good_mono)
  next
    case StaleSkip
    consider (fall) "fill_has f FT_STALE_FALLBACK \<and> \<not> f_fallback_denied f \<and>
        previous_fallback (f_rank f \<noteq> None) (f_retried f \<or> f_fell_back f) prm"
      | (wait) "\<not> (fill_has f FT_STALE_FALLBACK \<and> \<not> f_fallback_denied f \<and>
        previous_fallback (f_rank f \<noteq> None) (f_retried f \<or> f_fell_back f) prm)" by blast
    then show ?thesis
    proof cases
      case fall
      let ?f = "f\<lparr>f_fell_back := True, f_ranking := RankFallback\<rparr>"
      have res: "fill_membership latest prm f b now =
          Some (Inr (Act_Rank RankFallback (Some (f_version f - 1))), ?f, b)"
        using Inr StaleSkip hedge fall prm
        by (simp add: fill_membership_def Let_def fill_rank_next_def fill_ok_def previous_fallback_def)
      have "fill_base ?f" "fill_walks ?f w" "walk_potential ?f = walk_potential f" "fill_epochs ?f = fill_epochs f"
        using base walks(1) by (simp_all add: fill_base_def fill_walks_def fill_epochs_def walk_potential_def)
      with fall walks(2) show ?thesis
        unfolding res by (auto simp: fill_inv_def fill_pot_def fill_moves_def previous_fallback_def)
    next
      case wait
      have "fill_membership latest prm f b now =
          (if f_rank f = None then fill_wait_or_skip 0 f b now else fill_skip f b)"
        using Inr StaleSkip hedge unfolding fill_membership_def if_not_P [OF wait] Let_def by simp
      with fill_wait_or_skip_good [OF base walks, of f 0 b now] fill_skip_good [OF base walks, of f b]
      show ?thesis by (auto elim!: fill_good_mono)
    qed
  qed
qed

subsubsection \<open>Rankings, hints and the hedge\<close>

lemma fill_previous_ranked_keeps:
  "\<exists>p h. fill_previous_ranked ranked f = f\<lparr>f_previous := p, f_handoff := h\<rparr>"
proof -
  have "\<exists>p h. f = f\<lparr>f_previous := p, f_handoff := h\<rparr>" by (intro exI [of _ "f_previous f"] exI [of _ "f_handoff f"]) simp
  moreover have "\<exists>p h. f\<lparr>f_handoff := x\<rparr> = f\<lparr>f_previous := p, f_handoff := h\<rparr>" for x
    by (intro exI [of _ "f_previous f"] exI [of _ x]) simp
  moreover have "\<exists>p h. f\<lparr>f_previous := y, f_handoff := x\<rparr> = f\<lparr>f_previous := p, f_handoff := h\<rparr>" for x y
    by (intro exI) (rule refl)
  ultimately show ?thesis
    unfolding fill_previous_ranked_def Let_def by (cases ranked; cases "f_rank f") (simp_all only: sum.case
      option.case prod.case split: if_split, blast)
qed

lemma fill_hints_keeps:
  "\<exists>h s z. fill_hints hints rank0 f = f\<lparr>f_handoff := h, f_successors := s, f_rank0 := z\<rparr>"
proof (cases "f_rank f = None \<or> (\<exists>r. f_rank f = Some r \<and> successor_targets hints (f_owners f) r = [])")
  case True
  then have "fill_hints hints rank0 f = f\<lparr>f_handoff := f_handoff f, f_successors := f_successors f, f_rank0 := rank0\<rparr>"
    by (auto simp: fill_hints_def)
  then show ?thesis by blast
next
  case False
  then obtain r t ts where r: "f_rank f = Some r" "successor_targets hints (f_owners f) r = t # ts"
    by (auto simp: neq_Nil_conv)
  obtain h s where "with_successors (t # ts) (f_handoff f) = (h, s)" by fastforce
  with r have "fill_hints hints rank0 f = f\<lparr>f_handoff := h, f_successors := s, f_rank0 := rank0\<rparr>"
    by (simp add: fill_hints_def)
  then show ?thesis by blast
qed

lemma fill_hedged_good:
  assumes base: "fill_base f" and walk: "f_walk f = NoWalk"
    and eligible: "e \<noteq> HedgeNotStarted \<longrightarrow> f_rank f = None"
  shows "fill_good f (fill_epochs f + 98) (fill_hedged e f b)"
proof -
  let ?f = "f\<lparr>f_hedge := False\<rparr>"
  have f: "fill_base ?f" "f_retried f \<longrightarrow> f_retried ?f" "fill_epochs ?f = fill_epochs f"
    using base by (simp_all add: fill_base_def fill_epochs_def)
  have lost: "fill_good f (fill_epochs f + 98) (fill_hedge_lost stale primary ?f b)"
    if "f_rank f = None" for stale primary
  proof (cases stale)
    case True
    then show ?thesis
      using base walk
      by (auto simp: fill_hedge_lost_def Let_def fill_inv_def fill_base_def fill_pot_def fill_moves_def fill_epochs_def)
  next
    case False
    let ?g = "?f\<lparr>f_continuation := \<lparr>ct_primary_consumed = True, ct_primary_outcome =
        Some (case primary of None \<Rightarrow> Unreachable | Some x \<Rightarrow> x), ct_bounded_routes = True\<rparr>\<rparr>"
    have "fill_good f (fill_epochs ?g + 96) (fill_start_walk ?g b)"
      using base that by (intro fill_start_walk_good) (simp_all add: fill_base_def)
    then show ?thesis
      using False by (auto simp: fill_hedge_lost_def Let_def fill_epochs_def elim!: fill_good_mono)
  qed
  show ?thesis
  proof (cases e)
    case HedgeNotStarted
    with fill_base_start [OF f(1,2), of b] f(3) show ?thesis
      by (auto simp: fill_hedged_def elim!: fill_good_mono)
  next
    case HedgeWon
    with fill_walked_good [OF f(1) _ f(2), of 98 FromHedge b] f(3) show ?thesis by (simp add: fill_hedged_def)
  next
    case (HedgeLost stale primary err)
    with lost eligible show ?thesis by (simp add: fill_hedged_def Let_def split: option.split)
  qed
qed

subsection \<open>The caller's part\<close>

text \<open>
  Which event the documentation of \<open>Action\<close> and \<open>Event\<close> lets a caller answer an action with. A caller may
  fail the read at any action; a hedge that ran was eligible; \<open>NoHelper\<close> answers a probe of the helper; a
  previous membership has a number below the current one.
\<close>

fun aborts :: "event \<Rightarrow> bool" where
  "aborts (Ev_Abort _) = True"
| "aborts _ = False"

fun fill_answers :: "fill \<Rightarrow> action \<Rightarrow> event \<Rightarrow> bool" where
  "fill_answers f (Act_Rank _ _) e =
     (case e of Ev_Ranked ranked \<Rightarrow> (case ranked of Inl _ \<Rightarrow> True | Inr r \<Rightarrow> ranked_ok r) | _ \<Rightarrow> aborts e)"
| "fill_answers f Act_Hints e = (case e of Ev_Hints _ _ \<Rightarrow> True | _ \<Rightarrow> aborts e)"
| "fill_answers f (Act_Hedge eligible _ _) e =
     (case e of Ev_Hedge h \<Rightarrow> eligible \<or> h = HedgeNotStarted | _ \<Rightarrow> aborts e)"
| "fill_answers f Act_Refresh e =
     (case e of Ev_Membership _ previous \<Rightarrow> previous \<longrightarrow> 0 < f_version f | _ \<Rightarrow> aborts e)"
| "fill_answers f (Act_Probe pr) e =
     (case e of Ev_Reply _ \<Rightarrow> True | Ev_NoHelper \<Rightarrow> fill_dest f pr = Some None | _ \<Rightarrow> aborts e)"
| "fill_answers f Act_Validate e = (case e of Ev_Validated _ \<Rightarrow> True | _ \<Rightarrow> aborts e)"
| "fill_answers f (Act_Batch _ _ _) e = (case e of Ev_BatchDone _ \<Rightarrow> True | _ \<Rightarrow> aborts e)"
| "fill_answers f (Act_Wait _) e = (case e of Ev_Timer \<Rightarrow> True | _ \<Rightarrow> aborts e)"
| "fill_answers f (Act_Origin _) e =
     (case e of Ev_Origin _ \<Rightarrow> \<not> fc_walk_only (f_config f) | _ \<Rightarrow> aborts e)"
| "fill_answers f (Act_Publish _) e = (case e of Ev_Published _ \<Rightarrow> True | _ \<Rightarrow> aborts e)"
| "fill_answers f (Act_Done _) e = False"
| "fill_answers f Act_Idle e = False"

lemma fill_abort_good: "aborts e \<Longrightarrow> fill_good f0 k (fill_handle e f b now)"
  by (cases e) (simp_all add: fill_handle_def)

lemma fill_ranked_event_good:
  assumes inv: "fill_inv f (Act_Rank r v)" and ok: "\<And>x. ranked = Inr x \<Longrightarrow> ranked_ok x"
  shows "fill_good f (fill_pot f (Act_Rank r v)) (fill_handle (Ev_Ranked ranked) f b now)"
proof (cases r)
  case RankCurrent
  with inv have f: "fill_base f" "f_walk f = NoWalk" "f_ranking f = RankCurrent" by (simp_all add: fill_inv_def)
  show ?thesis
  proof (cases ranked)
    case (Inl e)
    then show ?thesis using f by (simp add: fill_handle_def)
  next
    case (Inr x)
    from f(1) have "f_waits f \<le> MAX_STALE_WAITS" "\<not> ct_primary_consumed (f_continuation f)"
      by (simp_all add: fill_base_def)
    from fill_ranked_good [OF ok [OF Inr] this f(2), of f b] show ?thesis
      using f Inr RankCurrent by (simp add: fill_handle_def fill_pot_def)
  qed
next
  case RankPrevious
  with inv have f: "fill_base f" "f_walk f = NoWalk" "f_ranking f = RankPrevious" by (simp_all add: fill_inv_def)
  obtain p h where g: "fill_previous_ranked ranked f = f\<lparr>f_previous := p, f_handoff := h\<rparr>"
    using fill_previous_ranked_keeps by blast
  have "fill_base (fill_previous_ranked ranked f)" "f_walk (fill_previous_ranked ranked f) = NoWalk"
    "fill_epochs (fill_previous_ranked ranked f) = fill_epochs f"
    "f_retried f \<longrightarrow> f_retried (fill_previous_ranked ranked f)"
    using f unfolding g by (simp_all add: fill_base_def fill_epochs_def)
  with fill_targets_good [of "fill_previous_ranked ranked f" f b] show ?thesis
    using f RankPrevious by (simp add: fill_handle_def fill_pot_def)
next
  case RankFallback
  with inv obtain w where f: "fill_base f" "fill_walks f w" "walk_asking w" "\<not> f_retried f" "f_ranking f = RankFallback"
    by (auto simp: fill_inv_def)
  from fill_fallback_good [OF f(1-4) ok, of ranked b now] show ?thesis
    using f RankFallback by (auto simp: fill_handle_def fill_pot_def elim!: fill_good_mono)
next
  case RankAuthority
  with inv show ?thesis
    by (auto simp: fill_inv_def fill_handle_def fill_pot_def fill_moves_def fill_base_def fill_authority_def
        fill_epochs_def split: sum.split)
qed

lemma fill_probe_event_good:
  assumes inv: "fill_inv f (Act_Probe pr)"
  shows "fill_good f (fill_pot f (Act_Probe pr)) (fill_handle (Ev_Reply reply) f b now)"
    and "fill_dest f pr = Some None \<Longrightarrow> fill_good f (fill_pot f (Act_Probe pr)) (fill_handle Ev_NoHelper f b now)"
proof -
  have f: "fill_base f" "fill_probing f" using inv by (simp_all add: fill_inv_def)
  show "fill_good f (fill_pot f (Act_Probe pr)) (fill_handle (Ev_Reply reply) f b now)"
    using fill_reply_good [OF f, of f reply b] by (simp add: fill_handle_def fill_pot_def)
  assume "fill_dest f pr = Some None"
  then have "f_rank f = None" by (auto simp: fill_dest_def split: if_splits)
  with f(2) obtain w where w: "fill_walks f w" "walk_asking w" by (auto simp: fill_probing_def)
  then have "f_walk f = Candidates w" by (simp add: fill_walks_def)
  moreover have "fill_good f (fill_epochs f + walk_potential f)
      (fill_complete_walk w (Out_Probe CopyMiss) False f b)"
    by (rule fill_complete_walk_good [OF f(1) w]) simp_all
  ultimately show "fill_good f (fill_pot f (Act_Probe pr)) (fill_handle Ev_NoHelper f b now)"
    by (auto simp: fill_handle_def fill_pot_def probe_potential_def elim!: fill_good_mono)
qed

lemma fill_validated_good:
  assumes inv: "fill_inv f Act_Validate"
  shows "fill_good f (fill_pot f Act_Validate) (fill_handle (Ev_Validated result) f b now)"
proof -
  have f: "fill_base f" "fill_probing f" "f_retried f \<longrightarrow> f_retried f" using inv by (simp_all add: fill_inv_def)
  note good = fill_complete_good [OF f, of _ b]
  show ?thesis
    using good [of Out_Copy] good [of "Out_Probe _"]
    by (auto simp: fill_handle_def fill_pot_def split: sum.split option.split)
qed

lemma fill_batch_good:
  assumes inv: "fill_inv f (Act_Batch i n k)"
  shows "fill_good f (fill_pot f (Act_Batch i n k)) (fill_handle (Ev_BatchDone copy) f b now)"
proof -
  from inv obtain w where f: "fill_base f" "fill_walks f w" "walk_batching w" by (auto simp: fill_inv_def)
  have w: "f_walk f = Candidates w" "walk_good w" using f(2) by (simp_all add: fill_walks_def)
  note batch = walk_good_batch [OF w(2) f(3), of copy]
  show ?thesis
  proof (cases copy)
    case True
    let ?f = "f\<lparr>f_walk := Candidates (w\<lparr>wk_batch := 0, wk_done := True\<rparr>)\<rparr>"
    have "fill_good f (fill_epochs ?f + 2) (fill_ok (fill_end End_Copy ?f) b)"
      using f(1) by (intro fill_end_copy) simp_all
    then show ?thesis
      using batch True w by (auto simp: fill_handle_def fill_pot_def elim!: fill_good_mono)
  next
    case False
    let ?w = "w\<lparr>wk_batch := 0\<rparr>" and ?f = "f\<lparr>f_walk := Candidates (w\<lparr>wk_batch := 0\<rparr>)\<rparr>"
    have "fill_walks ?f ?w" by (rule fill_walks_step [OF f(2)]) (use batch in simp_all)
    then have "fill_good f (next_pot ?f (walk_work ?w)) (fill_next ?f b)"
      using f(1) batch by (intro fill_next_good) simp_all
    then show ?thesis
      using batch False w
      by (auto simp: fill_handle_def fill_pot_def next_pot_def walk_potential_def elim!: fill_good_mono)
  qed
qed

lemma fill_timer_good:
  assumes inv: "fill_inv f (Act_Wait d)"
  shows "fill_good f (fill_pot f (Act_Wait d)) (fill_handle Ev_Timer f b now)"
proof -
  from inv obtain w where f: "fill_base f" "fill_walks f w" "walk_idle w" "f_waiting f" by (auto simp: fill_inv_def)
  let ?f = "f\<lparr>f_waiting := False\<rparr>"
  have "fill_base ?f" "fill_walks ?f w" using f by (simp_all add: fill_base_def fill_walks_def)
  then have "fill_good f (next_pot ?f (walk_work w)) (fill_next ?f b)"
    using f by (intro fill_next_good) simp_all
  moreover have "f_walk f = Candidates w" using f(2) by (simp add: fill_walks_def)
  ultimately show ?thesis
    using f(4)
    by (auto simp: fill_handle_def fill_pot_def next_pot_def walk_potential_def fill_epochs_def
        elim!: fill_good_mono)
qed

lemma fill_origin_event_good:
  assumes inv: "fill_inv f (Act_Origin rank)" and all: "\<not> fc_walk_only (f_config f)"
  shows "fill_good f (fill_pot f (Act_Origin rank)) (fill_handle (Ev_Origin result) f b now)"
proof -
  have f: "fill_base f" "f_origin_pending f" "f_rank f = Some rank"
    using inv all by (auto simp: fill_inv_def fill_authority_def)
  show ?thesis
  proof (cases "result = Inl VersionUnavailable")
    case True
    let ?r = "remaining_new rank (length (f_owners f))"
    let ?f = "(fill_note N_REMAINING (f\<lparr>f_origin_pending := False\<rparr>))\<lparr>f_walk := Remaining ?r\<rparr>"
    have "fill_good f (fill_epochs ?f + 2 * (rw_owners ?r - rw_index ?r) + 3) (fill_next ?f b)"
      using f(1,3)
      by (intro fill_next_remaining) (simp_all add: fill_note_def fill_base_def remaining_new_def)
    moreover have "fill_epochs ?f = fill_epochs f" by (simp add: fill_epochs_def fill_note_def)
    moreover have "length (f_owners f) \<le> 3" using f(1) by (simp add: fill_base_def)
    then have "2 * (rw_owners ?r - rw_index ?r) \<le> 6" by (simp add: remaining_new_def)
    moreover have "fill_handle (Ev_Origin result) f b now = fill_next ?f b"
      using True f(2,3) by (simp add: fill_handle_def fill_note_def)
    ultimately show ?thesis by (auto simp: fill_pot_def elim!: fill_good_mono)
  next
    case False
    then show ?thesis
      using f(1,2)
      by (auto simp: fill_handle_def Let_def fill_publish_def fill_ok_def fill_inv_def fill_base_def
          fill_pot_def fill_moves_def fill_epochs_def split: sum.split unit.split)
  qed
qed

lemma fill_hints_good:
  assumes inv: "fill_inv f Act_Hints"
  shows "fill_good f (fill_pot f Act_Hints) (fill_handle (Ev_Hints hints rank0) f b now)"
proof -
  have f: "fill_base f" "f_walk f = NoWalk" using inv by (simp_all add: fill_inv_def)
  obtain h s z where g: "fill_hints hints rank0 f = f\<lparr>f_handoff := h, f_successors := s, f_rank0 := z\<rparr>"
    using fill_hints_keeps by blast
  have "fill_base (fill_hints hints rank0 f)" "f_walk (fill_hints hints rank0 f) = NoWalk"
    "fill_epochs (fill_hints hints rank0 f) = fill_epochs f"
    "f_retried f \<longrightarrow> f_retried (fill_hints hints rank0 f)"
    using f unfolding g by (simp_all add: fill_base_def fill_epochs_def)
  with fill_walk_or_hedge_good [of "fill_hints hints rank0 f" f b] show ?thesis
    by (simp add: fill_handle_def fill_pot_def)
qed

lemma fill_refresh_good:
  assumes inv: "fill_inv f Act_Refresh" and prm: "prm \<longrightarrow> 0 < f_version f"
  shows "fill_good f (fill_pot f Act_Refresh) (fill_handle (Ev_Membership latest prm) f b now)"
proof (cases "f_hedge_refresh f")
  case True
  with inv fill_hedge_membership_good [of f latest prm b now] show ?thesis
    by (simp add: fill_handle_def fill_pot_def fill_inv_def)
next
  case False
  with inv obtain w where "fill_base f" "fill_walks f w" "walk_asking w" by (auto simp: fill_inv_def)
  from fill_membership_good [OF this False prm, of latest b now] False show ?thesis
    by (simp add: fill_handle_def fill_pot_def add.assoc)
qed

lemma fill_published_good:
  assumes "fill_inv f (Act_Publish s)"
  shows "fill_good f (fill_pot f (Act_Publish s)) (fill_handle (Ev_Published result) f b now)"
  using assms
  by (auto simp: fill_handle_def fill_inv_def fill_pot_def fill_moves_def split: sum.split unit.split)

lemma fill_hedge_event_good:
  assumes "fill_inv f (Act_Hedge eligible i j)" and "eligible \<or> h = HedgeNotStarted"
  shows "fill_good f (fill_pot f (Act_Hedge eligible i j)) (fill_handle (Ev_Hedge h) f b now)"
  using fill_hedged_good [of f h b] assms by (auto simp: fill_handle_def fill_inv_def fill_pot_def)

lemmas fill_event_good = fill_ranked_event_good fill_hints_good fill_hedge_event_good
  fill_refresh_good fill_probe_event_good fill_validated_good fill_batch_good fill_timer_good
  fill_origin_event_good fill_published_good

lemma fill_handle_good:
  assumes inv: "fill_inv f a" and ans: "fill_answers f a e"
  shows "fill_good f (fill_pot f a) (fill_handle e f b now)"
proof (cases "aborts e")
  case True
  then show ?thesis by (rule fill_abort_good)
next
  case False
  with ans inv show ?thesis
    by (cases a) (auto simp del: fill_at.simps split: event.splits sum.splits intro!: fill_event_good)
qed

subsection \<open>Runs\<close>

text \<open>
  The acquisitions a configuration allows: the first event, then answers to actions, and between an
  action to probe and its answer any spending from the request's budget. The number counts the events.
\<close>

inductive fill_run :: "fill_config \<Rightarrow> nat \<Rightarrow> fill \<Rightarrow> action \<Rightarrow> budget \<Rightarrow> bool" for cfg where
  fill_run_start:
    "fill_on (Ev_Start hit) (fill_new cfg) b now = Some (a, ev, f, b') \<Longrightarrow> fill_run cfg 1 f a b'"
| fill_run_step:
    "fill_run cfg n f a b \<Longrightarrow> fill_answers f a e \<Longrightarrow> fill_on e f b now = Some (a', ev, f', b') \<Longrightarrow>
     fill_run cfg (Suc n) f' a' b'"
| fill_run_spend:
    "fill_run cfg n f (Act_Probe pr) b \<Longrightarrow> fill_set_request_budget f b spent = (f', b') \<Longrightarrow>
     fill_run cfg n f' (Act_Probe pr) b'"

text \<open>One event: the result of the handler, with an error turned into the end of the read.\<close>

lemma fill_on_good:
  assumes good: "fill_good f0 k (fill_handle e f b now)"
  obtains a ev f' b' where "fill_on e f b now = Some (a, ev, f', b')"
    and "(\<exists>x. a = Act_Done (Inl x)) \<or> fill_inv f' a \<and> fill_pot f' a < k \<and> fill_moves f0 f' a"
proof (cases "fill_handle e f b now")
  case None
  with good show ?thesis by simp
next
  case (Some t)
  obtain r g c where t: "t = (r, g, c)" by (metis prod_cases3)
  show ?thesis
  proof (cases r)
    case (Inl x)
    obtain c' where "fill_on e f b now =
        Some (Act_Done (Inl x), f_out g, g\<lparr>f_walk := NoWalk, f_out := evidence_default\<rparr>, c')"
      using Some t Inl by (simp add: fill_on_def)
    then show ?thesis by (rule that) simp
  next
    case (Inr a)
    have on: "fill_on e f b now = Some (a, f_out g, g\<lparr>f_out := evidence_default\<rparr>, c)"
      using Some t Inr by (simp add: fill_on_def)
    have g: "fill_inv g a" "fill_pot g a < k" "fill_moves f0 g a" using good Some t Inr by simp_all
    have "fill_at (g\<lparr>f_out := evidence_default\<rparr>) a = fill_at g a"
      by (cases a) (simp_all add: fill_authority_def split: ranking.split)
    moreover have "fill_phase (g\<lparr>f_out := evidence_default\<rparr>) a = fill_phase g a"
      by (cases a) (simp_all split: ranking.split)
    moreover have "fill_moves f0 (g\<lparr>f_out := evidence_default\<rparr>) a = fill_moves f0 g a"
      by (simp add: fill_moves_def cong: action.case_cong ranking.case_cong)
    ultimately show ?thesis
      using g by (intro that [OF on]) (simp add: fill_inv_def fill_pot_def)
  qed
qed

lemma answers_pot: "fill_answers f a e \<Longrightarrow> 0 < fill_pot f a"
  by (cases a) (auto simp: fill_pot_def probe_potential_def walk_potential_def split: ranking.split walking.split)

lemma fill_spend_good:
  assumes inv: "fill_inv f (Act_Probe pr)" and spend: "fill_set_request_budget f b spent = (f', b')"
  shows "fill_inv f' (Act_Probe pr) \<and> fill_pot f' (Act_Probe pr) = fill_pot f (Act_Probe pr)"
proof (cases "f_walk f")
  case (Candidates w)
  have f: "fill_base f" "f_probe f = Some pr" "fill_walks f w" "walk_asking w"
    using inv fill_probing_refresh [OF _ Candidates] by (simp_all add: fill_inv_def)
  obtain w' where w': "walk_set_request_budget w b spent = (w', b')" "f' = f\<lparr>f_walk := Candidates w'\<rparr>"
    using spend Candidates by (auto simp: fill_set_request_budget_def split: prod.splits)
  have "walk_good w" using f(3) by (simp add: fill_walks_def)
  note good = walk_good_spend [OF this f(4) w'(1)]
  then have "fill_walks f' w'" unfolding w'(2) by (intro fill_walks_step [OF f(3)]) simp_all
  with good f Candidates show ?thesis
    by (auto simp: w'(2) fill_inv_def fill_probing_def fill_pot_def probe_potential_def walk_potential_def)
qed (use assms in \<open>auto simp: fill_set_request_budget_def\<close>)

lemma fill_new_base: "fill_base (fill_new cfg)"
  by (simp add: fill_base_def fill_new_def continuation_default_def canonical_order_def order_ok_def
      order_ranks_def)

lemma fill_run_good:
  "fill_run cfg n f a b \<Longrightarrow>
     n \<le> 204 \<and> ((\<exists>x. a = Act_Done (Inl x)) \<or> fill_inv f a \<and> n + fill_pot f a \<le> 204)"
proof (induction rule: fill_run.induct)
  case (fill_run_start hit b now a ev f b')
  then show ?case
    using fill_new_base [of cfg]
    by (cases hit) (auto simp: fill_on_def fill_handle_def fill_ok_def fill_rank_next_def fill_inv_def
        fill_base_def fill_pot_def fill_epochs_def fill_new_def)
next
  case (fill_run_step n f a b e now a' ev f' b')
  have inv: "fill_inv f a" "n + fill_pot f a \<le> 204" using fill_run_step by auto
  from fill_on_good [OF fill_handle_good [OF inv(1) fill_run_step.hyps(2), of b now]]
  show ?case using fill_run_step.hyps(3) inv(2) answers_pot [OF fill_run_step.hyps(2)] by fastforce
next
  case (fill_run_spend n f pr b spent f' b')
  then show ?case using fill_spend_good [OF _ fill_run_spend.hyps(2)] by auto
qed

subsection \<open>Recorded runs\<close>

text \<open>Runs given by their events, for concrete inputs.\<close>

fun fill_trace ::
  "(event \<times> instant) list \<Rightarrow> nat \<times> action \<times> fill \<times> budget \<Rightarrow> (nat \<times> action \<times> fill \<times> budget) option" where
  "fill_trace [] s = Some s"
| "fill_trace ((e, now) # es) (n, a, f, b) =
     (if fill_answers f a e
      then case fill_on e f b now of
             None \<Rightarrow> None
           | Some (a', _, f', b') \<Rightarrow> fill_trace es (Suc n, a', f', b')
      else None)"

lemma fill_trace_run:
  "fill_trace es (n, a, f, b) = Some (n', a', f', b') \<Longrightarrow> fill_run cfg n f a b \<Longrightarrow> fill_run cfg n' f' a' b'"
proof (induction es arbitrary: n a f b)
  case (Cons x es)
  obtain e now where x: "x = (e, now)" by fastforce
  obtain a1 ev f1 b1 where one: "fill_answers f a e" "fill_on e f b now = Some (a1, ev, f1, b1)"
    "fill_trace es (Suc n, a1, f1, b1) = Some (n', a', f', b')"
    using Cons.prems(1) unfolding x by (auto split: if_splits option.splits)
  from Cons.IH [OF one(3) fill_run_step [OF Cons.prems(2) one(1,2)]] show ?case .
qed simp

definition fill_started :: "fill_config \<Rightarrow> budget \<Rightarrow> nat \<times> action \<times> fill \<times> budget" where
  "fill_started cfg b = (1, Act_Rank RankCurrent None, fill_new cfg, b)"

lemma fill_started_run:
  assumes "fill_trace es (fill_started cfg b) = Some (n, a, f, b')"
  shows "fill_run cfg n f a b'"
proof -
  have "fill_on (Ev_Start False) (fill_new cfg) b 0 =
      Some (Act_Rank RankCurrent None, evidence_default, fill_new cfg, b)"
    by (simp add: fill_on_def fill_handle_def fill_ok_def fill_rank_next_def fill_new_def)
  from fill_trace_run [OF assms [unfolded fill_started_def] fill_run_start [OF this]] show ?thesis .
qed

text \<open>An owner of rank 1 whose predecessor misses, and a reader whose hedge met a stale destination.\<close>

definition owner_fill :: fill_config where
  "owner_fill = \<lparr>fc_operation = Op_Metadata False, fc_hedge = False, fc_walk_only = False,
     fc_scope = 1000, fc_features = features_production\<rparr>"

definition reader_fill :: fill_config where
  "reader_fill = \<lparr>fc_operation = Op_Page, fc_hedge = True, fc_walk_only = False, fc_scope = 1000,
     fc_features = features_production\<rparr>"

definition fill_budget :: budget where "fill_budget = budget_new 1000 10 40"

definition owner_events :: "(event \<times> instant) list" where
  "owner_events =
     [(Ev_Ranked (Inr (ranked_new 1 [7, 8] (Some 1))), 0), (Ev_Reply (Answer K_Miss True), 1),
      (Ev_Ranked (Inr (ranked_new 1 [7, 8] (Some 1))), 2)]"

definition reader_events :: "(event \<times> instant) list" where
  "reader_events =
     [(Ev_Ranked (Inr (ranked_new 1 [7, 8] None)), 0), (Ev_Hedge (HedgeLost True None None), 1)]"

lemma owner_trace:
  obtains f b where "fill_run owner_fill 4 f (Act_Origin 1) b" and "\<not> f_bounded f"
    and "\<not> fc_walk_only (f_config f)"
proof -
  have "map_option (\<lambda>(n, a, f, b). (n, a, f_bounded f, fc_walk_only (f_config f)))
      (fill_trace owner_events (fill_started owner_fill fill_budget)) = Some (4, Act_Origin 1, False, False)"
    by code_simp
  then obtain f b where "fill_trace owner_events (fill_started owner_fill fill_budget) = Some (4, Act_Origin 1, f, b)"
    and "\<not> f_bounded f" "\<not> fc_walk_only (f_config f)" by auto
  with that fill_started_run show thesis by blast
qed

lemma reader_trace:
  obtains f b f' b' ev where "fill_run reader_fill 3 f Act_Refresh b" and "f_version f = 1" and "\<not> f_retried f"
    and "fill_on (Ev_Membership (Some 2) True) f b 2 = Some (Act_Rank RankCurrent (Some 2), ev, f', b')"
proof -
  have "map_option (\<lambda>(n, a, f, b). (n, a, f_version f, f_retried f,
        map_option fst (fill_on (Ev_Membership (Some 2) True) f b 2)))
      (fill_trace reader_events (fill_started reader_fill fill_budget)) =
      Some (3, Act_Refresh, 1, False, Some (Act_Rank RankCurrent (Some 2)))"
    by code_simp
  then obtain f b f' b' ev where
    "fill_trace reader_events (fill_started reader_fill fill_budget) = Some (3, Act_Refresh, f, b)"
    and "f_version f = 1" "\<not> f_retried f"
    and "fill_on (Ev_Membership (Some 2) True) f b 2 = Some (Act_Rank RankCurrent (Some 2), ev, f', b')"
    by auto
  with that fill_started_run show thesis by blast
qed

subsection \<open>Theorems\<close>



text \<open>C2: Every read's acquisition ends: no run takes more than 204 events, whatever the answers (a walk has
  at most 11 probes, each of at most 6 events, two waits for stale destinations, and one membership
  change starts it over once).\<close>

theorem fill_terminates:
  assumes "fill_run cfg n f a b"
  shows "n \<le> 204"
  using fill_run_good [OF assms] by blast

theorem fill_terminates_witness:
  "\<exists>f b. fill_run owner_fill 4 f (Act_Origin 1) b \<and> (4::nat) \<le> 204"
proof -
  obtain f b where "fill_run owner_fill 4 f (Act_Origin 1) b" by (rule owner_trace)
  with fill_terminates [OF this] show ?thesis by blast
qed

text \<open>C3: A read asks origin only as an owner of the ranking it walked, at its own rank, and, unless a hedge
  bounded its routes, with the outcome of every predecessor as evidence, so that the origin's check of
  its authority passes.\<close>

theorem fill_origin_authorized:
  assumes "fill_run cfg n f (Act_Origin rank) b" and "\<not> f_bounded f"
  shows "f_rank f = Some rank \<and> rank < length (f_owners f) \<and> length (f_evidence f) = rank \<and>
    validate_origin_authority \<lparr>af_object = ob, af_page = page, af_rank = rank,
      af_evidence = length (f_evidence f), af_member = True, af_local = False\<rparr> ob page = Inr ()"
  using fill_run_good [OF assms(1)] assms(2)
  by (auto simp: fill_inv_def fill_authority_def fill_base_def validate_origin_authority_def)

theorem fill_origin_authorized_witness:
  "\<exists>f b. fill_run owner_fill 4 f (Act_Origin 1) b \<and> length (f_evidence f) = 1 \<and>
     validate_origin_authority \<lparr>af_object = (7::nat), af_page = 3, af_rank = 1,
       af_evidence = length (f_evidence f), af_member = True, af_local = False\<rparr> 7 3 = Inr ()"
proof -
  obtain f b where f: "fill_run owner_fill 4 f (Act_Origin 1) b" "\<not> f_bounded f" by (rule owner_trace)
  from fill_origin_authorized [OF f, of "7::nat" 3] f(1) show ?thesis by blast
qed



end
