(* ===== verification/Racer_Cache.thy ===== *)
theory Racer_Cache
  imports Racer_Maps
begin

section \<open>Recency indexes of the memory cache\<close>

text \<open>
  The recency indexes of \<open>core/src/cache.rs\<close>: \<open>Lanes\<close> (per-lane tick order), \<open>TickLru\<close> (verified
  pages), \<open>OrderedLru\<close> (ciphertext not yet verified) and \<open>Expiry\<close> (the checkpoints that map time to
  ticks), with the values that order disk segments for eviction. The lane of a key (\<open>Grouping\<close>) is the
  parameter \<open>grp\<close>; the closures a caller passes to \<open>victim\<close> and \<open>reclaim\<close> are functions on a state of
  their own. A missing key where the source indexes a map, and a range whose start lies beyond its end,
  panic: these operations return \<open>None\<close> there.
\<close>

definition RECLAIM_WINDOW :: nat where "RECLAIM_WINDOW = 256"
definition PRESSURE_WINDOW :: nat where "PRESSURE_WINDOW = 8"

subsection \<open>Lanes\<close>

record 'k lane =
  ln_order :: "(nat, 'k) bmap"
  ln_after :: nat

definition lane_default :: "'k lane" where
  "lane_default = \<lparr>ln_order = [], ln_after = 0\<rparr>"

type_synonym ('g, 'k) lanes = "('g, 'k lane) bmap"

definition lanes_insert :: "'g::linorder option \<Rightarrow> nat \<Rightarrow> 'k \<Rightarrow> ('g, 'k) lanes \<Rightarrow> ('g, 'k) lanes" where
  "lanes_insert lane_of tick key m =
     (case lane_of of
        None \<Rightarrow> m
      | Some g \<Rightarrow>
          let lane = (case bt_get m g of None \<Rightarrow> lane_default | Some l \<Rightarrow> l)
          in bt_insert g (lane\<lparr>ln_order := bt_insert tick key (ln_order lane)\<rparr>) m)"

definition lanes_remove :: "'g::linorder option \<Rightarrow> nat \<Rightarrow> ('g, 'k) lanes \<Rightarrow> ('g, 'k) lanes" where
  "lanes_remove lane_of tick m =
     (case lane_of of
        None \<Rightarrow> m
      | Some g \<Rightarrow>
          (case bt_get m g of
             None \<Rightarrow> m
           | Some lane \<Rightarrow>
               let lane' = lane\<lparr>ln_order := bt_remove tick (ln_order lane)\<rparr>;
                   m' = bt_update g (\<lambda>_. lane') m
               in if ln_order lane' = [] then bt_remove g m' else m'))"

text \<open>The entries of a map in key order, those after a cursor first.\<close>

definition wrap_after :: "'k::linorder \<Rightarrow> ('k, 'v) bmap \<Rightarrow> ('k, 'v) bmap" where
  "wrap_after c m = bt_above c m @ bt_upto c m"

definition lanes_candidates :: "('g::linorder, 'k) lanes \<Rightarrow> 'g \<Rightarrow> (nat \<times> 'k) list" where
  "lanes_candidates m g =
     (case bt_get m g of
        None \<Rightarrow> []
      | Some lane \<Rightarrow> take RECLAIM_WINDOW (wrap_after (ln_after lane) (ln_order lane)))"

definition lanes_advance :: "'g::linorder \<Rightarrow> nat \<Rightarrow> ('g, 'k) lanes \<Rightarrow> ('g, 'k) lanes" where
  "lanes_advance g tick m = bt_update g (\<lambda>lane. lane\<lparr>ln_after := tick\<rparr>) m"

definition lanes_window :: "('g::linorder, 'k) lanes \<Rightarrow> 'g option \<Rightarrow> 'g list" where
  "lanes_window m cursor =
     take PRESSURE_WINDOW (map fst (case cursor of Some c \<Rightarrow> wrap_after c m | None \<Rightarrow> m))"

subsection \<open>Verified entries\<close>

record ('k, 'v, 'g) tick_lru =
  tl_pages :: "('k, nat \<times> 'v) hmap"
  tl_lru :: "(nat, 'k) bmap"
  tl_clock :: nat
  tl_reclaim_after :: nat
  tl_lanes :: "('g, 'k) lanes"

definition tick_default :: "('k, 'v, 'g) tick_lru" where
  "tick_default = \<lparr>tl_pages = [], tl_lru = [], tl_clock = 0, tl_reclaim_after = 0, tl_lanes = []\<rparr>"

datatype visit = Visit_Skip | Visit_Remove | Visit_Last | Visit_Stop

datatype exhausted = Exhausted

definition tick_len :: "('k, 'v, 'g) tick_lru \<Rightarrow> nat" where
  "tick_len l = length (tl_pages l)"

definition tick_is_empty :: "('k, 'v, 'g) tick_lru \<Rightarrow> bool" where
  "tick_is_empty l \<longleftrightarrow> tl_pages l = []"

definition tick_remove ::
  "('k \<Rightarrow> 'g::linorder option) \<Rightarrow> 'k \<Rightarrow> ('k, 'v, 'g) tick_lru \<Rightarrow> 'v option \<times> ('k, 'v, 'g) tick_lru" where
  "tick_remove grp key l =
     (case hm_get (tl_pages l) key of
        None \<Rightarrow> (None, l)
      | Some (tick, v) \<Rightarrow>
          (Some v, l\<lparr>tl_pages := hm_remove key (tl_pages l), tl_lru := bt_remove tick (tl_lru l),
                     tl_lanes := lanes_remove (grp key) tick (tl_lanes l)\<rparr>))"

definition tick_insert ::
  "('k \<Rightarrow> 'g::linorder option) \<Rightarrow> 'k \<Rightarrow> 'v \<Rightarrow> ('k, 'v, 'g) tick_lru \<Rightarrow>
   (exhausted + unit) \<times> ('k, 'v, 'g) tick_lru" where
  "tick_insert grp key v l =
     (case checked_add u64_max (tl_clock l) 1 of
        None \<Rightarrow> (Inl Exhausted, l)
      | Some c \<Rightarrow>
          (Inr (), l\<lparr>tl_clock := c, tl_lru := bt_insert c key (tl_lru l),
                     tl_lanes := lanes_insert (grp key) c key (tl_lanes l),
                     tl_pages := hm_insert key (c, v) (tl_pages l)\<rparr>))"

definition tick_touch ::
  "('k \<Rightarrow> 'g::linorder option) \<Rightarrow> 'k \<Rightarrow> ('k, 'v, 'g) tick_lru \<Rightarrow>
   (exhausted + unit) \<times> ('k, 'v, 'g) tick_lru" where
  "tick_touch grp key l =
     (case hm_get (tl_pages l) key of
        None \<Rightarrow> (Inr (), l)
      | Some (old, _) \<Rightarrow>
          (case checked_add u64_max (tl_clock l) 1 of
             None \<Rightarrow> (Inl Exhausted, l)
           | Some tick \<Rightarrow>
               (Inr (), l\<lparr>tl_clock := tick,
                          tl_lru := bt_insert tick key (bt_remove old (tl_lru l)),
                          tl_lanes := lanes_insert (grp key) tick key (lanes_remove (grp key) old (tl_lanes l)),
                          tl_pages := hm_update key (\<lambda>e. (tick, snd e)) (tl_pages l)\<rparr>)))"

definition tick_candidates :: "('k, 'v, 'g) tick_lru \<Rightarrow> (nat \<times> 'k) list" where
  "tick_candidates l = take RECLAIM_WINDOW (wrap_after (tl_reclaim_after l) (tl_lru l))"

fun victim_scan ::
  "('s \<Rightarrow> 'v \<Rightarrow> bool \<times> 's) \<Rightarrow> 's \<Rightarrow> (nat \<times> 'k) list \<Rightarrow> ('k, 'v, 'g) tick_lru \<Rightarrow>
   ('k option \<times> 's \<times> ('k, 'v, 'g) tick_lru) option" where
  "victim_scan idle s [] l = Some (None, s, l)"
| "victim_scan idle s ((tick, key) # cs) l =
     (case hm_get (tl_pages l) key of
        None \<Rightarrow> None
      | Some (_, v) \<Rightarrow>
          (case idle s v of
             (True, s') \<Rightarrow> Some (Some key, s', l\<lparr>tl_reclaim_after := tick\<rparr>)
           | (False, s') \<Rightarrow> victim_scan idle s' cs (l\<lparr>tl_reclaim_after := tick\<rparr>)))"

definition tick_victim ::
  "('s \<Rightarrow> 'v \<Rightarrow> bool \<times> 's) \<Rightarrow> 's \<Rightarrow> ('k, 'v, 'g) tick_lru \<Rightarrow>
   ('k option \<times> 's \<times> ('k, 'v, 'g) tick_lru) option" where
  "tick_victim idle s l = victim_scan idle s (tick_candidates l) l"

fun reclaim_scan ::
  "('k \<Rightarrow> 'g::linorder option) \<Rightarrow> ('s \<Rightarrow> 'k \<Rightarrow> 'v \<Rightarrow> visit \<times> 's) \<Rightarrow> 's \<Rightarrow> (nat \<times> 'k) list \<Rightarrow>
   ('k, 'v, 'g) tick_lru \<Rightarrow> ('s \<times> ('k, 'v, 'g) tick_lru) option" where
  "reclaim_scan grp visit s [] l = Some (s, l)"
| "reclaim_scan grp visit s ((tick, key) # cs) l =
     (case hm_get (tl_pages l) key of
        None \<Rightarrow> None
      | Some (_, v) \<Rightarrow>
          (case visit s key v of
             (Visit_Stop, s') \<Rightarrow> Some (s', l)
           | (Visit_Remove, s') \<Rightarrow>
               reclaim_scan grp visit s' cs (snd (tick_remove grp key (l\<lparr>tl_reclaim_after := tick\<rparr>)))
           | (Visit_Last, s') \<Rightarrow> Some (s', l\<lparr>tl_reclaim_after := tick\<rparr>)
           | (Visit_Skip, s') \<Rightarrow> reclaim_scan grp visit s' cs (l\<lparr>tl_reclaim_after := tick\<rparr>)))"

definition tick_reclaim ::
  "('k \<Rightarrow> 'g::linorder option) \<Rightarrow> ('s \<Rightarrow> 'k \<Rightarrow> 'v \<Rightarrow> visit \<times> 's) \<Rightarrow> 's \<Rightarrow> ('k, 'v, 'g) tick_lru \<Rightarrow>
   ('s \<times> ('k, 'v, 'g) tick_lru) option" where
  "tick_reclaim grp visit s l = reclaim_scan grp visit s (tick_candidates l) l"

text \<open>Idle-expiry selection; \<open>BTreeMap::range\<close> panics on a start beyond the end.\<close>

definition expiring ::
  "(nat, 'k) bmap \<Rightarrow> nat \<Rightarrow> nat \<Rightarrow> nat \<Rightarrow> ((nat \<times> 'k) list \<times> nat option) option" where
  "expiring order after cutoff batch =
     (if cutoff < after then None
      else let selected = take batch (bt_upto cutoff (bt_above after order))
           in Some (selected,
                if length selected = batch \<and> selected \<noteq> [] then Some (fst (List.last selected)) else None))"

definition tick_expiring ::
  "('k, 'v, 'g) tick_lru \<Rightarrow> nat \<Rightarrow> nat \<Rightarrow> nat \<Rightarrow> ((nat \<times> 'k) list \<times> nat option) option" where
  "tick_expiring l after cutoff batch = expiring (tl_lru l) after cutoff batch"

subsection \<open>Unverified entries\<close>

record ('k, 'v, 'g) ordered_lru =
  ol_pages :: "('k, 'v) bmap"
  ol_ticks :: "('k, nat) hmap"
  ol_order :: "(nat, 'k) bmap"
  ol_clock :: nat
  ol_lanes :: "('g, 'k) lanes"

definition ordered_default :: "('k, 'v, 'g) ordered_lru" where
  "ordered_default = \<lparr>ol_pages = [], ol_ticks = [], ol_order = [], ol_clock = 0, ol_lanes = []\<rparr>"

definition ordered_touch ::
  "('k::linorder \<Rightarrow> 'g::linorder option) \<Rightarrow> 'k \<Rightarrow> ('k, 'v, 'g) ordered_lru \<Rightarrow> ('k, 'v, 'g) ordered_lru" where
  "ordered_touch grp key l =
     (if bt_get (ol_pages l) key = None then l
      else
        let clock = sat_add u64_max (ol_clock l) 1;
            old = hm_get (ol_ticks l) key;
            order = (case old of None \<Rightarrow> ol_order l | Some t \<Rightarrow> bt_remove t (ol_order l));
            lanes = (case old of None \<Rightarrow> ol_lanes l | Some t \<Rightarrow> lanes_remove (grp key) t (ol_lanes l))
        in l\<lparr>ol_clock := clock, ol_ticks := hm_insert key clock (ol_ticks l),
             ol_order := bt_insert clock key order, ol_lanes := lanes_insert (grp key) clock key lanes\<rparr>)"

definition ordered_insert ::
  "('k::linorder \<Rightarrow> 'g::linorder option) \<Rightarrow> 'k \<Rightarrow> 'v \<Rightarrow> ('k, 'v, 'g) ordered_lru \<Rightarrow> ('k, 'v, 'g) ordered_lru" where
  "ordered_insert grp key page l = ordered_touch grp key (l\<lparr>ol_pages := bt_insert key page (ol_pages l)\<rparr>)"

definition ordered_remove ::
  "('k::linorder \<Rightarrow> 'g::linorder option) \<Rightarrow> 'k \<Rightarrow> ('k, 'v, 'g) ordered_lru \<Rightarrow> 'v option \<times> ('k, 'v, 'g) ordered_lru" where
  "ordered_remove grp key l =
     (case bt_get (ol_pages l) key of
        None \<Rightarrow> (None, l)
      | Some page \<Rightarrow>
          let l1 = l\<lparr>ol_pages := bt_remove key (ol_pages l)\<rparr>
          in (Some page,
              case hm_get (ol_ticks l) key of
                None \<Rightarrow> l1
              | Some tick \<Rightarrow>
                  l1\<lparr>ol_ticks := hm_remove key (ol_ticks l), ol_order := bt_remove tick (ol_order l),
                     ol_lanes := lanes_remove (grp key) tick (ol_lanes l)\<rparr>))"

definition ordered_retain ::
  "('k::linorder \<Rightarrow> 'g::linorder option) \<Rightarrow> ('k \<Rightarrow> bool) \<Rightarrow> ('k, 'v, 'g) ordered_lru \<Rightarrow> ('k, 'v, 'g) ordered_lru" where
  "ordered_retain grp keep l =
     fold (\<lambda>key l. snd (ordered_remove grp key l)) (filter (\<lambda>key. \<not> keep key) (map fst (ol_pages l))) l"

definition ordered_candidates :: "('k::linorder, 'v, 'g) ordered_lru \<Rightarrow> 'k option \<Rightarrow> 'k list" where
  "ordered_candidates l cursor =
     take RECLAIM_WINDOW (map fst
       ((case cursor of None \<Rightarrow> ol_pages l | Some c \<Rightarrow> bt_above c (ol_pages l)) @
        takeWhile (\<lambda>p. case cursor of None \<Rightarrow> False | Some c \<Rightarrow> fst p \<le> c) (ol_pages l)))"

definition ordered_expiring ::
  "('k, 'v, 'g) ordered_lru \<Rightarrow> nat \<Rightarrow> nat \<Rightarrow> nat \<Rightarrow> ((nat \<times> 'k) list \<times> nat option) option" where
  "ordered_expiring l after cutoff batch = expiring (ol_order l) after cutoff batch"

subsection \<open>Idle expiry\<close>

definition IDLE_TTL :: duration where "IDLE_TTL = secs 30"
definition EXPIRY_CHECKPOINT :: duration where "EXPIRY_CHECKPOINT = secs 1"
definition EXPIRY_BATCH :: nat where "EXPIRY_BATCH = 32"

record expiry =
  ex_checkpoints :: "(instant \<times> nat \<times> nat) list"
  ex_verified :: "nat option"
  ex_ciphertext :: "nat option"

definition expiry_default :: expiry where
  "expiry_default = \<lparr>ex_checkpoints = [], ex_verified = None, ex_ciphertext = None\<rparr>"

text \<open>\<open>while get(1) is old: pop_front\<close>\<close>

fun drop_aged :: "instant \<Rightarrow> (instant \<times> nat \<times> nat) list \<Rightarrow> (instant \<times> nat \<times> nat) list" where
  "drop_aged now (c # d # cs) = (if now - fst d \<ge> IDLE_TTL then drop_aged now (d # cs) else c # d # cs)"
| "drop_aged now cs = cs"

definition expiry_advance :: "instant \<Rightarrow> nat \<Rightarrow> nat \<Rightarrow> expiry \<Rightarrow> (nat \<times> nat) option \<times> expiry" where
  "expiry_advance now verified ciphertext x =
     (let x1 =
            (if ex_checkpoints x = [] \<or> now - fst (List.last (ex_checkpoints x)) \<ge> EXPIRY_CHECKPOINT
             then \<lparr>ex_checkpoints = ex_checkpoints x @ [(now, verified, ciphertext)],
                   ex_verified = Some (case ex_verified x of None \<Rightarrow> 0 | Some t \<Rightarrow> t),
                   ex_ciphertext = Some (case ex_ciphertext x of None \<Rightarrow> 0 | Some t \<Rightarrow> t)\<rparr>
             else x);
          cs = drop_aged now (ex_checkpoints x1)
      in (case cs of
            [] \<Rightarrow> None
          | (at, v, c) # _ \<Rightarrow> if now - at \<ge> IDLE_TTL then Some (v, c) else None,
          x1\<lparr>ex_checkpoints := cs\<rparr>))"

subsection \<open>Values of disk segments\<close>

definition SCAN_BUDGET :: nat where "SCAN_BUDGET = 256"
definition MAX_SCORE :: nat where "MAX_SCORE = 4"
definition MAX_PAGE_VALUE :: nat where "MAX_PAGE_VALUE = 2 * MAX_SCORE + 1"

definition unseen_value_for :: "nat \<Rightarrow> bool \<Rightarrow> nat" where
  "unseen_value_for page_bytes any_over_share =
     sat_mul u64_max page_bytes (if any_over_share then MAX_PAGE_VALUE else MAX_SCORE)"

definition unseen_value :: "nat \<Rightarrow> nat" where
  "unseen_value page_bytes = unseen_value_for page_bytes False"

text \<open>For scores up to \<open>MAX_SCORE\<close>, the documented range, the sum fits a byte (\<open>class_score_bounds\<close>).\<close>

definition class_score :: "nat \<Rightarrow> bool \<Rightarrow> bool \<Rightarrow> nat" where
  "class_score score any_over_share page_over_share =
     (if \<not> any_over_share \<or> page_over_share then score else score + MAX_SCORE + 1)"

definition page_value :: "nat option \<Rightarrow> nat \<Rightarrow> nat \<Rightarrow> nat" where
  "page_value bytes page_bytes score = (case bytes of None \<Rightarrow> page_bytes | Some b \<Rightarrow> b) * score"

end
