(* ===== verification/Racer_Cache_Props.thy ===== *)
theory Racer_Cache_Props
  imports Racer_Cache
begin

section \<open>The recency indexes keep their order\<close>

text \<open>
  The invariant of the recency indexes of \<open>Racer_Cache\<close>: the tick order, the entries and the lanes list
  the same keys at the same ticks. On top of it \<open>TickLru\<close> refines a ring of entries with a hand (oldest
  first behind the hand, newest last before it), and every cursor of the cache is an instance of one
  interface, a scan that resumes where it stopped (\<open>cursor_scan\<close>), so that bounded passes visit every
  entry.
\<close>

subsection \<open>Ordered maps with a cursor\<close>

lemma bt_split: "bt_ok m \<Longrightarrow> bt_upto c m @ bt_above c m = m"
proof (induction m)
  case (Cons p m)
  then have ok: "bt_ok m" "\<forall>q \<in> set m. fst p < fst q" by (simp_all add: bt_ok_Cons)
  show ?case
  proof (cases "fst p \<le> c")
    case True
    with Cons.IH [OF ok(1)] show ?thesis by (auto simp: bt_upto_def bt_above_def)
  next
    case False
    then have "bt_upto c m = []" "bt_above c m = m"
      using ok(2) by (fastforce simp: bt_upto_def bt_above_def filter_empty_conv filter_id_conv)+
    with False show ?thesis by (auto simp: bt_upto_def bt_above_def)
  qed
qed (simp add: bt_upto_def bt_above_def)

lemma bt_ok_append: "bt_ok (xs @ ys) \<longleftrightarrow> bt_ok xs \<and> bt_ok ys \<and> (\<forall>p \<in> set xs. \<forall>q \<in> set ys. fst p < fst q)"
  by (induction xs) (auto simp: bt_ok_Cons)

lemma bt_cut:
  assumes "bt_ok (xs @ ys)" and "xs \<noteq> []"
  shows "bt_upto (fst (last xs)) (xs @ ys) = xs" and "bt_above (fst (last xs)) (xs @ ys) = ys"
proof -
  have le: "fst p \<le> fst (last xs)" if "p \<in> set xs" for p
  proof -
    from assms(2) have xs: "xs = butlast xs @ [last xs]" by simp
    then have "bt_ok (butlast xs @ [last xs])" using assms(1) by (simp add: bt_ok_append)
    with that show ?thesis
      by (subst (asm) xs) (auto simp: bt_ok_append less_imp_le)
  qed
  have gt: "fst (last xs) < fst q" if "q \<in> set ys" for q
    using assms that by (simp add: bt_ok_append)
  show "bt_upto (fst (last xs)) (xs @ ys) = xs"
    using le gt by (auto simp: bt_upto_def filter_empty_conv not_le)
  show "bt_above (fst (last xs)) (xs @ ys) = ys"
    using le gt by (auto simp: bt_above_def filter_empty_conv not_less)
qed

lemma bt_insert_max: "\<forall>p \<in> set m. fst p < k \<Longrightarrow> bt_insert k v m = m @ [(k, v)]"
  by (induction k v m rule: bt_insert.induct) auto

lemma bt_remove_filter: "bt_remove k (filter P m) = filter P (bt_remove k m)"
  by (simp add: bt_remove_def conj_commute)

text \<open>The hand of a ring: what it passed, and what it has not.\<close>

definition ring_advance :: "nat \<Rightarrow> 'a list \<times> 'a list \<Rightarrow> 'a list \<times> 'a list" where
  "ring_advance n r =
     (let (s, u) = r in
      if n \<le> length u then (s @ take n u, drop n u)
      else (take (n - length u) s, drop (n - length u) s @ u))"

definition ring_list :: "'a list \<times> 'a list \<Rightarrow> 'a list" where
  "ring_list r = snd r @ fst r"

lemma ring_advance_0 [simp]: "ring_advance 0 r = r"
  by (cases r) (simp add: ring_advance_def)

lemma ring_list_advance:
  assumes "n \<le> length (ring_list r)"
  shows "ring_list (ring_advance n r) = rotate n (ring_list r)"
proof -
  obtain s u where r: "r = (s, u)" by fastforce
  have "rotate n (u @ s) = drop n (u @ s) @ take n (u @ s)"
    using assms r by (cases "n = length (u @ s)") (auto simp: rotate_drop_take ring_list_def)
  then show ?thesis
    using assms r by (auto simp: ring_list_def ring_advance_def)
qed

lemma ring_advance_map: "ring_advance n (map f s, map f u) = map_prod (map f) (map f) (ring_advance n (s, u))"
  by (simp add: ring_advance_def take_map drop_map)

lemma last_take_nth: "0 < j \<Longrightarrow> j \<le> length xs \<Longrightarrow> last (take j xs) = xs ! (j - 1)"
  by (subst last_conv_nth) auto

lemma wrap_advance:
  assumes ok: "bt_ok m" and n: "0 < n" "n \<le> length m"
    and c': "c' = fst (wrap_after c m ! (n - 1))"
  shows "(bt_upto c' m, bt_above c' m) = ring_advance n (bt_upto c m, bt_above c m)"
proof -
  let ?s = "bt_upto c m" and ?u = "bt_above c m"
  have m: "?s @ ?u = m" using ok by (rule bt_split)
  have cut: "(bt_upto c' m, bt_above c' m) = (xs, ys)"
    if "m = xs @ ys" "xs \<noteq> []" "c' = fst (last xs)" for xs ys
    using bt_cut [of xs ys] ok that by simp
  show ?thesis
  proof (cases "n \<le> length ?u")
    case True
    let ?xs = "?s @ take n ?u"
    have "m = ?xs @ drop n ?u" using m by simp
    moreover have "?xs \<noteq> []" using n(1) True by auto
    moreover have "c' = fst (last ?xs)"
      using c' n(1) True
      by (auto simp: wrap_after_def nth_append last_append last_take_nth)
    ultimately have "(bt_upto c' m, bt_above c' m) = (?xs, drop n ?u)" by (rule cut)
    then show ?thesis using True by (simp add: ring_advance_def)
  next
    case False
    let ?j = "n - length ?u"
    have len: "length ?s + length ?u = length m" using arg_cong [OF m, of length] by simp
    have j: "0 < ?j" "?j \<le> length ?s" using False n len by auto
    have "m = take ?j ?s @ (drop ?j ?s @ ?u)" using m by (metis append.assoc append_take_drop_id)
    moreover have "take ?j ?s \<noteq> []" using j by auto
    moreover have "c' = fst (last (take ?j ?s))"
      using c' False j by (auto simp: wrap_after_def nth_append last_take_nth)
    ultimately have "(bt_upto c' m, bt_above c' m) = (take ?j ?s, drop ?j ?s @ ?u)" by (rule cut)
    then show ?thesis using False by (simp add: ring_advance_def)
  qed
qed

subsection \<open>Scans that resume\<close>

text \<open>
  A cursor over a collection: \<open>order\<close> lists what a scan visits, from the cursor on and wrapping, and a
  pass visits the first \<open>window\<close> of them and leaves the cursor at the last one visited.
\<close>

locale cursor_scan =
  fixes ok :: "'s \<Rightarrow> bool" and order :: "'s \<Rightarrow> 'a list" and pass :: "'s \<Rightarrow> 's" and window :: nat
  assumes pass_ok: "ok s \<Longrightarrow> ok (pass s)"
    and pass_order: "ok s \<Longrightarrow> order (pass s) = rotate (min window (length (order s))) (order s)"
    and window_pos: "0 < window"
begin

lemma passes_ok: "ok s \<Longrightarrow> ok ((pass ^^ i) s)"
  by (induction i) (simp_all add: pass_ok)

lemma passes_length: "ok s \<Longrightarrow> length (order ((pass ^^ i) s)) = length (order s)"
  by (induction i) (simp_all add: pass_order passes_ok)

lemma passes_order:
  "ok s \<Longrightarrow> order ((pass ^^ i) s) = rotate (i * min window (length (order s))) (order s)"
  by (induction i) (simp_all add: pass_order passes_ok passes_length rotate_rotate)

lemma passes_cover:
  assumes "ok s"
  shows "(\<Union>i < div_ceil (length (order s)) window. set (take window (order ((pass ^^ i) s)))) = set (order s)"
proof -
  let ?xs = "order s" and ?n = "length (order s)"
  let ?w = "min window ?n" and ?k = "div_ceil (length (order s)) window"
  have visit: "take window (order ((pass ^^ i) s)) = take ?w (rotate (i * ?w) ?xs)" for i
    using assms by (simp add: passes_order min_def)
  have "x \<in> (\<Union>i < ?k. set (take window (order ((pass ^^ i) s))))" if x: "x \<in> set ?xs" for x
  proof -
    obtain j where j: "j < ?n" "x = ?xs ! j" using x by (metis in_set_conv_nth)
    then have w: "0 < ?w" using window_pos by auto
    let ?i = "j div ?w" and ?r = "j mod ?w"
    have r: "?r < ?w" using w by (rule mod_less_divisor)
    then have "rotate (?i * ?w) ?xs ! ?r = ?xs ! ((?i * ?w + ?r) mod ?n)"
      by (intro nth_rotate) simp
    also have "\<dots> = x" unfolding j(2) using j(1) by (simp only: div_mult_mod_eq mod_less)
    finally have "x \<in> set (take ?w (rotate (?i * ?w) ?xs))"
      using r unfolding in_set_conv_nth by (intro exI [of _ ?r]) auto
    moreover have "?i < ?k"
    proof (cases "window \<le> ?n")
      case True
      then have "?i * window \<le> j" by (simp add: min_absorb1)
      with j(1) div_ceil_ge [OF window_pos, of ?n] have "?i * window < ?k * window" by linarith
      then show ?thesis by simp
    next
      case False
      then have "?i = 0" using j(1) by (simp add: min_absorb2)
      moreover have "0 < ?k" using div_ceil_ge [OF window_pos, of ?n] j(1) by (cases ?k) auto
      ultimately show ?thesis by simp
    qed
    ultimately show ?thesis using visit by auto
  qed
  moreover have "set (take window (order ((pass ^^ i) s))) \<subseteq> set ?xs" for i
    using set_take_subset [of ?w "rotate (i * ?w) ?xs"] by (simp add: visit)
  ultimately show ?thesis by blast
qed

end

subsection \<open>Lanes\<close>

definition lane_entries :: "('g, 'k) lanes \<Rightarrow> 'g \<Rightarrow> (nat, 'k) bmap" where
  "lane_entries m g = (case bt_get m g of None \<Rightarrow> [] | Some lane \<Rightarrow> ln_order lane)"

definition lanes_ok :: "('g::linorder, 'k) lanes \<Rightarrow> bool" where
  "lanes_ok m \<longleftrightarrow> bt_ok m \<and> (\<forall>g lane. bt_get m g = Some lane \<longrightarrow> ln_order lane \<noteq> [] \<and> bt_ok (ln_order lane))"

lemma lanes_ok_Nil [simp]: "lanes_ok []"
  by (simp add: lanes_ok_def)

lemma lane_entries_Nil [simp]: "lane_entries [] g = []"
  by (simp add: lane_entries_def)

lemma bt_insert_not_Nil [simp]: "bt_insert k v m \<noteq> []"
  by (induction k v m rule: bt_insert.induct) auto

lemma lane_entries_ok: "lanes_ok m \<Longrightarrow> bt_ok (lane_entries m g)"
  by (auto simp: lanes_ok_def lane_entries_def split: option.split)

lemma lanes_insert_ok [simp]: "lanes_ok m \<Longrightarrow> lanes_ok (lanes_insert lo t k m)"
  by (auto simp: lanes_ok_def lanes_insert_def lane_default_def Let_def split: option.splits if_splits)

lemma lanes_insert_entries:
  "lane_entries (lanes_insert lo t k m) g =
     (if lo = Some g then bt_insert t k (lane_entries m g) else lane_entries m g)"
  by (auto simp: lane_entries_def lanes_insert_def lane_default_def Let_def split: option.splits)

lemma lanes_remove_ok [simp]: "lanes_ok m \<Longrightarrow> lanes_ok (lanes_remove lo t m)"
  by (auto simp: lanes_ok_def lanes_remove_def Let_def split: option.splits if_splits)

lemma lanes_remove_entries:
  "lane_entries (lanes_remove lo t m) g =
     (if lo = Some g then bt_remove t (lane_entries m g) else lane_entries m g)"
  by (auto simp: lane_entries_def lanes_remove_def Let_def split: option.splits) (simp add: bt_remove_def)

lemma lanes_advance_ok [simp]: "lanes_ok m \<Longrightarrow> lanes_ok (lanes_advance g t m)"
  by (auto simp: lanes_ok_def lanes_advance_def split: if_splits)

lemma lanes_advance_entries [simp]: "lane_entries (lanes_advance g t m) g' = lane_entries m g'"
  by (auto simp: lane_entries_def lanes_advance_def split: option.split)

text \<open>The lanes list the entries of a tick order by lane.\<close>

definition lanes_list :: "('k \<Rightarrow> 'g::linorder option) \<Rightarrow> (nat, 'k) bmap \<Rightarrow> ('g, 'k) lanes \<Rightarrow> bool" where
  "lanes_list grp order m \<longleftrightarrow>
     lanes_ok m \<and> (\<forall>g. lane_entries m g = filter (\<lambda>p. grp (snd p) = Some g) order)"

lemma lanes_list_insert:
  assumes "lanes_list grp order m" and "\<forall>p \<in> set order. fst p < t"
  shows "lanes_list grp (bt_insert t k order) (lanes_insert (grp k) t k m)"
proof -
  have "bt_insert t k (filter P order) = filter P order @ [(t, k)]" for P
    using assms(2) by (intro bt_insert_max) simp
  then show ?thesis
    using assms by (auto simp: lanes_list_def lanes_insert_entries bt_insert_max)
qed

lemma lanes_list_remove:
  assumes "lanes_list grp order m" and ok: "bt_ok order" and get: "bt_get order t = Some k"
  shows "lanes_list grp (bt_remove t order) (lanes_remove (grp k) t m)"
proof -
  have "filter (\<lambda>p. grp (snd p) = Some g) (bt_remove t order) = filter (\<lambda>p. grp (snd p) = Some g) order"
    if "grp k \<noteq> Some g" for g
  proof -
    have "fst p = t \<Longrightarrow> snd p = k" if "p \<in> set order" for p
      using ok get that by (metis bt_get_Some_iff option.inject prod.collapse)
    with that show ?thesis
      unfolding bt_remove_def filter_filter by (intro filter_cong) auto
  qed
  with assms show ?thesis
    by (auto simp: lanes_list_def lanes_remove_entries bt_remove_filter)
qed

subsection \<open>The invariant of \<open>TickLru\<close>\<close>

definition tick_ok :: "('k \<Rightarrow> 'g::linorder option) \<Rightarrow> ('k, 'v, 'g) tick_lru \<Rightarrow> bool" where
  "tick_ok grp l \<longleftrightarrow>
     hm_ok (tl_pages l) \<and> bt_ok (tl_lru l) \<and>
     (\<forall>k t. bt_get (tl_lru l) t = Some k \<longleftrightarrow> (\<exists>v. hm_get (tl_pages l) k = Some (t, v))) \<and>
     (\<forall>p \<in> set (tl_lru l). 0 < fst p \<and> fst p \<le> tl_clock l) \<and> tl_clock l \<le> u64_max \<and>
     tl_reclaim_after l \<le> tl_clock l \<and> lanes_list grp (tl_lru l) (tl_lanes l)"

lemma tick_ok_default [simp]: "tick_ok grp tick_default"
  by (simp add: tick_ok_def tick_default_def lanes_list_def)

lemma tick_index:
  "tick_ok grp l \<Longrightarrow> bt_get (tl_lru l) t = Some k \<longleftrightarrow> (\<exists>v. hm_get (tl_pages l) k = Some (t, v))"
  by (simp add: tick_ok_def)

lemma tick_member: "tick_ok grp l \<Longrightarrow> (t, k) \<in> set (tl_lru l) \<longleftrightarrow> bt_get (tl_lru l) t = Some k"
  by (rule bt_get_Some_iff [symmetric]) (simp add: tick_ok_def)

lemma tick_ok_cursor: "tick_ok grp l \<Longrightarrow> c \<le> tl_clock l \<Longrightarrow> tick_ok grp (l\<lparr>tl_reclaim_after := c\<rparr>)"
  by (simp add: tick_ok_def)

lemma tick_insert_eq:
  assumes "tl_clock l < u64_max"
  shows "tick_insert grp k v l =
    (Inr (), l\<lparr>tl_clock := tl_clock l + 1, tl_lru := bt_insert (tl_clock l + 1) k (tl_lru l),
               tl_lanes := lanes_insert (grp k) (tl_clock l + 1) k (tl_lanes l),
               tl_pages := hm_insert k (tl_clock l + 1, v) (tl_pages l)\<rparr>)"
proof -
  have "checked_add u64_max (tl_clock l) 1 = Some (tl_clock l + 1)" using assms by simp
  then show ?thesis unfolding tick_insert_def by (simp only: option.case)
qed

lemma tick_insert_ok:
  assumes ok: "tick_ok grp l" and new: "hm_get (tl_pages l) k = None" and room: "tl_clock l < u64_max"
  shows "tick_ok grp (snd (tick_insert grp k v l))"
proof -
  let ?c = "tl_clock l + 1"
  have max: "\<forall>p \<in> set (tl_lru l). fst p < ?c" using ok by (auto simp: tick_ok_def)
  then have fresh: "bt_get (tl_lru l) ?c = None" by (auto simp: bt_get_None_iff)
  have "bt_get (bt_insert ?c k (tl_lru l)) t = Some k' \<longleftrightarrow>
      (\<exists>x. hm_get (hm_insert k (?c, v) (tl_pages l)) k' = Some (t, x))" for k' t
    using tick_index [OF ok, of t k'] fresh new by (cases "k' = k"; cases "t = ?c") auto
  moreover have "lanes_list grp (bt_insert ?c k (tl_lru l)) (lanes_insert (grp k) ?c k (tl_lanes l))"
    using ok max by (intro lanes_list_insert) (simp_all add: tick_ok_def)
  ultimately show ?thesis
    unfolding tick_insert_eq [OF room]
    using ok room by (auto simp: tick_ok_def set_bt_insert simp del: bt_get_insert hm_get_insert)
qed

lemma tick_ok_pages:
  "tick_ok grp l \<Longrightarrow> hm_ok m \<Longrightarrow> hm_get m = hm_get (tl_pages l) \<Longrightarrow> tick_ok grp (l\<lparr>tl_pages := m\<rparr>)"
  by (simp add: tick_ok_def)

lemma tick_entry:
  assumes "tick_ok grp l" and "hm_get (tl_pages l) k = Some (t, v)"
  shows "bt_get (tl_lru l) t = Some k" and "(t, k) \<in> set (tl_lru l)" and "0 < t" "t \<le> tl_clock l"
proof -
  show *: "bt_get (tl_lru l) t = Some k" using assms(2) tick_index [OF assms(1)] by blast
  then show in_set: "(t, k) \<in> set (tl_lru l)" using tick_member [OF assms(1)] by blast
  then show "0 < t" "t \<le> tl_clock l" using assms(1) by (auto simp: tick_ok_def)
qed

lemma tick_listed:
  assumes "tick_ok grp l" and "p \<in> set (tl_lru l)"
  shows "\<exists>v. hm_get (tl_pages l) (snd p) = Some (fst p, v)"
  using assms(2) tick_member [OF assms(1), of "fst p" "snd p"] tick_index [OF assms(1), of "fst p" "snd p"] by simp

lemma tick_remove_ok [simp]:
  assumes ok: "tick_ok grp l"
  shows "tick_ok grp (snd (tick_remove grp k l))"
proof (cases "hm_get (tl_pages l) k")
  case None
  then show ?thesis using ok by (simp add: tick_remove_def)
next
  case (Some e)
  obtain t v where e: "e = (t, v)" by fastforce
  note entry = tick_entry [OF ok Some [unfolded e]]
  have "bt_get (bt_remove t (tl_lru l)) t' = Some k' \<longleftrightarrow>
      (\<exists>x. hm_get (hm_remove k (tl_pages l)) k' = Some (t', x))" for k' t'
    using tick_index [OF ok, of t' k'] entry(1) Some e by (cases "k' = k"; cases "t' = t") auto
  moreover have "lanes_list grp (bt_remove t (tl_lru l)) (lanes_remove (grp k) t (tl_lanes l))"
    using ok entry by (intro lanes_list_remove) (simp_all add: tick_ok_def)
  ultimately show ?thesis
    using ok Some e by (auto simp: tick_remove_def tick_ok_def set_bt_remove)
qed

lemma tick_remove_get [simp]: "hm_get (tl_pages (snd (tick_remove grp k l))) = (hm_get (tl_pages l))(k := None)"
  by (auto simp: tick_remove_def split: option.split)

lemma tick_remove_clock [simp]: "tl_clock (snd (tick_remove grp k l)) = tl_clock l"
  by (auto simp: tick_remove_def split: option.split)

text \<open>A touch is a removal followed by an insertion, except for where the hash map keeps the entry.\<close>

lemma tick_touch_eq:
  assumes "tl_clock l < u64_max" and "hm_get (tl_pages l) k = Some (t, v)"
  shows "tick_touch grp k l = (Inr (), (snd (tick_insert grp k v (snd (tick_remove grp k l))))
    \<lparr>tl_pages := hm_update k (\<lambda>e. (tl_clock l + 1, snd e)) (tl_pages l)\<rparr>)"
proof -
  have "checked_add u64_max (tl_clock l) 1 = Some (tl_clock l + 1)" using assms by simp
  then have "tick_touch grp k l = (Inr (), l\<lparr>tl_clock := tl_clock l + 1,
      tl_lru := bt_insert (tl_clock l + 1) k (bt_remove t (tl_lru l)),
      tl_lanes := lanes_insert (grp k) (tl_clock l + 1) k (lanes_remove (grp k) t (tl_lanes l)),
      tl_pages := hm_update k (\<lambda>e. (tl_clock l + 1, snd e)) (tl_pages l)\<rparr>)"
    unfolding tick_touch_def assms(2) by (simp only: option.case prod.case)
  then show ?thesis
    using assms by (simp add: tick_insert_eq) (simp add: tick_remove_def)
qed

lemma touch_pages:
  assumes "hm_get m k = Some (t, v)"
  shows "hm_get (hm_update k (\<lambda>e. (c, snd e)) m) = hm_get (hm_insert k (c, v) (hm_remove k m))"
  using assms by (auto simp: fun_eq_iff)

lemma tick_touch_ok:
  assumes ok: "tick_ok grp l" and room: "tl_clock l < u64_max"
  shows "tick_ok grp (snd (tick_touch grp k l))"
proof (cases "hm_get (tl_pages l) k")
  case None
  then show ?thesis using ok by (simp add: tick_touch_def)
next
  case (Some e)
  obtain t v where e: "e = (t, v)" by fastforce
  let ?l = "snd (tick_insert grp k v (snd (tick_remove grp k l)))"
  have "tick_ok grp ?l" using ok room by (intro tick_insert_ok) simp_all
  moreover have "hm_ok (hm_update k (\<lambda>e. (tl_clock l + 1, snd e)) (tl_pages l))" using ok by (simp add: tick_ok_def)
  moreover have "hm_get (hm_update k (\<lambda>e. (tl_clock l + 1, snd e)) (tl_pages l)) = hm_get (tl_pages ?l)"
    using room Some e by (auto simp: tick_insert_eq fun_eq_iff)
  ultimately have "tick_ok grp (?l\<lparr>tl_pages := hm_update k (\<lambda>e. (tl_clock l + 1, snd e)) (tl_pages l)\<rparr>)"
    by (rule tick_ok_pages)
  then show ?thesis using tick_touch_eq [OF room Some [unfolded e], of grp] by simp
qed

subsection \<open>The ring a \<open>TickLru\<close> stands for\<close>

definition tick_entry_of :: "('k, 'v, 'g) tick_lru \<Rightarrow> nat \<times> 'k \<Rightarrow> 'k \<times> 'v" where
  "tick_entry_of l p = (snd p, snd (the (hm_get (tl_pages l) (snd p))))"

definition ring_of :: "('k, 'v, 'g) tick_lru \<Rightarrow> ('k \<times> 'v) list \<times> ('k \<times> 'v) list" where
  "ring_of l =
     (map (tick_entry_of l) (bt_upto (tl_reclaim_after l) (tl_lru l)),
      map (tick_entry_of l) (bt_above (tl_reclaim_after l) (tl_lru l)))"

definition ring_drop :: "'k \<Rightarrow> ('k \<times> 'v) list \<times> ('k \<times> 'v) list \<Rightarrow> ('k \<times> 'v) list \<times> ('k \<times> 'v) list" where
  "ring_drop k r = (filter (\<lambda>e. fst e \<noteq> k) (fst r), filter (\<lambda>e. fst e \<noteq> k) (snd r))"

definition ring_add :: "'k \<Rightarrow> 'v \<Rightarrow> ('k \<times> 'v) list \<times> ('k \<times> 'v) list \<Rightarrow> ('k \<times> 'v) list \<times> ('k \<times> 'v) list" where
  "ring_add k v r = (fst r, snd r @ [(k, v)])"

definition ring_find :: "'k \<Rightarrow> ('k \<times> 'v) list \<times> ('k \<times> 'v) list \<Rightarrow> 'v option" where
  "ring_find k r = map_of (ring_list r) k"

lemma ring_pages: "hm_get m = hm_get (tl_pages l) \<Longrightarrow> ring_of (l\<lparr>tl_pages := m\<rparr>) = ring_of l"
  by (simp add: ring_of_def tick_entry_of_def)

lemma ring_add_of:
  assumes ok: "tick_ok grp l" and new: "hm_get (tl_pages l) k = None" and room: "tl_clock l < u64_max"
  shows "ring_of (snd (tick_insert grp k v l)) = ring_add k v (ring_of l)"
proof -
  let ?l = "snd (tick_insert grp k v l)"
  have old: "tick_entry_of ?l p = tick_entry_of l p" if "p \<in> set (tl_lru l)" for p
  proof -
    from tick_listed [OF ok that] obtain x where "hm_get (tl_pages l) (snd p) = Some (fst p, x)" by blast
    with new show ?thesis using room by (auto simp: tick_entry_of_def tick_insert_eq)
  qed
  have lru: "tl_lru ?l = tl_lru l @ [(tl_clock l + 1, k)]" "tl_reclaim_after ?l = tl_reclaim_after l"
    using ok room by (auto simp: tick_insert_eq tick_ok_def intro!: bt_insert_max)
  have "tick_entry_of ?l (tl_clock l + 1, k) = (k, v)" using room by (simp add: tick_entry_of_def tick_insert_eq)
  moreover have "tl_reclaim_after l \<le> tl_clock l" using ok by (simp add: tick_ok_def)
  ultimately show ?thesis
    using old by (auto simp: ring_of_def lru ring_add_def bt_upto_def bt_above_def)
qed

lemma ring_drop_of:
  assumes ok: "tick_ok grp l"
  shows "ring_of (snd (tick_remove grp k l)) = ring_drop k (ring_of l)"
proof (cases "hm_get (tl_pages l) k")
  case None
  have "snd p \<noteq> k" if "p \<in> set (tl_lru l)" for p
    using tick_listed [OF ok that] None by auto
  then show ?thesis
    using None
    by (auto simp: tick_remove_def ring_of_def ring_drop_def bt_upto_def bt_above_def tick_entry_of_def
        filter_id_conv)
next
  case (Some e)
  obtain t v where e: "e = (t, v)" by fastforce
  have same: "fst p = t \<longleftrightarrow> snd p = k" if "p \<in> set (tl_lru l)" for p
    using tick_listed [OF ok that] tick_entry(1) [OF ok Some [unfolded e]]
      tick_member [OF ok, of "fst p" "snd p"] that Some e by auto
  then have "bt_remove t (tl_lru l) = filter (\<lambda>p. snd p \<noteq> k) (tl_lru l)"
    unfolding bt_remove_def by (intro filter_cong) auto
  then have l: "tl_lru (snd (tick_remove grp k l)) = filter (\<lambda>p. snd p \<noteq> k) (tl_lru l)"
    "tl_reclaim_after (snd (tick_remove grp k l)) = tl_reclaim_after l"
    using Some e by (simp_all add: tick_remove_def)
  have "tick_entry_of (snd (tick_remove grp k l)) p = tick_entry_of l p" if "snd p \<noteq> k" for p
    using that by (simp add: tick_entry_of_def)
  then show ?thesis
    by (auto simp: ring_of_def l ring_drop_def bt_upto_def bt_above_def filter_map comp_def tick_entry_of_def
        conj_commute intro!: filter_cong)
qed

lemma tick_keys_distinct:
  assumes ok: "tick_ok grp l"
  shows "distinct (map snd (tl_lru l))"
proof -
  have "distinct (tl_lru l)" using ok bt_ok_distinct [of "tl_lru l"] by (simp add: tick_ok_def distinct_map)
  moreover have "inj_on snd (set (tl_lru l))"
  proof (rule inj_onI)
    fix p q
    assume "p \<in> set (tl_lru l)" "q \<in> set (tl_lru l)" "snd p = snd q"
    with tick_listed [OF ok, of p] tick_listed [OF ok, of q] show "p = q" by (auto intro: prod_eqI)
  qed
  ultimately show ?thesis by (simp add: distinct_map)
qed

lemma wrap_set: "set (wrap_after c m) = set m"
  using bt_wrap_mset [of c m] unfolding wrap_after_def by (metis set_mset_mset)

lemma ring_list_of: "ring_list (ring_of l) = map (tick_entry_of l) (wrap_after (tl_reclaim_after l) (tl_lru l))"
  by (simp add: ring_list_def ring_of_def wrap_after_def)

lemma wrap_keys_distinct:
  assumes "tick_ok grp l"
  shows "distinct (map snd (wrap_after c (tl_lru l)))"
proof -
  have "mset (map snd (wrap_after c (tl_lru l))) = mset (map snd (tl_lru l))"
    using bt_wrap_mset [of c "tl_lru l"] unfolding wrap_after_def by (metis mset_map)
  with tick_keys_distinct [OF assms] show ?thesis by (metis mset_eq_imp_distinct_iff)
qed

lemma ring_find_of:
  assumes ok: "tick_ok grp l"
  shows "ring_find k (ring_of l) = map_option snd (hm_get (tl_pages l) k)"
proof -
  let ?w = "wrap_after (tl_reclaim_after l) (tl_lru l)"
  have dist: "distinct (map fst (map (tick_entry_of l) ?w))"
    using wrap_keys_distinct [OF ok] by (simp add: tick_entry_of_def comp_def)
  show ?thesis
  proof (cases "hm_get (tl_pages l) k")
    case None
    have "snd p \<noteq> k" if "p \<in> set (tl_lru l)" for p
      using tick_listed [OF ok that] None by auto
    then have "map_of (map (tick_entry_of l) ?w) k = None"
      by (fastforce simp: map_of_eq_None_iff tick_entry_of_def wrap_set)
    then show ?thesis using None by (simp add: ring_find_def ring_list_of)
  next
    case (Some e)
    obtain t v where e: "e = (t, v)" by fastforce
    have "(k, v) \<in> set (map (tick_entry_of l) ?w)"
      using tick_entry(2) [OF ok Some [unfolded e]] Some e by (force simp: wrap_set tick_entry_of_def)
    with dist have "map_of (map (tick_entry_of l) ?w) k = Some v" by (metis map_of_is_SomeI)
    then show ?thesis using Some e by (simp add: ring_find_def ring_list_of)
  qed
qed

subsection \<open>Passes over the ring\<close>

fun scan_idle :: "('s \<Rightarrow> 'v \<Rightarrow> bool \<times> 's) \<Rightarrow> 's \<Rightarrow> ('k \<times> 'v) list \<Rightarrow> 'k option \<times> 's \<times> nat" where
  "scan_idle idle s [] = (None, s, 0)"
| "scan_idle idle s ((k, v) # es) =
     (case idle s v of
        (True, s') \<Rightarrow> (Some k, s', 1)
      | (False, s') \<Rightarrow> (case scan_idle idle s' es of (r, s'', n) \<Rightarrow> (r, s'', Suc n)))"

fun scan_visits ::
  "('s \<Rightarrow> 'k \<Rightarrow> 'v \<Rightarrow> visit \<times> 's) \<Rightarrow> 's \<Rightarrow> ('k \<times> 'v) list \<Rightarrow> 's \<times> nat \<times> 'k list" where
  "scan_visits visit s [] = (s, 0, [])"
| "scan_visits visit s ((k, v) # es) =
     (case visit s k v of
        (Visit_Stop, s') \<Rightarrow> (s', 0, [])
      | (Visit_Last, s') \<Rightarrow> (s', 1, [])
      | (Visit_Remove, s') \<Rightarrow> (case scan_visits visit s' es of (s'', n, ks) \<Rightarrow> (s'', Suc n, k # ks))
      | (Visit_Skip, s') \<Rightarrow> (case scan_visits visit s' es of (s'', n, ks) \<Rightarrow> (s'', Suc n, ks)))"

definition hand_at :: "(nat \<times> 'k) list \<Rightarrow> nat \<Rightarrow> ('k, 'v, 'g) tick_lru \<Rightarrow> ('k, 'v, 'g) tick_lru" where
  "hand_at cs n l = (if n = 0 then l else l\<lparr>tl_reclaim_after := fst (cs ! (n - 1))\<rparr>)"

lemma hand_at_Suc: "hand_at (c # cs) (Suc n) l = hand_at cs n (l\<lparr>tl_reclaim_after := fst c\<rparr>)"
  by (cases n) (simp_all add: hand_at_def)

lemma tick_entry_of_cursor [simp]: "tick_entry_of (l\<lparr>tl_reclaim_after := c\<rparr>) = tick_entry_of l"
  by (simp add: tick_entry_of_def fun_eq_iff)

lemma scan_idle_le: "snd (snd (scan_idle idle s es)) \<le> length es"
  by (induction idle s es rule: scan_idle.induct) (auto split: prod.splits bool.splits)

lemma scan_visits_le: "fst (snd (scan_visits visit s es)) \<le> length es"
  by (induction visit s es rule: scan_visits.induct) (auto split: prod.splits visit.splits)

lemma victim_scan_eq:
  assumes "\<forall>p \<in> set cs. hm_get (tl_pages l) (snd p) \<noteq> None"
  shows "victim_scan idle s cs l =
    (case scan_idle idle s (map (tick_entry_of l) cs) of (r, s', n) \<Rightarrow> Some (r, s', hand_at cs n l))"
  using assms
proof (induction idle s cs l rule: victim_scan.induct)
  case (2 idle s tick key cs l)
  obtain t v where v: "hm_get (tl_pages l) key = Some (t, v)" using "2.prems" by auto
  obtain d s' where d: "idle s v = (d, s')" by fastforce
  show ?case
  proof (cases d)
    case True
    with v d show ?thesis by (simp add: tick_entry_of_def hand_at_def)
  next
    case False
    with "2.IH" [OF v refl d [symmetric]] "2.prems" v d show ?thesis
      by (auto simp: tick_entry_of_def hand_at_Suc split: prod.split)
  qed
qed (simp add: hand_at_def)

lemma tick_remove_cursor:
  "snd (tick_remove grp k (l\<lparr>tl_reclaim_after := c\<rparr>)) = (snd (tick_remove grp k l))\<lparr>tl_reclaim_after := c\<rparr>"
  by (auto simp: tick_remove_def split: option.split)

lemma hand_at_remove: "hand_at cs n (snd (tick_remove grp k l)) = snd (tick_remove grp k (hand_at cs n l))"
  by (simp add: hand_at_def tick_remove_cursor)

abbreviation tick_remove_all ::
  "('k \<Rightarrow> 'g::linorder option) \<Rightarrow> 'k list \<Rightarrow> ('k, 'v, 'g) tick_lru \<Rightarrow> ('k, 'v, 'g) tick_lru" where
  "tick_remove_all grp ks l \<equiv> fold (\<lambda>k l. snd (tick_remove grp k l)) ks l"

lemma reclaim_scan_eq:
  assumes "\<forall>p \<in> set cs. hm_get (tl_pages l) (snd p) \<noteq> None" and "distinct (map snd cs)"
  shows "reclaim_scan grp visit s cs l =
    (case scan_visits visit s (map (tick_entry_of l) cs) of
       (s', n, ks) \<Rightarrow> Some (s', tick_remove_all grp ks (hand_at cs n l)))"
  using assms
proof (induction grp visit s cs l rule: reclaim_scan.induct)
  case (2 grp visit s tick key cs l)
  obtain t v where v: "hm_get (tl_pages l) key = Some (t, v)" using "2.prems" by auto
  obtain d s' where d: "visit s key v = (d, s')" by fastforce
  have entry: "tick_entry_of l (tick, key) = (key, v)" using v by (simp add: tick_entry_of_def)
  show ?case
  proof (cases d)
    case Visit_Remove
    let ?l = "snd (tick_remove grp key (l\<lparr>tl_reclaim_after := tick\<rparr>))"
    have other: "snd p \<noteq> key" if "p \<in> set cs" for p using "2.prems"(2) that by force
    then have same: "map (tick_entry_of ?l) cs = map (tick_entry_of l) cs" by (auto simp: tick_entry_of_def)
    have "\<forall>p \<in> set cs. hm_get (tl_pages ?l) (snd p) \<noteq> None" "distinct (map snd cs)"
      using "2.prems" other by simp_all
    from "2.IH"(2) [OF v refl d [symmetric] Visit_Remove this]
    have "reclaim_scan grp visit s' cs ?l =
        (case scan_visits visit s' (map (tick_entry_of l) cs) of
           (s', n, ks) \<Rightarrow> Some (s', tick_remove_all grp ks (hand_at cs n ?l)))"
      unfolding same .
    with v d Visit_Remove entry show ?thesis
      by (auto simp: hand_at_Suc hand_at_remove split: prod.split)
  next
    case Visit_Skip
    with "2.IH"(1) [OF v refl d [symmetric] Visit_Skip] "2.prems" v d entry show ?thesis
      by (auto simp: hand_at_Suc split: prod.split)
  qed (use v d entry in \<open>simp_all add: hand_at_def\<close>)
qed (simp add: hand_at_def)

lemma tick_candidates_entries:
  assumes "tick_ok grp l"
  shows "\<forall>p \<in> set (tick_candidates l). hm_get (tl_pages l) (snd p) \<noteq> None"
    and "distinct (map snd (tick_candidates l))"
    and "map (tick_entry_of l) (tick_candidates l) = take RECLAIM_WINDOW (ring_list (ring_of l))"
proof -
  have "set (tick_candidates l) \<subseteq> set (tl_lru l)"
    unfolding tick_candidates_def using set_take_subset wrap_set by fastforce
  then show "\<forall>p \<in> set (tick_candidates l). hm_get (tl_pages l) (snd p) \<noteq> None"
    using tick_listed [OF assms] by fastforce
  show "distinct (map snd (tick_candidates l))"
    unfolding tick_candidates_def take_map [symmetric] by (intro distinct_take wrap_keys_distinct [OF assms])
  show "map (tick_entry_of l) (tick_candidates l) = take RECLAIM_WINDOW (ring_list (ring_of l))"
    by (simp add: tick_candidates_def ring_list_of take_map)
qed

lemma hand_at_ok:
  assumes ok: "tick_ok grp l" and n: "n \<le> length (tick_candidates l)"
  shows "tick_ok grp (hand_at (tick_candidates l) n l)"
    and "ring_of (hand_at (tick_candidates l) n l) = ring_advance n (ring_of l)"
proof -
  let ?w = "wrap_after (tl_reclaim_after l) (tl_lru l)"
  have len: "length ?w = length (tl_lru l)"
    using bt_wrap_mset [of "tl_reclaim_after l" "tl_lru l"] unfolding wrap_after_def by (metis size_mset)
  have at: "tick_candidates l ! (n - 1) = ?w ! (n - 1)" if "0 < n"
    using n that unfolding tick_candidates_def by (intro nth_take) (auto simp: tick_candidates_def)
  show "tick_ok grp (hand_at (tick_candidates l) n l)"
  proof (cases "n = 0")
    case False
    then have "?w ! (n - 1) \<in> set ?w"
      using n by (intro nth_mem) (auto simp: tick_candidates_def)
    then have "?w ! (n - 1) \<in> set (tl_lru l)" by (simp add: wrap_set)
    with False ok at show ?thesis by (auto simp: hand_at_def tick_ok_def)
  qed (simp add: hand_at_def ok)
  show "ring_of (hand_at (tick_candidates l) n l) = ring_advance n (ring_of l)"
  proof (cases "n = 0")
    case False
    let ?c = "fst (?w ! (n - 1))"
    have "(bt_upto ?c (tl_lru l), bt_above ?c (tl_lru l)) =
        ring_advance n (bt_upto (tl_reclaim_after l) (tl_lru l), bt_above (tl_reclaim_after l) (tl_lru l))"
      using ok n False len by (intro wrap_advance) (auto simp: tick_ok_def tick_candidates_def)
    then show ?thesis
      using False at unfolding ring_of_def ring_advance_map by (simp add: hand_at_def prod_eq_iff)
  qed (simp add: hand_at_def)
qed

lemma tick_remove_all_ok:
  assumes "tick_ok grp l"
  shows "tick_ok grp (tick_remove_all grp ks l) \<and> ring_of (tick_remove_all grp ks l) = fold ring_drop ks (ring_of l) \<and>
    tl_clock (tick_remove_all grp ks l) = tl_clock l"
  using assms by (induction ks arbitrary: l) (simp_all add: ring_drop_of)

definition ring_victim ::
  "('s \<Rightarrow> 'v \<Rightarrow> bool \<times> 's) \<Rightarrow> 's \<Rightarrow> ('k \<times> 'v) list \<times> ('k \<times> 'v) list \<Rightarrow>
   'k option \<times> 's \<times> ('k \<times> 'v) list \<times> ('k \<times> 'v) list" where
  "ring_victim idle s r =
     (case scan_idle idle s (take RECLAIM_WINDOW (ring_list r)) of (k, s', n) \<Rightarrow> (k, s', ring_advance n r))"

definition ring_reclaim ::
  "('s \<Rightarrow> 'k \<Rightarrow> 'v \<Rightarrow> visit \<times> 's) \<Rightarrow> 's \<Rightarrow> ('k \<times> 'v) list \<times> ('k \<times> 'v) list \<Rightarrow>
   's \<times> ('k \<times> 'v) list \<times> ('k \<times> 'v) list" where
  "ring_reclaim visit s r =
     (case scan_visits visit s (take RECLAIM_WINDOW (ring_list r)) of
        (s', n, ks) \<Rightarrow> (s', fold ring_drop ks (ring_advance n r)))"

lemma hand_at_clock [simp]: "tl_clock (hand_at cs n l) = tl_clock l"
  by (simp add: hand_at_def)

lemma tick_victim_refines:
  assumes ok: "tick_ok grp l"
  obtains l' where "tick_victim idle s l = Some (fst (ring_victim idle s (ring_of l)),
      fst (snd (ring_victim idle s (ring_of l))), l')"
    and "tick_ok grp l'" and "ring_of l' = snd (snd (ring_victim idle s (ring_of l)))"
    and "tl_clock l' = tl_clock l"
proof -
  obtain k s' n where scan: "scan_idle idle s (take RECLAIM_WINDOW (ring_list (ring_of l))) = (k, s', n)"
    by (metis prod_cases3)
  have "n \<le> length (tick_candidates l)"
    using scan_idle_le [of idle s "map (tick_entry_of l) (tick_candidates l)"]
    unfolding tick_candidates_entries(3) [OF ok] scan by (simp flip: tick_candidates_entries(3) [OF ok])
  from hand_at_ok [OF ok this] that [of "hand_at (tick_candidates l) n l"] show ?thesis
    using victim_scan_eq [OF tick_candidates_entries(1) [OF ok], of idle s] scan
    by (simp add: tick_victim_def ring_victim_def tick_candidates_entries(3) [OF ok])
qed

lemma tick_reclaim_refines:
  assumes ok: "tick_ok grp l"
  obtains l' where "tick_reclaim grp visit s l = Some (fst (ring_reclaim visit s (ring_of l)), l')"
    and "tick_ok grp l'" and "ring_of l' = snd (ring_reclaim visit s (ring_of l))"
    and "tl_clock l' = tl_clock l"
proof -
  obtain s' n ks where scan: "scan_visits visit s (take RECLAIM_WINDOW (ring_list (ring_of l))) = (s', n, ks)"
    by (metis prod_cases3)
  have "n \<le> length (tick_candidates l)"
    using scan_visits_le [of visit s "map (tick_entry_of l) (tick_candidates l)"]
    unfolding tick_candidates_entries(3) [OF ok] scan by (simp flip: tick_candidates_entries(3) [OF ok])
  note hand = hand_at_ok [OF ok this]
  from tick_remove_all_ok [OF hand(1), of ks] hand(2) that show ?thesis
    using reclaim_scan_eq [OF tick_candidates_entries(1,2) [OF ok], of grp visit s] scan
    by (simp add: tick_reclaim_def ring_reclaim_def tick_candidates_entries(3) [OF ok])
qed

subsection \<open>Sequences of operations\<close>

datatype ('k, 'v, 's) lru_op =
    Lru_Insert 'k 'v
  | Lru_Touch 'k
  | Lru_Remove 'k
  | Lru_Victim "'s \<Rightarrow> 'v \<Rightarrow> bool \<times> 's" 's
  | Lru_Reclaim "'s \<Rightarrow> 'k \<Rightarrow> 'v \<Rightarrow> visit \<times> 's" 's

datatype ('k, 'v, 's) lru_reply =
    Rep_Done
  | Rep_Exhausted
  | Rep_Value "'v option"
  | Rep_Victim "'k option" 's
  | Rep_State 's

definition lru_reply_of :: "exhausted + unit \<Rightarrow> ('k, 'v, 's) lru_reply" where
  "lru_reply_of r = (case r of Inl _ \<Rightarrow> Rep_Exhausted | Inr _ \<Rightarrow> Rep_Done)"

fun lru_step ::
  "('k \<Rightarrow> 'g::linorder option) \<Rightarrow> ('k, 'v, 's) lru_op \<Rightarrow> ('k, 'v, 'g) tick_lru \<Rightarrow>
   (('k, 'v, 's) lru_reply \<times> ('k, 'v, 'g) tick_lru) option" where
  "lru_step grp (Lru_Insert k v) l = (case tick_insert grp k v l of (r, l') \<Rightarrow> Some (lru_reply_of r, l'))"
| "lru_step grp (Lru_Touch k) l = (case tick_touch grp k l of (r, l') \<Rightarrow> Some (lru_reply_of r, l'))"
| "lru_step grp (Lru_Remove k) l = (case tick_remove grp k l of (v, l') \<Rightarrow> Some (Rep_Value v, l'))"
| "lru_step grp (Lru_Victim idle s) l =
     (case tick_victim idle s l of None \<Rightarrow> None | Some (k, s', l') \<Rightarrow> Some (Rep_Victim k s', l'))"
| "lru_step grp (Lru_Reclaim visit s) l =
     (case tick_reclaim grp visit s l of None \<Rightarrow> None | Some (s', l') \<Rightarrow> Some (Rep_State s', l'))"

text \<open>The specification: a ring of entries. Adding a key that is present is outside the contract.\<close>

fun ring_step ::
  "('k, 'v, 's) lru_op \<Rightarrow> ('k \<times> 'v) list \<times> ('k \<times> 'v) list \<Rightarrow>
   (('k, 'v, 's) lru_reply \<times> ('k \<times> 'v) list \<times> ('k \<times> 'v) list) option" where
  "ring_step (Lru_Insert k v) r = (if ring_find k r = None then Some (Rep_Done, ring_add k v r) else None)"
| "ring_step (Lru_Touch k) r =
     Some (Rep_Done, case ring_find k r of None \<Rightarrow> r | Some v \<Rightarrow> ring_add k v (ring_drop k r))"
| "ring_step (Lru_Remove k) r = Some (Rep_Value (ring_find k r), ring_drop k r)"
| "ring_step (Lru_Victim idle s) r =
     (case ring_victim idle s r of (k, s', r') \<Rightarrow> Some (Rep_Victim k s', r'))"
| "ring_step (Lru_Reclaim visit s) r = (case ring_reclaim visit s r of (s', r') \<Rightarrow> Some (Rep_State s', r'))"

fun run_ops :: "('o \<Rightarrow> 'st \<Rightarrow> ('r \<times> 'st) option) \<Rightarrow> 'o list \<Rightarrow> 'st \<Rightarrow> ('r list \<times> 'st) option" where
  "run_ops step [] s = Some ([], s)"
| "run_ops step (x # xs) s =
     (case step x s of
        None \<Rightarrow> None
      | Some (r, s') \<Rightarrow> (case run_ops step xs s' of None \<Rightarrow> None | Some (rs, s'') \<Rightarrow> Some (r # rs, s'')))"

lemma lru_step_refines:
  assumes ok: "tick_ok grp l" and room: "tl_clock l < u64_max"
    and spec: "ring_step op (ring_of l) = Some (r, s)"
  obtains l' where "lru_step grp op l = Some (r, l')" and "tick_ok grp l'" and "ring_of l' = s"
    and "tl_clock l' \<le> tl_clock l + 1"
proof (cases op)
  case (Lru_Insert k v)
  then have "hm_get (tl_pages l) k = None" and s: "r = Rep_Done" "s = ring_add k v (ring_of l)"
    using spec ring_find_of [OF ok, of k] by (auto split: if_splits)
  with that [of "snd (tick_insert grp k v l)"] show ?thesis
    using Lru_Insert room tick_insert_ok [OF ok _ room] ring_add_of [OF ok _ room, of k v]
    by (simp add: tick_insert_eq lru_reply_of_def)
next
  case (Lru_Touch k)
  show ?thesis
  proof (cases "hm_get (tl_pages l) k")
    case None
    with that [of l] Lru_Touch ok spec ring_find_of [OF ok, of k] show ?thesis
      by (simp add: tick_touch_def lru_reply_of_def)
  next
    case (Some e)
    obtain t v where e: "e = (t, v)" by fastforce
    let ?l = "snd (tick_insert grp k v (snd (tick_remove grp k l)))"
    have same: "hm_get (hm_update k (\<lambda>e. (tl_clock l + 1, snd e)) (tl_pages l)) = hm_get (tl_pages ?l)"
      using room Some e by (auto simp: tick_insert_eq fun_eq_iff)
    have "ring_of ?l = ring_add k v (ring_drop k (ring_of l))"
      using ring_add_of [of grp "snd (tick_remove grp k l)" k v] ok room by (simp add: ring_drop_of)
    then have "ring_of (snd (tick_touch grp k l)) = s"
      using tick_touch_eq [OF room Some [unfolded e], of grp] ring_pages [OF same] spec Lru_Touch Some e
        ring_find_of [OF ok, of k] by simp
    with that [of "snd (tick_touch grp k l)"] tick_touch_ok [OF ok room, of k] show ?thesis
      using tick_touch_eq [OF room Some [unfolded e], of grp] Lru_Touch spec room
      by (simp add: lru_reply_of_def tick_insert_eq)
  qed
next
  case (Lru_Remove k)
  have "fst (tick_remove grp k l) = map_option snd (hm_get (tl_pages l) k)"
    by (auto simp: tick_remove_def split: option.split)
  with that [of "snd (tick_remove grp k l)"] Lru_Remove ok spec show ?thesis
    by (auto simp: ring_drop_of ring_find_of case_prod_unfold)
next
  case (Lru_Victim idle st)
  obtain l' where "tick_victim idle st l = Some (fst (ring_victim idle st (ring_of l)),
      fst (snd (ring_victim idle st (ring_of l))), l')" "tick_ok grp l'"
    "ring_of l' = snd (snd (ring_victim idle st (ring_of l)))" "tl_clock l' = tl_clock l"
    by (rule tick_victim_refines [OF ok, of idle st])
  with that [of l'] Lru_Victim spec show ?thesis by (auto split: prod.splits)
next
  case (Lru_Reclaim visit st)
  obtain l' where "tick_reclaim grp visit st l = Some (fst (ring_reclaim visit st (ring_of l)), l')"
    "tick_ok grp l'" "ring_of l' = snd (ring_reclaim visit st (ring_of l))" "tl_clock l' = tl_clock l"
    by (rule tick_reclaim_refines [OF ok, of visit st])
  with that [of l'] Lru_Reclaim spec show ?thesis by (auto split: prod.splits)
qed

lemma lru_run_refines:
  assumes "tick_ok grp l" and "tl_clock l + length ops \<le> u64_max"
    and "run_ops ring_step ops (ring_of l) = Some (rs, s)"
  shows "\<exists>l'. run_ops (lru_step grp) ops l = Some (rs, l') \<and> tick_ok grp l' \<and> ring_of l' = s"
  using assms
proof (induction ops arbitrary: l rs)
  case (Cons op ops)
  obtain r s1 rs' where step: "ring_step op (ring_of l) = Some (r, s1)"
    and rest: "run_ops ring_step ops s1 = Some (rs', s)" "rs = r # rs'"
    using Cons.prems(3) by (auto split: option.splits)
  have "tl_clock l < u64_max" using Cons.prems(2) by simp
  from lru_step_refines [OF Cons.prems(1) this step] obtain l1 where
    l1: "lru_step grp op l = Some (r, l1)" "tick_ok grp l1" "ring_of l1 = s1" "tl_clock l1 \<le> tl_clock l + 1"
    by blast
  with Cons.IH [of l1 rs'] Cons.prems(2) rest show ?case by auto
qed auto

subsection \<open>The cursors of the cache\<close>

definition cursor_order :: "'k::linorder option \<Rightarrow> ('k, 'v) bmap \<Rightarrow> ('k, 'v) bmap" where
  "cursor_order cursor m = (case cursor of None \<Rightarrow> m | Some c \<Rightarrow> wrap_after c m)"

lemma length_cursor_order [simp]: "length (cursor_order cursor m) = length m"
proof (cases cursor)
  case (Some c)
  with arg_cong [OF bt_wrap_mset [of c m], of size] show ?thesis by (simp add: cursor_order_def wrap_after_def)
qed (simp add: cursor_order_def)

lemma set_cursor_order [simp]: "set (cursor_order cursor m) = set m"
  by (simp add: cursor_order_def wrap_set split: option.split)

lemma cursor_order_next:
  assumes ok: "bt_ok m" and n: "0 < n" "n \<le> length m"
  shows "cursor_order (Some (fst (cursor_order cursor m ! (n - 1)))) m = rotate n (cursor_order cursor m)"
proof (cases cursor)
  case None
  have "m = take n m @ drop n m" "take n m \<noteq> []" "fst (m ! (n - 1)) = fst (last (take n m))"
    using n by (auto simp: last_take_nth)
  with bt_cut [of "take n m" "drop n m"] ok have "wrap_after (fst (m ! (n - 1))) m = drop n m @ take n m"
    by (simp add: wrap_after_def)
  also have "\<dots> = rotate n m"
    using n by (cases "n = length m") (auto simp: rotate_drop_take)
  finally show ?thesis using None by (simp add: cursor_order_def)
next
  case (Some c)
  let ?c = "fst (wrap_after c m ! (n - 1))"
  have "wrap_after ?c m = ring_list (bt_upto ?c m, bt_above ?c m)" by (simp add: wrap_after_def ring_list_def)
  also have "\<dots> = ring_list (ring_advance n (bt_upto c m, bt_above c m))" using wrap_advance [OF ok n refl] by simp
  also have "\<dots> = rotate n (wrap_after c m)"
    using n length_cursor_order [of "Some c" m] by (subst ring_list_advance) (simp_all add: ring_list_def wrap_after_def cursor_order_def)
  finally show ?thesis using Some by (simp add: cursor_order_def)
qed

text \<open>One pass of a map cursor: to the last of the first \<open>window\<close> keys.\<close>

definition cursor_pass :: "nat \<Rightarrow> ('k::linorder, 'v) bmap \<times> 'k option \<Rightarrow> ('k, 'v) bmap \<times> 'k option" where
  "cursor_pass window s =
     (let keys = take window (map fst (cursor_order (snd s) (fst s)))
      in (fst s, if keys = [] then snd s else Some (last keys)))"

lemma cursor_pass_order:
  fixes m :: "('a::linorder, 'b) bmap"
  assumes "bt_ok m" and "0 < window"
  shows "cursor_order (snd (cursor_pass window (m, c))) m = rotate (min window (length m)) (cursor_order c m)"
proof (cases "m = []")
  case False
  define n xs where "n = min window (length m)" and "xs = cursor_order c m"
  have n: "0 < n" "n \<le> length m" using False assms(2) by (auto simp: n_def)
  have len: "length xs = length m" by (simp add: xs_def)
  have keys: "take window (map fst xs) = map fst (take n xs)"
    using len by (cases "window \<le> length m") (simp_all add: n_def take_map)
  have "take n xs \<noteq> []" using n len by auto
  moreover have "last (take n xs) = xs ! (n - 1)" using n len by (intro last_take_nth) simp_all
  ultimately have "last (map fst (take n xs)) = fst (xs ! (n - 1))" "map fst (take n xs) \<noteq> []"
    by (simp_all add: last_map)
  then have "snd (cursor_pass window (m, c)) = Some (fst (xs ! (n - 1)))"
    unfolding cursor_pass_def Let_def fst_conv snd_conv xs_def [symmetric] keys by simp
  with cursor_order_next [OF assms(1) n] show ?thesis by (simp add: xs_def n_def)
next
  case True
  have "cursor_order x ([] :: ('a, 'b) bmap) = []" for x
    by (cases x) (simp_all add: cursor_order_def wrap_after_def bt_above_def bt_upto_def)
  with True show ?thesis by simp
qed

interpretation lane_window: cursor_scan
  "\<lambda>s. bt_ok (fst s)" "\<lambda>s. map fst (cursor_order (snd s) (fst s))" "cursor_pass PRESSURE_WINDOW" PRESSURE_WINDOW
proof
  fix s :: "('a::linorder, 'b) bmap \<times> 'a option"
  assume "bt_ok (fst s)"
  then show "bt_ok (fst (cursor_pass PRESSURE_WINDOW s))"
    and "map fst (cursor_order (snd (cursor_pass PRESSURE_WINDOW s)) (fst (cursor_pass PRESSURE_WINDOW s))) =
      rotate (min PRESSURE_WINDOW (length (map fst (cursor_order (snd s) (fst s)))))
        (map fst (cursor_order (snd s) (fst s)))"
    using cursor_pass_order [of "fst s" PRESSURE_WINDOW "snd s"]
    by (simp_all add: cursor_pass_def Let_def PRESSURE_WINDOW_def rotate_map)
qed (simp add: PRESSURE_WINDOW_def)

lemma lanes_window_order: "lanes_window m cursor = take PRESSURE_WINDOW (map fst (cursor_order cursor m))"
  by (simp add: lanes_window_def cursor_order_def)

text \<open>A reclamation pass of \<open>TickLru\<close> that finds every candidate busy.\<close>

definition busy_pass :: "('k, 'v, 'g) tick_lru \<Rightarrow> ('k, 'v, 'g) tick_lru" where
  "busy_pass l = (case tick_victim (\<lambda>s _. (False, s)) (0 :: nat) l of None \<Rightarrow> l | Some (_, _, l') \<Rightarrow> l')"

lemma scan_idle_busy: "scan_idle (\<lambda>s _. (False, s)) s es = (None, s, length es)"
  by (induction es) auto

lemma busy_pass_ring:
  assumes "tick_ok grp l"
  shows "tick_ok grp (busy_pass l) \<and>
    ring_of (busy_pass l) = ring_advance (min RECLAIM_WINDOW (length (ring_list (ring_of l)))) (ring_of l)"
proof -
  obtain l' where "tick_victim (\<lambda>s _. (False, s)) (0 :: nat) l = Some (fst (ring_victim (\<lambda>s _. (False, s)) (0 :: nat) (ring_of l)),
      fst (snd (ring_victim (\<lambda>s _. (False, s)) (0 :: nat) (ring_of l))), l')" "tick_ok grp l'"
    "ring_of l' = snd (snd (ring_victim (\<lambda>s _. (False, s)) (0 :: nat) (ring_of l)))"
    by (rule tick_victim_refines [OF assms, of "\<lambda>s _. (False, s)" "0 :: nat"])
  then show ?thesis by (simp add: busy_pass_def ring_victim_def scan_idle_busy min.commute)
qed

interpretation tick_window: cursor_scan
  "\<lambda>l. \<exists>grp. tick_ok grp l" "\<lambda>l. ring_list (ring_of l)" busy_pass RECLAIM_WINDOW
proof
  fix l :: "('k, 'v, 'g::linorder) tick_lru"
  assume "\<exists>grp. tick_ok grp l"
  then obtain grp where "tick_ok grp l" by blast
  from busy_pass_ring [OF this]
  show "\<exists>grp. tick_ok grp (busy_pass l)"
    and "ring_list (ring_of (busy_pass l)) =
      rotate (min RECLAIM_WINDOW (length (ring_list (ring_of l)))) (ring_list (ring_of l))"
    by (auto simp: ring_list_advance)
qed (simp add: RECLAIM_WINDOW_def)

lemma busy_pass_keys: "map fst (take RECLAIM_WINDOW (ring_list (ring_of l))) = map snd (tick_candidates l)"
  by (simp add: tick_candidates_def ring_list_of take_map tick_entry_of_def comp_def)

lemma tick_size:
  assumes ok: "tick_ok grp l"
  shows "length (ring_list (ring_of l)) = tick_len l" and "fst ` set (ring_list (ring_of l)) = dom (hm_get (tl_pages l))"
proof -
  have dom: "dom (hm_get (tl_pages l)) = snd ` set (tl_lru l)"
    using tick_listed [OF ok] tick_entry(2) [OF ok] by (force simp: image_iff)
  then show "fst ` set (ring_list (ring_of l)) = dom (hm_get (tl_pages l))"
    by (auto simp: ring_list_of wrap_set tick_entry_of_def image_image)
  have "tick_len l = card (dom (hm_get (tl_pages l)))"
    using ok by (simp add: tick_len_def hm.count_card tick_ok_def)
  also have "\<dots> = length (map snd (tl_lru l))"
    unfolding dom using distinct_card [OF tick_keys_distinct [OF ok]] by simp
  finally show "length (ring_list (ring_of l)) = tick_len l"
    using length_cursor_order [of "Some (tl_reclaim_after l)" "tl_lru l"]
    by (simp add: ring_list_of cursor_order_def)
qed

subsection \<open>The invariant of \<open>OrderedLru\<close>\<close>

definition ordered_ok :: "('k::linorder \<Rightarrow> 'g::linorder option) \<Rightarrow> ('k, 'v, 'g) ordered_lru \<Rightarrow> bool" where
  "ordered_ok grp l \<longleftrightarrow>
     bt_ok (ol_pages l) \<and> hm_ok (ol_ticks l) \<and> bt_ok (ol_order l) \<and>
     (\<forall>k. hm_get (ol_ticks l) k = None \<longleftrightarrow> bt_get (ol_pages l) k = None) \<and>
     (\<forall>k t. bt_get (ol_order l) t = Some k \<longleftrightarrow> hm_get (ol_ticks l) k = Some t) \<and>
     (\<forall>p \<in> set (ol_order l). 0 < fst p \<and> fst p \<le> ol_clock l) \<and> ol_clock l \<le> u64_max \<and>
     lanes_list grp (ol_order l) (ol_lanes l)"

lemma ordered_ok_default [simp]: "ordered_ok grp ordered_default"
  by (simp add: ordered_ok_def ordered_default_def lanes_list_def)

lemma ordered_index: "ordered_ok grp l \<Longrightarrow> bt_get (ol_order l) t = Some k \<longleftrightarrow> hm_get (ol_ticks l) k = Some t"
  by (simp add: ordered_ok_def)

lemma ordered_listed:
  assumes "ordered_ok grp l" and "p \<in> set (ol_order l)"
  shows "hm_get (ol_ticks l) (snd p) = Some (fst p)" and "bt_get (ol_pages l) (snd p) \<noteq> None"
proof -
  have "bt_ok (ol_order l)" using assms(1) by (simp add: ordered_ok_def)
  then have "bt_get (ol_order l) (fst p) = Some (snd p)" using assms(2) by (simp add: bt_get_Some_iff)
  then show tick: "hm_get (ol_ticks l) (snd p) = Some (fst p)" using ordered_index [OF assms(1)] by blast
  have "hm_get (ol_ticks l) (snd p) = None \<longleftrightarrow> bt_get (ol_pages l) (snd p) = None"
    using assms(1) by (simp add: ordered_ok_def)
  with tick show "bt_get (ol_pages l) (snd p) \<noteq> None" by auto
qed

lemma ordered_tick_bound:
  assumes "ordered_ok grp l" and "hm_get (ol_ticks l) k = Some t"
  shows "0 < t" and "t \<le> ol_clock l"
proof -
  have "bt_ok (ol_order l)" using assms(1) by (simp add: ordered_ok_def)
  moreover have "bt_get (ol_order l) t = Some k" using assms ordered_index by blast
  ultimately have "(t, k) \<in> set (ol_order l)" by (simp add: bt_get_Some_iff)
  with assms(1) show "0 < t" "t \<le> ol_clock l" by (auto simp: ordered_ok_def)
qed

text \<open>Dropping the tick of a key, the part that touching and removing share.\<close>

definition ordered_untick :: "('k::linorder \<Rightarrow> 'g::linorder option) \<Rightarrow> 'k \<Rightarrow> ('k, 'v, 'g) ordered_lru \<Rightarrow> ('k, 'v, 'g) ordered_lru" where
  "ordered_untick grp k l =
     (case hm_get (ol_ticks l) k of
        None \<Rightarrow> l
      | Some t \<Rightarrow> l\<lparr>ol_ticks := hm_remove k (ol_ticks l), ol_order := bt_remove t (ol_order l),
                    ol_lanes := lanes_remove (grp k) t (ol_lanes l)\<rparr>)"

lemma ordered_untick_ok:
  assumes ok: "ordered_ok grp l"
  shows "hm_ok (ol_ticks (ordered_untick grp k l)) \<and> bt_ok (ol_order (ordered_untick grp k l)) \<and>
    hm_get (ol_ticks (ordered_untick grp k l)) = (hm_get (ol_ticks l))(k := None) \<and>
    (\<forall>k' t. bt_get (ol_order (ordered_untick grp k l)) t = Some k' \<longleftrightarrow>
       hm_get (ol_ticks (ordered_untick grp k l)) k' = Some t) \<and>
    set (ol_order (ordered_untick grp k l)) \<subseteq> set (ol_order l) \<and>
    lanes_list grp (ol_order (ordered_untick grp k l)) (ol_lanes (ordered_untick grp k l)) \<and>
    ol_pages (ordered_untick grp k l) = ol_pages l \<and> ol_clock (ordered_untick grp k l) = ol_clock l"
proof (cases "hm_get (ol_ticks l) k")
  case None
  then have same: "ordered_untick grp k l = l" by (simp add: ordered_untick_def)
  have "(hm_get (ol_ticks l))(k := None) = hm_get (ol_ticks l)" using None by (simp add: fun_upd_idem)
  with ok show ?thesis unfolding same by (simp add: ordered_ok_def)
next
  case (Some t)
  have at: "bt_get (ol_order l) t = Some k" using ordered_index [OF ok] Some by blast
  have "bt_get (bt_remove t (ol_order l)) t' = Some k' \<longleftrightarrow> hm_get (hm_remove k (ol_ticks l)) k' = Some t'" for k' t'
    using ordered_index [OF ok, of t' k'] at Some by (cases "k' = k"; cases "t' = t") auto
  moreover have "lanes_list grp (bt_remove t (ol_order l)) (lanes_remove (grp k) t (ol_lanes l))"
    using ok at by (intro lanes_list_remove) (simp_all add: ordered_ok_def)
  moreover have "ordered_untick grp k l = l\<lparr>ol_ticks := hm_remove k (ol_ticks l),
      ol_order := bt_remove t (ol_order l), ol_lanes := lanes_remove (grp k) t (ol_lanes l)\<rparr>"
    using Some by (simp add: ordered_untick_def)
  ultimately show ?thesis
    using ok by (simp add: ordered_ok_def set_bt_remove del: hm_get_remove bt_get_remove) auto
qed

lemma ordered_touch_eq:
  assumes "ol_clock l < u64_max" and "bt_get (ol_pages l) k \<noteq> None"
  shows "ordered_touch grp k l = (ordered_untick grp k l)\<lparr>ol_clock := ol_clock l + 1,
    ol_ticks := hm_insert k (ol_clock l + 1) (ol_ticks l),
    ol_order := bt_insert (ol_clock l + 1) k (ol_order (ordered_untick grp k l)),
    ol_lanes := lanes_insert (grp k) (ol_clock l + 1) k (ol_lanes (ordered_untick grp k l))\<rparr>"
proof -
  have "sat_add u64_max (ol_clock l) 1 = ol_clock l + 1" using assms(1) by (simp add: sat_add_def)
  then show ?thesis
    unfolding ordered_touch_def if_not_P [OF assms(2)] ordered_untick_def Let_def
    by (cases "hm_get (ol_ticks l) k") simp_all
qed

text \<open>The pages may be set first: \<open>insert\<close> writes the page and then touches it.\<close>

lemma ordered_touch_ok:
  assumes ok: "ordered_ok grp (l\<lparr>ol_pages := m\<rparr>)" and m': "bt_ok m'" and room: "ol_clock l < u64_max"
    and dom: "\<And>x. bt_get m' x = None \<longleftrightarrow> bt_get m x = None \<and> x \<noteq> k"
  shows "ordered_ok grp (ordered_touch grp k (l\<lparr>ol_pages := m'\<rparr>))"
proof -
  let ?u = "ordered_untick grp k (l\<lparr>ol_pages := m\<rparr>)" and ?c = "ol_clock l + 1"
  note u = ordered_untick_ok [OF ok, of k]
  have same: "ordered_untick grp k (l\<lparr>ol_pages := m'\<rparr>) = ?u\<lparr>ol_pages := m'\<rparr>"
    by (cases "hm_get (ol_ticks l) k") (simp_all add: ordered_untick_def)
  have le: "\<forall>p \<in> set (ol_order l). 0 < fst p \<and> fst p \<le> ol_clock l" using ok by (simp add: ordered_ok_def)
  then have max: "\<forall>p \<in> set (ol_order ?u). fst p < ?c" using u by fastforce
  then have fresh: "bt_get (ol_order ?u) ?c = None" by (auto simp: bt_get_None_iff)
  have "bt_get (bt_insert ?c k (ol_order ?u)) t = Some k' \<longleftrightarrow> hm_get (hm_insert k ?c (ol_ticks l)) k' = Some t" for k' t
  proof -
    have "bt_get (ol_order ?u) t = Some k' \<longleftrightarrow> k' \<noteq> k \<and> hm_get (ol_ticks l) k' = Some t" using u by simp
    with fresh show ?thesis by (cases "k' = k"; cases "t = ?c") auto
  qed
  moreover have "lanes_list grp (bt_insert ?c k (ol_order ?u)) (lanes_insert (grp k) ?c k (ol_lanes ?u))"
    using u max by (intro lanes_list_insert) simp_all
  moreover have "hm_get (hm_insert k ?c (ol_ticks l)) x = None \<longleftrightarrow> bt_get m' x = None" for x
    using ok dom [of x] by (simp add: ordered_ok_def)
  moreover have "\<forall>p \<in> set (bt_insert ?c k (ol_order ?u)). 0 < fst p \<and> fst p \<le> ?c"
    using u le max by (fastforce simp: set_bt_insert)
  moreover have "bt_get m' k \<noteq> None" using dom by blast
  ultimately show ?thesis
    using u room m' ok
    by (simp add: ordered_touch_eq same ordered_ok_def del: bt_get_insert hm_get_insert not_None_eq)
qed

lemma ordered_insert_ok:
  assumes "ordered_ok grp l" and "ol_clock l < u64_max"
  shows "ordered_ok grp (ordered_insert grp k v l)"
  unfolding ordered_insert_def
  using assms by (intro ordered_touch_ok [where m = "ol_pages l"]) (simp_all add: ordered_ok_def)

lemma ordered_touch_ok':
  assumes "ordered_ok grp l" and "ol_clock l < u64_max"
  shows "ordered_ok grp (ordered_touch grp k l)"
proof (cases "bt_get (ol_pages l) k")
  case None
  then show ?thesis using assms(1) by (simp add: ordered_touch_def)
next
  case (Some v)
  then have "ordered_ok grp (ordered_touch grp k (l\<lparr>ol_pages := ol_pages l\<rparr>))"
    using assms by (intro ordered_touch_ok [where m = "ol_pages l"]) (auto simp: ordered_ok_def)
  then show ?thesis by simp
qed

lemma ordered_remove_eq:
  "snd (ordered_remove grp k l) =
     (if bt_get (ol_pages l) k = None then l else (ordered_untick grp k l)\<lparr>ol_pages := bt_remove k (ol_pages l)\<rparr>)"
  by (auto simp: ordered_remove_def ordered_untick_def Let_def split: option.split)

lemma ordered_remove_ok [simp]:
  assumes "ordered_ok grp l"
  shows "ordered_ok grp (snd (ordered_remove grp k l))"
proof (cases "bt_get (ol_pages l) k = None")
  case False
  have "(hm_get (ol_ticks l) x = None) = (bt_get (ol_pages l) x = None)" for x
    using assms by (simp add: ordered_ok_def)
  moreover have "\<forall>p \<in> set (ol_order (ordered_untick grp k l)). 0 < fst p \<and> fst p \<le> ol_clock l"
    using assms ordered_untick_ok [OF assms, of k] by (auto simp: ordered_ok_def)
  ultimately show ?thesis
    using False ordered_untick_ok [OF assms, of k] assms by (simp add: ordered_remove_eq ordered_ok_def)
qed (simp add: ordered_remove_eq assms)

lemma ordered_remove_pages [simp]: "bt_get (ol_pages (snd (ordered_remove grp k l))) = (bt_get (ol_pages l))(k := None)"
  by (auto simp: ordered_remove_eq fun_eq_iff ordered_untick_def split: option.split)

lemma ordered_remove_clock [simp]: "ol_clock (snd (ordered_remove grp k l)) = ol_clock l"
  by (auto simp: ordered_remove_eq ordered_untick_def split: option.split)

lemma ordered_remove_ticks:
  "ordered_ok grp l \<Longrightarrow> hm_get (ol_ticks (snd (ordered_remove grp k l))) = (hm_get (ol_ticks l))(k := None)"
  using ordered_untick_ok [of grp l k] by (auto simp: ordered_remove_eq ordered_ok_def fun_eq_iff)

text \<open>
  At the last tick the index does drift, although the source expects saturation to keep it consistent:
  a second touch takes over the tick of the first one, whose entry is no longer listed and never expires.
\<close>

lemma saturated_touch_drifts:
  assumes "ordered_ok grp l" and clock: "ol_clock l = u64_max"
    and pages: "bt_get (ol_pages l) i \<noteq> None" "bt_get (ol_pages l) j \<noteq> None" "i \<noteq> j"
  defines "l' \<equiv> ordered_touch grp j (ordered_touch grp i l)"
  shows "bt_get (ol_pages l') i \<noteq> None \<and> hm_get (ol_ticks l') i = Some u64_max \<and>
    (\<forall>t. bt_get (ol_order l') t \<noteq> Some i)"
proof -
  have sat: "sat_add u64_max u64_max 1 = u64_max" by (simp add: sat_add_def)
  have touch: "ol_pages (ordered_touch grp k x) = ol_pages x \<and> ol_clock (ordered_touch grp k x) = u64_max \<and>
      hm_get (ol_ticks (ordered_touch grp k x)) = (hm_get (ol_ticks x))(k \<mapsto> u64_max) \<and>
      bt_get (ol_order (ordered_touch grp k x)) =
        (case hm_get (ol_ticks x) k of None \<Rightarrow> bt_get (ol_order x) | Some t \<Rightarrow> (bt_get (ol_order x))(t := None))
          (u64_max \<mapsto> k)"
    if "ol_clock x = u64_max" "bt_get (ol_pages x) k \<noteq> None" for k x
    unfolding ordered_touch_def if_not_P [OF that(2)] that(1) Let_def sat
    by (simp split: option.split)
  note one = touch [OF clock pages(1)]
  have listed: "bt_get (ol_order l) t = Some i \<longleftrightarrow> hm_get (ol_ticks l) i = Some t" for t
    using assms(1) by (rule ordered_index)
  show ?thesis
    unfolding l'_def using one touch [of "ordered_touch grp i l" j] pages listed
    by (auto split: option.splits if_splits)
qed

subsection \<open>Values of disk segments\<close>

text \<open>
  A class score fits its byte, a page within its share outvalues every page over it, and no page is worth
  more than a page that was not seen yet.
\<close>

lemma class_score_bounds:
  assumes "score \<le> MAX_SCORE" and "score' \<le> MAX_SCORE"
  shows "class_score score any_over over \<le> MAX_PAGE_VALUE" and "MAX_PAGE_VALUE \<le> 255"
    and "class_score score' True True < class_score score True False"
  using assms by (auto simp: class_score_def MAX_PAGE_VALUE_def MAX_SCORE_def)

lemma page_value_unseen:
  assumes "score \<le> MAX_SCORE" and "\<forall>b. bytes = Some b \<longrightarrow> b \<le> page_bytes" and "page_bytes * MAX_PAGE_VALUE \<le> u64_max"
  shows "page_value bytes page_bytes (class_score score any_over over) \<le> unseen_value_for page_bytes any_over"
proof -
  have "class_score score any_over over \<le> (if any_over then MAX_PAGE_VALUE else MAX_SCORE)"
    using assms(1) by (auto simp: class_score_def MAX_PAGE_VALUE_def)
  moreover have "(case bytes of None \<Rightarrow> page_bytes | Some b \<Rightarrow> b) \<le> page_bytes" using assms(2) by (cases bytes) auto
  ultimately have "page_value bytes page_bytes (class_score score any_over over) \<le>
      page_bytes * (if any_over then MAX_PAGE_VALUE else MAX_SCORE)"
    unfolding page_value_def by (rule mult_le_mono [rotated])
  moreover have "page_bytes * (if any_over then MAX_PAGE_VALUE else MAX_SCORE) \<le> u64_max"
    using assms(3) by (auto simp: MAX_PAGE_VALUE_def MAX_SCORE_def)
  ultimately show ?thesis by (simp add: unseen_value_for_def sat_mul_def)
qed

subsection \<open>Theorems\<close>

text \<open>C11: The index of verified pages is a least-recently-used ring with a hand: every sequence of insertions,
  touches, removals, victim searches and reclamation passes gives the replies the ring gives and ends in
  the ring's state, no lookup of a listed page can fail, and the lanes list exactly the entries of each
  lane in tick order. (For keys inserted only while absent, and fewer than 2^64 operations.)\<close>

theorem tick_lru_refines_ring:
  assumes "run_ops ring_step ops ([], []) = Some (rs, s)" and "length ops \<le> u64_max"
  shows "\<exists>l. run_ops (lru_step grp) ops tick_default = Some (rs, l) \<and> ring_of l = s \<and>
    (\<forall>g. lane_entries (tl_lanes l) g = filter (\<lambda>p. grp (snd p) = Some g) (tl_lru l))"
proof -
  have start: "ring_of (tick_default :: ('a, 'b, 'd) tick_lru) = ([], [])"
    by (simp add: ring_of_def tick_default_def bt_upto_def bt_above_def)
  have "run_ops ring_step ops (ring_of (tick_default :: ('a, 'b, 'd) tick_lru)) = Some (rs, s)"
    using assms(1) start by simp
  with lru_run_refines [OF tick_ok_default, of ops rs s grp] assms(2)
  obtain l where "run_ops (lru_step grp) ops tick_default = Some (rs, l)" "tick_ok grp l" "ring_of l = s"
    by (auto simp: tick_default_def)
  then show ?thesis by (auto simp: tick_ok_def lanes_list_def)
qed

theorem tick_lru_refines_ring_witness:
  "\<exists>l. run_ops (lru_step (\<lambda>k. Some (k mod 2 :: nat)))
      [Lru_Insert 1 10, Lru_Insert 2 (20 :: nat), Lru_Insert 3 30, Lru_Touch (1 :: nat),
       Lru_Victim (\<lambda>n v. (v = 30, n + 1)) (0 :: nat), Lru_Remove 2] tick_default =
      Some ([Rep_Done, Rep_Done, Rep_Done, Rep_Done, Rep_Victim (Some 3) 2, Rep_Value (Some 20)], l) \<and>
    ring_of l = ([(3, 30)], [(1, 10)])"
proof -
  have "run_ops ring_step
      [Lru_Insert 1 10, Lru_Insert 2 (20 :: nat), Lru_Insert 3 30, Lru_Touch (1 :: nat),
       Lru_Victim (\<lambda>n v. (v = 30, n + 1)) (0 :: nat), Lru_Remove 2] ([], []) =
      Some ([Rep_Done, Rep_Done, Rep_Done, Rep_Done, Rep_Victim (Some 3) 2, Rep_Value (Some 20)],
        ([(3, 30)], [(1, 10)]))"
    by code_simp
  from tick_lru_refines_ring [OF this, of "\<lambda>k. Some (k mod 2)"] show ?thesis by auto
qed

text \<open>C12: Bounded passes reach everything: however the hand stands, as many passes over busy pages as 256
  pages go into the index examine every page, and as many pressure windows as 8 lanes go into the lanes
  examine every lane.\<close>

theorem cache_scans_cover:
  assumes "tick_ok grp l" and "bt_ok (lanes :: ('h::linorder, 'j) lanes)"
  shows "(\<Union>i < div_ceil (tick_len l) RECLAIM_WINDOW. set (map snd (tick_candidates ((busy_pass ^^ i) l)))) =
      dom (hm_get (tl_pages l)) \<and>
    (\<Union>i < div_ceil (length lanes) PRESSURE_WINDOW.
       set (lanes_window lanes (snd ((cursor_pass PRESSURE_WINDOW ^^ i) (lanes, cursor))))) = set (map fst lanes)"
proof -
  have l: "\<exists>grp. tick_ok grp l" using assms(1) by blast
  have keys: "set (map snd (tick_candidates l')) = fst ` set (take RECLAIM_WINDOW (ring_list (ring_of l')))"
    for l' :: "('a, 'c, 'b) tick_lru"
    unfolding busy_pass_keys [symmetric] by simp
  have "(\<Union>i < div_ceil (tick_len l) RECLAIM_WINDOW. set (map snd (tick_candidates ((busy_pass ^^ i) l)))) =
      fst ` set (ring_list (ring_of l))"
    unfolding keys image_UN [symmetric] tick_size(1) [OF assms(1), symmetric]
    using tick_window.passes_cover [OF l] by simp
  moreover have fixed: "fst ((cursor_pass PRESSURE_WINDOW ^^ i) (lanes, cursor)) = lanes" for i
    by (induction i) (simp_all add: cursor_pass_def Let_def)
  have "(\<Union>i < div_ceil (length lanes) PRESSURE_WINDOW.
      set (lanes_window lanes (snd ((cursor_pass PRESSURE_WINDOW ^^ i) (lanes, cursor))))) = set (map fst lanes)"
    using lane_window.passes_cover [of "(lanes, cursor)"] assms(2) by (simp add: lanes_window_order fixed)
  ultimately show ?thesis using tick_size(2) [OF assms(1)] by simp
qed

text \<open>One page in one lane, examined by the first pass.\<close>

definition one_page :: "(nat, nat, nat) tick_lru" where
  "one_page = snd (tick_insert (\<lambda>k. Some (k mod 2)) 5 50 tick_default)"

lemma one_page_eq:
  "one_page = \<lparr>tl_pages = [(5, (1, 50))], tl_lru = [(1, 5)], tl_clock = 1, tl_reclaim_after = 0,
     tl_lanes = [(1, \<lparr>ln_order = [(1, 5)], ln_after = 0\<rparr>)]\<rparr>"
  by (simp add: one_page_def tick_insert_eq tick_default_def lanes_insert_def lane_default_def hm_insert_def
      hm_remove_def)

theorem cache_scans_cover_witness:
  "(\<Union>i < 1. set (map snd (tick_candidates ((busy_pass ^^ i) one_page)))) = {5} \<and>
   (\<Union>i < 1. set (lanes_window (tl_lanes one_page)
      (snd ((cursor_pass PRESSURE_WINDOW ^^ i) (tl_lanes one_page, Some 7))))) = {1}"
proof -
  have ok: "tick_ok (\<lambda>k. Some (k mod 2)) one_page"
    unfolding one_page_def by (rule tick_insert_ok [OF tick_ok_default]) (simp_all add: tick_default_def)
  have "bt_ok (tl_lanes one_page)" using ok by (simp add: tick_ok_def lanes_list_def lanes_ok_def)
  from cache_scans_cover [OF ok this, of "Some 7"]
  have "(\<Union>i < div_ceil (tick_len one_page) RECLAIM_WINDOW. set (map snd (tick_candidates ((busy_pass ^^ i) one_page)))) =
      fst ` set (tl_pages one_page) \<and>
    (\<Union>i < div_ceil (length (tl_lanes one_page)) PRESSURE_WINDOW.
       set (lanes_window (tl_lanes one_page) (snd ((cursor_pass PRESSURE_WINDOW ^^ i) (tl_lanes one_page, Some 7))))) =
      set (map fst (tl_lanes one_page))"
    unfolding dom_hm_get .
  moreover have "div_ceil (tick_len one_page) RECLAIM_WINDOW = 1" "fst ` set (tl_pages one_page) = {5}"
    "div_ceil (length (tl_lanes one_page)) PRESSURE_WINDOW = 1" "set (map fst (tl_lanes one_page)) = {1}"
    by (simp_all add: one_page_eq tick_len_def div_ceil_def RECLAIM_WINDOW_def PRESSURE_WINDOW_def)
  ultimately show ?thesis by simp
qed

end
