(* ===== verification/Racer_Memory.thy ===== *)
theory Racer_Memory
  imports Racer_Cache Racer_Errors
begin

section \<open>The worker's memory cache\<close>

text \<open>
  \<open>MemoryCache\<close> of \<open>src/memory.rs\<close>: verified pages in a \<open>TickLru\<close> with a set of pages per object
  version, ciphertext not yet verified in an \<open>OrderedLru\<close>, and the bounded passes that publish, look up,
  expire and reclaim entries, together with the checks of page metadata it applies (\<open>object-wire\<close>,
  \<open>src/model.rs\<close>).

  Identifiers (caches, keys, etags, allocations) are numbers, so that \<open>PageId\<close> is ordered
  lexicographically by its fields like the derived \<open>Ord\<close>. What a call sees of the rest of the process is
  the record \<open>memory_env\<close>: which allocations have other owners (\<open>Arc::strong_count\<close>), which plaintexts
  are still held (\<open>Weak::upgrade\<close>), the published caches and page keys, and the buffer pool's
  reservation checks and copies. It may change from call to call. A missing key where the source indexes
  a map panics: these operations return \<open>None\<close> there.
\<close>

subsection \<open>Pages and their descriptors\<close>

type_synonym cache_id = nat
type_synonym object_id = "cache_id \<times> nat"
type_synonym object_version = "object_id \<times> nat"
type_synonym page_id = "object_version \<times> nat"

definition page_cache :: "page_id \<Rightarrow> cache_id" where
  "page_cache p = fst (fst (fst p))"

definition by_cache :: "page_id \<Rightarrow> cache_id option" where
  "by_cache p = Some (page_cache p)"

definition MAX_WIRE_INTEGER :: nat where "MAX_WIRE_INTEGER = 9223372036854775807"
definition PAGE_BYTES :: nat where "PAGE_BYTES = 16 * 1024 * 1024"
definition AEAD_TAG_BYTES :: nat where "AEAD_TAG_BYTES = 16"

record version_metadata =
  vm_content_type :: "nat option"
  vm_version :: object_version
  vm_length :: nat

text \<open>\<open>expires_at\<close> in nanoseconds from the Unix epoch.\<close>

record object_metadata = version_metadata +
  om_expires_at :: int

datatype page_cipher = Xaes256Gcm

record page_envelope =
  en_cipher :: page_cipher
  en_page :: page_id
  en_key_id :: nat
  en_nonce :: nat
  en_plaintext_length :: nat
  en_ciphertext_length :: nat

record ciphertext_page =
  ct_inner :: nat
  ct_envelope :: page_envelope
  ct_bytes :: "nat list"
  ct_registered :: bool
  ct_amount :: nat

record verified_page =
  vp_inner :: nat
  vp_page :: page_id
  vp_bytes :: "nat list"

record page_result =
  pg_metadata :: object_metadata
  pg_plaintext :: verified_page
  pg_ciphertext :: ciphertext_page

record cached_page =
  cp_metadata :: object_metadata
  cp_ciphertext :: ciphertext_page
  cp_plaintext :: nat

record ciphertext_copy =
  cc_metadata :: object_metadata
  cc_ciphertext :: ciphertext_page

record unverified_page =
  up_copy :: ciphertext_copy
  up_disk_token :: "nat option"

definition to_unix_millis :: "int \<Rightarrow> nat res" where
  "to_unix_millis at =
     (if at < 0 then Inl InvalidRequest
      else if at mod 1000000 \<noteq> 0 \<or> at div 1000000 > int MAX_WIRE_INTEGER then Inl InvalidRequest
      else Inr (nat (at div 1000000)))"

definition metadata_validate :: "object_metadata \<Rightarrow> unit res" where
  "metadata_validate m =
     (if vm_length m > MAX_WIRE_INTEGER then Inl InvalidRequest
      else case to_unix_millis (om_expires_at m) of Inl e \<Rightarrow> Inl e | Inr _ \<Rightarrow> Inr ())"

definition immutable :: "object_metadata \<Rightarrow> version_metadata" where
  "immutable m = version_metadata.truncate m"

definition compatible :: "version_metadata \<Rightarrow> version_metadata \<Rightarrow> bool" where
  "compatible m n \<longleftrightarrow>
     vm_version m = vm_version n \<and> vm_length m = vm_length n \<and> vm_content_type m = vm_content_type n"

definition envelope_validate :: "page_envelope \<Rightarrow> unit res" where
  "envelope_validate e =
     (if en_plaintext_length e = 0 \<or> en_plaintext_length e > PAGE_BYTES \<or>
         checked_add u32_max (en_plaintext_length e) AEAD_TAG_BYTES \<noteq> Some (en_ciphertext_length e)
      then Inl CorruptRecord else Inr ())"

definition page_length :: "version_metadata \<Rightarrow> page_id \<Rightarrow> nat res" where
  "page_length m page =
     (let start = snd page * PAGE_BYTES in
      if start > u64_max then Inl CorruptRecord
      else if vm_length m > MAX_WIRE_INTEGER \<or> fst page \<noteq> vm_version m \<or> start \<ge> vm_length m
      then Inl CorruptRecord
      else Inr (min (vm_length m - start) PAGE_BYTES))"

definition validate_page :: "version_metadata \<Rightarrow> page_envelope \<Rightarrow> unit res" where
  "validate_page m e =
     (case envelope_validate e of
        Inl x \<Rightarrow> Inl x
      | Inr _ \<Rightarrow>
          (case page_length m (en_page e) of
             Inl x \<Rightarrow> Inl x
           | Inr n \<Rightarrow> if n \<noteq> en_plaintext_length e then Inl CorruptRecord else Inr ()))"

definition validate_ciphertext_length :: "ciphertext_page \<Rightarrow> unit res" where
  "validate_ciphertext_length c =
     (if length (ct_bytes c) \<noteq> en_ciphertext_length (ct_envelope c) then Inl CorruptRecord else Inr ())"

definition validate_ciphertext :: "object_metadata \<Rightarrow> ciphertext_page \<Rightarrow> unit res" where
  "validate_ciphertext m c =
     (case metadata_validate m of
        Inl x \<Rightarrow> Inl x
      | Inr _ \<Rightarrow>
          (case validate_page (immutable m) (ct_envelope c) of
             Inl x \<Rightarrow> Inl x
           | Inr _ \<Rightarrow> validate_ciphertext_length c))"

definition validate_association :: "object_metadata \<Rightarrow> page_id \<Rightarrow> nat \<Rightarrow> page_envelope \<Rightarrow> unit res" where
  "validate_association m plaintext_page plaintext_length e =
     (case validate_page (immutable m) e of
        Inl x \<Rightarrow> Inl x
      | Inr _ \<Rightarrow>
          if plaintext_page \<noteq> en_page e \<or> plaintext_length \<noteq> en_plaintext_length e then Inl CorruptRecord
          else Inr ())"

definition result_validate_metadata :: "page_result \<Rightarrow> unit res" where
  "result_validate_metadata p =
     (case metadata_validate (pg_metadata p) of
        Inl x \<Rightarrow> Inl x
      | Inr _ \<Rightarrow>
          (case validate_ciphertext_length (pg_ciphertext p) of
             Inl x \<Rightarrow> Inl x
           | Inr _ \<Rightarrow>
               validate_association (pg_metadata p) (vp_page (pg_plaintext p))
                 (length (vp_bytes (pg_plaintext p))) (ct_envelope (pg_ciphertext p))))"

subsection \<open>What a call sees of the process\<close>

record memory_env =
  me_shared :: "nat \<Rightarrow> bool"
  me_live :: "nat \<Rightarrow> verified_page option"
  me_published :: "(cache_id \<times> bool) list option"
  me_lease :: "cache_id \<Rightarrow> nat \<Rightarrow> bool"
  me_copy_out :: "ciphertext_page \<Rightarrow> (nat \<times> nat) res"
  me_plaintext_charged :: "verified_page \<Rightarrow> unit res"
  me_ciphertext_charged :: "ciphertext_page \<Rightarrow> cache_id \<Rightarrow> unit res"
  me_entry_limit :: nat

text \<open>
  \<open>me_plaintext_charged\<close> and \<open>me_ciphertext_charged\<close> are \<open>validate_reservation\<close>, \<open>me_copy_out\<close> is the
  allocation a registered page is copied to, \<open>me_entry_limit\<close> is \<open>metadata_entries\<close> of the limits.
\<close>

text \<open>\<open>Availability\<close>: a publication lists its caches, each with whether it is passed through.\<close>

definition av_cache :: "memory_env \<Rightarrow> cache_id \<Rightarrow> bool" where
  "av_cache env c =
     (case me_published env of None \<Rightarrow> False | Some cs \<Rightarrow> list_ex (\<lambda>p. fst p = c) cs)"

definition av_passthrough :: "memory_env \<Rightarrow> cache_id \<Rightarrow> bool" where
  "av_passthrough env c =
     (case me_published env of
        None \<Rightarrow> False
      | Some cs \<Rightarrow> (case find (\<lambda>p. fst p = c) cs of None \<Rightarrow> False | Some p \<Rightarrow> snd p))"

definition av_page :: "memory_env \<Rightarrow> cache_id \<Rightarrow> nat \<Rightarrow> bool" where
  "av_page env c key \<longleftrightarrow> av_cache env c \<and> me_lease env c key"

definition pool_validate_page :: "memory_env \<Rightarrow> page_result \<Rightarrow> unit res" where
  "pool_validate_page env p =
     (case result_validate_metadata p of
        Inl x \<Rightarrow> Inl x
      | Inr _ \<Rightarrow>
          (case me_plaintext_charged env (pg_plaintext p) of
             Inl x \<Rightarrow> Inl x
           | Inr _ \<Rightarrow> me_ciphertext_charged env (pg_ciphertext p) (page_cache (vp_page (pg_plaintext p)))))"

definition pool_validate_ciphertext :: "memory_env \<Rightarrow> ciphertext_copy \<Rightarrow> unit res" where
  "pool_validate_ciphertext env c =
     (case validate_ciphertext (cc_metadata c) (cc_ciphertext c) of
        Inl x \<Rightarrow> Inl x
      | Inr _ \<Rightarrow> me_ciphertext_charged env (cc_ciphertext c) (fst (fst (vm_version (cc_metadata c)))))"

text \<open>
  A copy of a registered page keeps its envelope and bytes; its allocation and the bytes charged for it
  are the pool's (a copy retained earlier, or one under a new reservation).
\<close>

definition copy_out :: "memory_env \<Rightarrow> ciphertext_page \<Rightarrow> ciphertext_page res" where
  "copy_out env c =
     (case me_copy_out env c of
        Inl e \<Rightarrow> Inl e
      | Inr (inner, amount) \<Rightarrow> Inr (c\<lparr>ct_inner := inner, ct_registered := False, ct_amount := amount\<rparr>))"

definition retainable :: "memory_env \<Rightarrow> ciphertext_page \<Rightarrow> ciphertext_page res" where
  "retainable env c = (if \<not> ct_registered c then Inr c else copy_out env c)"

definition idle_page :: "memory_env \<Rightarrow> cached_page \<Rightarrow> bool" where
  "idle_page env p \<longleftrightarrow> \<not> me_shared env (ct_inner (cp_ciphertext p))"

definition idle_unverified :: "memory_env \<Rightarrow> unverified_page \<Rightarrow> bool" where
  "idle_unverified env p \<longleftrightarrow> \<not> me_shared env (ct_inner (cc_ciphertext (up_copy p)))"

subsection \<open>Verified entries\<close>

definition cached_new :: "page_result \<Rightarrow> cached_page" where
  "cached_new p =
     \<lparr>cp_metadata = pg_metadata p, cp_ciphertext = pg_ciphertext p, cp_plaintext = vp_inner (pg_plaintext p)\<rparr>"

definition cached_live :: "memory_env \<Rightarrow> cached_page \<Rightarrow> page_result option" where
  "cached_live env p =
     map_option (\<lambda>plain. \<lparr>pg_metadata = cp_metadata p, pg_plaintext = plain, pg_ciphertext = cp_ciphertext p\<rparr>)
       (me_live env (cp_plaintext p))"

definition cached_copy :: "cached_page \<Rightarrow> ciphertext_copy" where
  "cached_copy p = \<lparr>cc_metadata = cp_metadata p, cc_ciphertext = cp_ciphertext p\<rparr>"

record entries =
  et_lru :: "(page_id, cached_page, cache_id) tick_lru"
  et_versions :: "(object_version, page_id list) hmap"

definition entries_default :: entries where
  "entries_default = \<lparr>et_lru = tick_default, et_versions = []\<rparr>"

definition forget_version :: "page_id \<Rightarrow> entries \<Rightarrow> entries" where
  "forget_version key es =
     (case hm_get (et_versions es) (fst key) of
        None \<Rightarrow> es
      | Some pages \<Rightarrow>
          let pages' = removeAll key pages in
          es\<lparr>et_versions :=
               if pages' = [] then hm_remove (fst key) (et_versions es)
               else hm_update (fst key) (\<lambda>_. pages') (et_versions es)\<rparr>)"

definition entries_remove :: "page_id \<Rightarrow> entries \<Rightarrow> cached_page option \<times> entries" where
  "entries_remove key es =
     (case tick_remove by_cache key (et_lru es) of
        (None, _) \<Rightarrow> (None, es)
      | (Some p, l) \<Rightarrow> (Some p, forget_version key (es\<lparr>et_lru := l\<rparr>)))"

definition entries_insert :: "page_result \<Rightarrow> entries \<Rightarrow> unit res \<times> entries" where
  "entries_insert p es =
     (let key = vp_page (pg_plaintext p) in
      case tick_insert by_cache key (cached_new p) (et_lru es) of
        (Inl _, l) \<Rightarrow> (Inl Overloaded, es\<lparr>et_lru := l\<rparr>)
      | (Inr _, l) \<Rightarrow>
          let pages = (case hm_get (et_versions es) (fst key) of None \<Rightarrow> [] | Some ps \<Rightarrow> ps)
          in (Inr (), es\<lparr>et_lru := l, et_versions := hm_insert (fst key) (List.insert key pages) (et_versions es)\<rparr>))"

definition entries_touch :: "page_id \<Rightarrow> entries \<Rightarrow> unit res \<times> entries" where
  "entries_touch key es =
     (case tick_touch by_cache key (et_lru es) of
        (Inl _, l) \<Rightarrow> (Inl Overloaded, es\<lparr>et_lru := l\<rparr>)
      | (Inr _, l) \<Rightarrow> (Inr (), es\<lparr>et_lru := l\<rparr>))"

subsection \<open>The cache\<close>

type_synonym ciphertext_entries = "(page_id, unverified_page, cache_id) ordered_lru"

record memory_cache =
  mc_entries :: entries
  mc_ciphertext :: ciphertext_entries
  mc_ciphertext_cursor :: "page_id option"
  mc_pressure_cursor :: "cache_id option"
  mc_expiry :: expiry

definition memory_new :: memory_cache where
  "memory_new =
     \<lparr>mc_entries = entries_default, mc_ciphertext = ordered_default, mc_ciphertext_cursor = None,
      mc_pressure_cursor = None, mc_expiry = expiry_default\<rparr>"

definition mc_get :: "memory_cache \<Rightarrow> page_id \<Rightarrow> (nat \<times> cached_page) option" where
  "mc_get mc key = hm_get (tl_pages (et_lru (mc_entries mc))) key"

definition mc_len :: "memory_cache \<Rightarrow> nat" where
  "mc_len mc = tick_len (et_lru (mc_entries mc)) + length (ol_pages (mc_ciphertext mc))"

definition page_available :: "memory_env \<Rightarrow> cached_page \<Rightarrow> bool" where
  "page_available env p \<longleftrightarrow>
     \<not> av_passthrough env (fst (fst (vm_version (cp_metadata p)))) \<and>
     av_page env (fst (fst (vm_version (cp_metadata p)))) (en_key_id (ct_envelope (cp_ciphertext p)))"

subsubsection \<open>Lookups\<close>

text \<open>The authenticated page after a touch; \<open>Inr None\<close> when there is none to serve.\<close>

definition verified :: "memory_env \<Rightarrow> page_id \<Rightarrow> memory_cache \<Rightarrow> cached_page option res \<times> memory_cache" where
  "verified env key mc =
     (case mc_get mc key of
        None \<Rightarrow> (Inr None, mc)
      | Some (_, p) \<Rightarrow>
          if \<not> page_available env p
          then (Inr None, mc\<lparr>mc_entries := snd (entries_remove key (mc_entries mc))\<rparr>)
          else case entries_touch key (mc_entries mc) of
                 (Inl e, es) \<Rightarrow> (Inl e, mc\<lparr>mc_entries := es\<rparr>)
               | (Inr _, es) \<Rightarrow> (Inr (Some p), mc\<lparr>mc_entries := es\<rparr>))"

definition mc_lookup :: "memory_env \<Rightarrow> page_id \<Rightarrow> memory_cache \<Rightarrow> page_result option res \<times> memory_cache" where
  "mc_lookup env key mc =
     (case verified env key mc of
        (Inl e, mc1) \<Rightarrow> (Inl e, mc1)
      | (Inr r, mc1) \<Rightarrow> (Inr (case r of None \<Rightarrow> None | Some p \<Rightarrow> cached_live env p), mc1))"

definition unverified_stale :: "memory_env \<Rightarrow> page_id \<Rightarrow> unverified_page \<Rightarrow> bool" where
  "unverified_stale env key p \<longleftrightarrow>
     av_passthrough env (page_cache key) \<or>
     \<not> av_page env (page_cache key) (en_key_id (ct_envelope (cc_ciphertext (up_copy p))))"

definition unverified ::
  "memory_env \<Rightarrow> page_id \<Rightarrow> memory_cache \<Rightarrow> unverified_page option res \<times> memory_cache" where
  "unverified env key mc =
     (case verified env key mc of
        (Inl e, mc1) \<Rightarrow> (Inl e, mc1)
      | (Inr (Some p), mc1) \<Rightarrow> (Inr (Some \<lparr>up_copy = cached_copy p, up_disk_token = None\<rparr>), mc1)
      | (Inr None, mc1) \<Rightarrow>
          let es = mc_ciphertext mc1;
              es1 = (case bt_get (ol_pages es) key of
                       None \<Rightarrow> es
                     | Some p \<Rightarrow> if unverified_stale env key p then snd (ordered_remove by_cache key es) else es);
              es2 = ordered_touch by_cache key es1
          in (Inr (bt_get (ol_pages es2) key), mc1\<lparr>mc_ciphertext := es2\<rparr>))"

definition mc_copy :: "memory_env \<Rightarrow> page_id \<Rightarrow> memory_cache \<Rightarrow> ciphertext_copy option res \<times> memory_cache" where
  "mc_copy env key mc =
     (case verified env key mc of
        (Inl e, mc1) \<Rightarrow> (Inl e, mc1)
      | (Inr (Some p), mc1) \<Rightarrow> (Inr (Some (cached_copy p)), mc1)
      | (Inr None, mc1) \<Rightarrow>
          (case unverified env key mc1 of
             (Inl e, mc2) \<Rightarrow> (Inl e, mc2)
           | (Inr r, mc2) \<Rightarrow> (Inr (map_option up_copy r), mc2)))"

subsubsection \<open>Publishing\<close>

definition publish_ciphertext :: "memory_env \<Rightarrow> unverified_page \<Rightarrow> memory_cache \<Rightarrow> unit res \<times> memory_cache" where
  "publish_ciphertext env page mc =
     (case pool_validate_ciphertext env (up_copy page) of
        Inl e \<Rightarrow> (Inl e, mc)
      | Inr _ \<Rightarrow>
          let c = cc_ciphertext (up_copy page); key = en_page (ct_envelope c) in
          if av_passthrough env (page_cache key) then (Inr (), mc)
          else if \<not> av_page env (page_cache key) (en_key_id (ct_envelope c)) then (Inl MissingKey, mc)
          else if mc_get mc key \<noteq> None \<or> bt_get (ol_pages (mc_ciphertext mc)) key \<noteq> None then (Inr (), mc)
          else case retainable env c of
                 Inl e \<Rightarrow> (Inl e, mc)
               | Inr c' \<Rightarrow>
                   let key' = en_page (ct_envelope c');
                       page' = page\<lparr>up_copy := (up_copy page)\<lparr>cc_ciphertext := c'\<rparr>\<rparr>
                   in if bt_get (ol_pages (mc_ciphertext mc)) key' \<noteq> None then (Inr (), mc)
                      else if mc_len mc \<ge> me_entry_limit env then (Inl Overloaded, mc)
                      else (Inr (), mc\<lparr>mc_ciphertext := ordered_insert by_cache key' page' (mc_ciphertext mc)\<rparr>))"

definition ciphertext_matches :: "ciphertext_page \<Rightarrow> ciphertext_page \<Rightarrow> bool" where
  "ciphertext_matches c cached \<longleftrightarrow>
     ct_inner cached = ct_inner c \<or>
     (ct_registered c \<and> ct_envelope cached = ct_envelope c \<and> ct_bytes cached = ct_bytes c)"

definition invalidate_ciphertext :: "unverified_page \<Rightarrow> memory_cache \<Rightarrow> memory_cache" where
  "invalidate_ciphertext page mc =
     (let c = cc_ciphertext (up_copy page);
          key = en_page (ct_envelope c);
          mc1 = (case bt_get (ol_pages (mc_ciphertext mc)) key of
                   None \<Rightarrow> mc
                 | Some p \<Rightarrow>
                     if ciphertext_matches c (cc_ciphertext (up_copy p))
                     then mc\<lparr>mc_ciphertext := snd (ordered_remove by_cache key (mc_ciphertext mc))\<rparr> else mc)
      in case mc_get mc1 key of
           None \<Rightarrow> mc1
         | Some (_, p) \<Rightarrow>
             if ciphertext_matches c (cp_ciphertext p)
             then mc1\<lparr>mc_entries := snd (entries_remove key (mc_entries mc1))\<rparr> else mc1)"

text \<open>The entry of the page's version the source picks first, if that entry is listed.\<close>

definition known_version :: "entries \<Rightarrow> object_version \<Rightarrow> cached_page option" where
  "known_version es v =
     (case hm_get (et_versions es) v of
        Some (key # _) \<Rightarrow> map_option snd (hm_get (tl_pages (et_lru es)) key)
      | _ \<Rightarrow> None)"

text \<open>The last part of \<open>publish_validated\<close>: keep the entry there is, or insert one, after a victim at the limit.\<close>

definition admit_entry ::
  "memory_env \<Rightarrow> page_result \<Rightarrow> nat \<Rightarrow> entries \<Rightarrow> (unit res \<times> entries) option" where
  "admit_entry env page unverified_len es =
     (let key = vp_page (pg_plaintext page); l = et_lru es in
      case hm_get (tl_pages l) key of
        Some (_, entry) \<Rightarrow>
          (case me_live env (cp_plaintext entry) of
             Some live \<Rightarrow>
               Some (if vp_bytes live \<noteq> vp_bytes (pg_plaintext page) then Inl CorruptRecord else Inr (), es)
           | None \<Rightarrow>
               Some (Inr (), es\<lparr>et_lru := l\<lparr>tl_pages :=
                 hm_update key (\<lambda>e. (fst e, (snd e)\<lparr>cp_plaintext := vp_inner (pg_plaintext page)\<rparr>)) (tl_pages l)\<rparr>\<rparr>))
      | None \<Rightarrow>
          if tick_len l + unverified_len \<ge> me_entry_limit env
          then (case tick_victim (\<lambda>s p. (idle_page env p, s)) (0 :: nat) l of
                  None \<Rightarrow> None
                | Some (None, _, l') \<Rightarrow> Some (Inl Overloaded, es\<lparr>et_lru := l'\<rparr>)
                | Some (Some v, _, l') \<Rightarrow>
                    Some (entries_insert page (snd (entries_remove v (es\<lparr>et_lru := l'\<rparr>)))))
          else Some (entries_insert page es))"

definition publish_validated ::
  "memory_env \<Rightarrow> page_result \<Rightarrow> memory_cache \<Rightarrow> (unit res \<times> memory_cache) option" where
  "publish_validated env page0 mc0 =
     (case (if ct_registered (pg_ciphertext page0) \<and> mc_get mc0 (vp_page (pg_plaintext page0)) = None
            then retainable env (pg_ciphertext page0) else Inr (pg_ciphertext page0)) of
        Inl e \<Rightarrow> Some (Inl e, mc0)
      | Inr c \<Rightarrow>
          let page = page0\<lparr>pg_ciphertext := c\<rparr>;
              key = vp_page (pg_plaintext page);
              mc = mc0\<lparr>mc_ciphertext := snd (ordered_remove by_cache key (mc_ciphertext mc0))\<rparr>
          in
          if \<not> av_cache env (page_cache key) then Some (Inl Unavailable, mc)
          else if \<not> av_page env (fst (fst (vm_version (pg_metadata page)))) (en_key_id (ct_envelope c))
          then Some (Inl MissingKey, mc)
          else if (case known_version (mc_entries mc) (vm_version (pg_metadata page)) of
                     None \<Rightarrow> False
                   | Some known \<Rightarrow> \<not> compatible (immutable (cp_metadata known)) (immutable (pg_metadata page)))
          then Some (Inl CorruptRecord, mc)
          else case admit_entry env page (length (ol_pages (mc_ciphertext mc))) (mc_entries mc) of
                 None \<Rightarrow> None
               | Some (r, es) \<Rightarrow> Some (r, mc\<lparr>mc_entries := es\<rparr>))"

definition publish :: "memory_env \<Rightarrow> page_result \<Rightarrow> memory_cache \<Rightarrow> (unit res \<times> memory_cache) option" where
  "publish env page mc =
     (case pool_validate_page env page of
        Inl e \<Rightarrow> Some (Inl e, mc)
      | Inr _ \<Rightarrow>
          if av_passthrough env (fst (fst (vm_version (pg_metadata page)))) then Some (Inr (), mc)
          else publish_validated env page mc)"

definition mc_metadata :: "memory_env \<Rightarrow> object_version \<Rightarrow> memory_cache \<Rightarrow> version_metadata option" where
  "mc_metadata env v mc =
     (if av_passthrough env (fst (fst v)) then None
      else
        let listed = (case hm_get (et_versions (mc_entries mc)) v of None \<Rightarrow> [] | Some ps \<Rightarrow> ps);
            found = find (page_available env)
                      (map snd (List.map_filter (\<lambda>key. mc_get mc key) listed))
        in case found of
             Some p \<Rightarrow> Some (immutable (cp_metadata p))
           | None \<Rightarrow>
               map_option (\<lambda>p. immutable (cc_metadata (up_copy p)))
                 (find (\<lambda>p. vm_version (cc_metadata (up_copy p)) = v \<and>
                            av_page env (fst (fst v)) (en_key_id (ct_envelope (cc_ciphertext (up_copy p)))))
                    (map snd (ol_pages (mc_ciphertext mc)))))"

subsubsection \<open>Reclaiming\<close>

text \<open>The loop of \<open>reclaim_ciphertext\<close>: selected keys, then the bytes released, the entries, the cursor.\<close>

fun reclaim_unverified ::
  "memory_env \<Rightarrow> cache_id option \<Rightarrow> nat \<Rightarrow> page_id list \<Rightarrow> nat \<Rightarrow> memory_cache \<Rightarrow> (nat \<times> memory_cache) option" where
  "reclaim_unverified env cache bytes [] released mc = Some (released, mc)"
| "reclaim_unverified env cache bytes (key # keys) released mc =
     (if released \<ge> bytes then Some (released, mc)
      else
        let mc1 = mc\<lparr>mc_ciphertext_cursor := Some key\<rparr> in
        if (case cache of None \<Rightarrow> False | Some c \<Rightarrow> c \<noteq> page_cache key)
        then reclaim_unverified env cache bytes keys released mc1
        else case bt_get (ol_pages (mc_ciphertext mc1)) key of
               None \<Rightarrow> None
             | Some p \<Rightarrow>
                 if \<not> idle_unverified env p then reclaim_unverified env cache bytes keys released mc1
                 else reclaim_unverified env cache bytes keys
                        (released + ct_amount (cc_ciphertext (up_copy p)))
                        (mc1\<lparr>mc_ciphertext := snd (ordered_remove by_cache key (mc_ciphertext mc1))\<rparr>))"

definition reclaim_ciphertext ::
  "memory_env \<Rightarrow> cache_id option \<Rightarrow> nat \<Rightarrow> memory_cache \<Rightarrow> (nat \<times> memory_cache) option" where
  "reclaim_ciphertext env cache bytes mc =
     reclaim_unverified env cache bytes
       (ordered_candidates (mc_ciphertext mc) (mc_ciphertext_cursor mc)) 0 mc"

text \<open>The visitors of \<open>evict_idle\<close> and \<open>reclaim_idle\<close>: bytes released and keys removed so far.\<close>

definition evict_visit ::
  "memory_env \<Rightarrow> nat \<Rightarrow> nat \<times> page_id list \<Rightarrow> page_id \<Rightarrow> cached_page \<Rightarrow> visit \<times> nat \<times> page_id list" where
  "evict_visit env bytes s key p =
     (case s of (released, keys) \<Rightarrow>
        if released \<ge> bytes then (Visit_Stop, s)
        else if \<not> idle_page env p then (Visit_Skip, s)
        else (Visit_Remove, sat_add u64_max released (ct_amount (cp_ciphertext p)), keys @ [key]))"

definition forget_versions :: "page_id list \<Rightarrow> entries \<Rightarrow> entries" where
  "forget_versions keys es = fold forget_version keys es"

definition evict_idle :: "memory_env \<Rightarrow> nat \<Rightarrow> memory_cache \<Rightarrow> (nat \<times> memory_cache) option" where
  "evict_idle env bytes mc =
     (case reclaim_ciphertext env None bytes mc of
        None \<Rightarrow> None
      | Some (released, mc1) \<Rightarrow>
          (case tick_reclaim by_cache (evict_visit env bytes) (released, []) (et_lru (mc_entries mc1)) of
             None \<Rightarrow> None
           | Some ((released', keys), l) \<Rightarrow>
               Some (released', mc1\<lparr>mc_entries := forget_versions keys ((mc_entries mc1)\<lparr>et_lru := l\<rparr>)\<rparr>)))"

definition reclaim_visit ::
  "memory_env \<Rightarrow> cache_id option \<Rightarrow> nat \<Rightarrow> ('s \<Rightarrow> page_id \<Rightarrow> ciphertext_page \<Rightarrow> nat \<times> 's) \<Rightarrow>
   nat \<times> page_id list \<times> 's \<Rightarrow> page_id \<Rightarrow> cached_page \<Rightarrow> visit \<times> nat \<times> page_id list \<times> 's" where
  "reclaim_visit env cache bytes release_queued s key p =
     (case s of (released, keys, q) \<Rightarrow>
        if released \<ge> bytes then (Visit_Stop, s)
        else if (case cache of None \<Rightarrow> False | Some c \<Rightarrow> c \<noteq> fst (fst (vm_version (cp_metadata p))))
        then (Visit_Skip, s)
        else case release_queued q key (cp_ciphertext p) of (n, q') \<Rightarrow>
          let released1 = sat_add u64_max released n in
          if released1 \<ge> bytes then (Visit_Last, released1, keys, q')
          else if \<not> idle_page env p then (Visit_Skip, released1, keys, q')
          else (Visit_Remove, sat_add u64_max released1 (ct_amount (cp_ciphertext p)), keys @ [key], q'))"

definition reclaim_idle ::
  "memory_env \<Rightarrow> bool \<Rightarrow> cache_id option \<Rightarrow> nat \<Rightarrow> ('s \<Rightarrow> page_id \<Rightarrow> ciphertext_page \<Rightarrow> nat \<times> 's) \<Rightarrow> 's \<Rightarrow>
   memory_cache \<Rightarrow> (nat \<times> 's \<times> memory_cache) option" where
  "reclaim_idle env is_ciphertext cache bytes release_queued q mc =
     (if \<not> is_ciphertext then Some (0, q, mc)
      else case reclaim_ciphertext env cache bytes mc of
             None \<Rightarrow> None
           | Some (released, mc1) \<Rightarrow>
               (case tick_reclaim by_cache (reclaim_visit env cache bytes release_queued) (released, [], q)
                       (et_lru (mc_entries mc1)) of
                  None \<Rightarrow> None
                | Some ((released', keys, q'), l) \<Rightarrow>
                    Some (released', q',
                      mc1\<lparr>mc_entries := forget_versions keys ((mc_entries mc1)\<lparr>et_lru := l\<rparr>)\<rparr>)))"

definition remove_caches :: "cache_id list \<Rightarrow> memory_cache \<Rightarrow> memory_cache" where
  "remove_caches caches mc =
     (if caches = [] then mc
      else
        let mc1 = mc\<lparr>mc_ciphertext :=
                       ordered_retain by_cache (\<lambda>key. page_cache key \<notin> set caches) (mc_ciphertext mc)\<rparr>;
            removed = filter (\<lambda>key. page_cache key \<in> set caches)
                        (map fst (tl_pages (et_lru (mc_entries mc1))))
        in mc1\<lparr>mc_entries := fold (\<lambda>key es. snd (entries_remove key es)) removed (mc_entries mc1)\<rparr>)"

text \<open>The two loops of \<open>reclaim_cache\<close> over one cache's lane.\<close>

fun reclaim_lane_unverified ::
  "memory_env \<Rightarrow> cache_id \<Rightarrow> nat \<Rightarrow> (nat \<times> page_id) list \<Rightarrow> nat \<Rightarrow> ciphertext_entries \<Rightarrow>
   (nat \<times> ciphertext_entries) option" where
  "reclaim_lane_unverified env cache bytes [] released es = Some (released, es)"
| "reclaim_lane_unverified env cache bytes ((tick, key) # cs) released es =
     (if released \<ge> bytes then Some (released, es)
      else
        let es1 = es\<lparr>ol_lanes := lanes_advance cache tick (ol_lanes es)\<rparr> in
        case bt_get (ol_pages es1) key of
          None \<Rightarrow> None
        | Some p \<Rightarrow>
            if \<not> idle_unverified env p then reclaim_lane_unverified env cache bytes cs released es1
            else reclaim_lane_unverified env cache bytes cs
                   (released + ct_amount (cc_ciphertext (up_copy p)))
                   (snd (ordered_remove by_cache key es1)))"

fun reclaim_lane_verified ::
  "memory_env \<Rightarrow> cache_id \<Rightarrow> nat \<Rightarrow> ('s \<Rightarrow> page_id \<Rightarrow> ciphertext_page \<Rightarrow> nat \<times> 's) \<Rightarrow> (nat \<times> page_id) list \<Rightarrow>
   nat \<Rightarrow> 's \<Rightarrow> entries \<Rightarrow> (nat \<times> 's \<times> entries) option" where
  "reclaim_lane_verified env cache bytes release_queued [] released q es = Some (released, q, es)"
| "reclaim_lane_verified env cache bytes release_queued ((tick, key) # cs) released q es =
     (if released \<ge> bytes then Some (released, q, es)
      else
        let l = et_lru es;
            es1 = es\<lparr>et_lru := l\<lparr>tl_lanes := lanes_advance cache tick (tl_lanes l)\<rparr>\<rparr> in
        case hm_get (tl_pages (et_lru es1)) key of
          None \<Rightarrow> None
        | Some (_, p) \<Rightarrow>
            (case release_queued q key (cp_ciphertext p) of (n, q') \<Rightarrow>
               let released1 = sat_add u64_max released n in
               if released1 \<ge> bytes then Some (released1, q', es1)
               else if \<not> idle_page env p
               then reclaim_lane_verified env cache bytes release_queued cs released1 q' es1
               else reclaim_lane_verified env cache bytes release_queued cs
                      (sat_add u64_max released1 (ct_amount (cp_ciphertext p))) q'
                      (snd (entries_remove key es1))))"

definition reclaim_cache ::
  "memory_env \<Rightarrow> cache_id \<Rightarrow> nat \<Rightarrow> ('s \<Rightarrow> page_id \<Rightarrow> ciphertext_page \<Rightarrow> nat \<times> 's) \<Rightarrow> 's \<Rightarrow> memory_cache \<Rightarrow>
   (nat \<times> 's \<times> memory_cache) option" where
  "reclaim_cache env cache bytes release_queued q mc =
     (case reclaim_lane_unverified env cache bytes (lanes_candidates (ol_lanes (mc_ciphertext mc)) cache) 0
             (mc_ciphertext mc) of
        None \<Rightarrow> None
      | Some (released, ces) \<Rightarrow>
          let mc1 = mc\<lparr>mc_ciphertext := ces\<rparr> in
          (case reclaim_lane_verified env cache bytes release_queued
                  (lanes_candidates (tl_lanes (et_lru (mc_entries mc1))) cache) released q (mc_entries mc1) of
             None \<Rightarrow> None
           | Some (released', q', es) \<Rightarrow> Some (released', q', mc1\<lparr>mc_entries := es\<rparr>)))"

text \<open>\<open>pressure_window\<close>: sorted by \<open>(wrapped, cache)\<close>, duplicates dropped, cut to the window.\<close>

definition pressure_window :: "memory_cache \<Rightarrow> cache_id list" where
  "pressure_window mc =
     (let cursor = mc_pressure_cursor mc;
          caches = lanes_window (tl_lanes (et_lru (mc_entries mc))) cursor @
                   lanes_window (ol_lanes (mc_ciphertext mc)) cursor;
          wrapped = (\<lambda>c. case cursor of None \<Rightarrow> False | Some x \<Rightarrow> c \<le> x)
      in take PRESSURE_WINDOW (remdups_adj (map snd (sort (map (\<lambda>c. (wrapped c, c)) caches)))))"

fun reclaim_pressure ::
  "memory_env \<Rightarrow> nat \<Rightarrow> (cache_id \<Rightarrow> nat) \<Rightarrow> ('s \<Rightarrow> page_id \<Rightarrow> ciphertext_page \<Rightarrow> nat \<times> 's) \<Rightarrow>
   ('s \<Rightarrow> cache_id option \<Rightarrow> nat \<Rightarrow> nat \<times> 's) \<Rightarrow> cache_id list \<Rightarrow> nat \<Rightarrow> 's \<Rightarrow> memory_cache \<Rightarrow>
   (nat \<times> 's \<times> memory_cache) option" where
  "reclaim_pressure env bytes excess release_queued reclaim_writer [] released q mc = Some (released, q, mc)"
| "reclaim_pressure env bytes excess release_queued reclaim_writer (c # cs) released q mc =
     (if released \<ge> bytes then Some (released, q, mc)
      else
        let mc1 = mc\<lparr>mc_pressure_cursor := Some c\<rparr>;
            want = min (excess c) (bytes - released)
        in if want = 0 then reclaim_pressure env bytes excess release_queued reclaim_writer cs released q mc1
           else case reclaim_cache env c want release_queued q mc1 of
                  None \<Rightarrow> None
                | Some (got, q1, mc2) \<Rightarrow>
                    (case (if got < want
                           then (case reclaim_writer q1 (Some c) (want - got) of
                                   (n, q2) \<Rightarrow> (sat_add u64_max got n, q2))
                           else (got, q1)) of
                       (got', q2) \<Rightarrow>
                         reclaim_pressure env bytes excess release_queued reclaim_writer cs
                           (sat_add u64_max released got') q2 mc2))"

definition mc_reclaim ::
  "memory_env \<Rightarrow> bool \<Rightarrow> cache_id option \<Rightarrow> nat \<Rightarrow> (cache_id \<Rightarrow> nat) \<Rightarrow>
   ('s \<Rightarrow> page_id \<Rightarrow> ciphertext_page \<Rightarrow> nat \<times> 's) \<Rightarrow> ('s \<Rightarrow> cache_id option \<Rightarrow> nat \<Rightarrow> nat \<times> 's) \<Rightarrow> 's \<Rightarrow>
   memory_cache \<Rightarrow> (nat \<times> 's \<times> memory_cache) option" where
  "mc_reclaim env is_ciphertext owner bytes excess release_queued reclaim_writer q mc =
     (if \<not> is_ciphertext \<or> bytes = 0 then Some (0, q, mc)
      else case owner of
             Some c \<Rightarrow>
               (case reclaim_cache env c bytes release_queued q mc of
                  None \<Rightarrow> None
                | Some (released, q1, mc1) \<Rightarrow>
                    if released \<ge> bytes then Some (released, q1, mc1)
                    else (case reclaim_writer q1 (Some c) (bytes - released) of
                            (n, q2) \<Rightarrow> Some (sat_add u64_max released n, q2, mc1)))
           | None \<Rightarrow>
               (case reclaim_pressure env bytes excess release_queued reclaim_writer (pressure_window mc) 0 q mc of
                  None \<Rightarrow> None
                | Some (released, q1, mc1) \<Rightarrow>
                    (case (if released < bytes
                           then (case reclaim_idle env is_ciphertext None (bytes - released) release_queued q1 mc1 of
                                   None \<Rightarrow> None
                                 | Some (n, q2, mc2) \<Rightarrow> Some (sat_add u64_max released n, q2, mc2))
                           else Some (released, q1, mc1)) of
                       None \<Rightarrow> None
                     | Some (released', q2, mc2) \<Rightarrow>
                         if released' < bytes
                         then (case reclaim_writer q2 None (bytes - released') of
                                 (n, q3) \<Rightarrow> Some (sat_add u64_max released' n, q3, mc2))
                         else Some (released', q2, mc2))))"

subsubsection \<open>Idle expiry\<close>

fun expire_verified ::
  "memory_env \<Rightarrow> (nat \<times> page_id) list \<Rightarrow> page_id list \<times> entries \<Rightarrow> (page_id list \<times> entries) option" where
  "expire_verified env [] s = Some s"
| "expire_verified env ((_, key) # cs) (gone, es) =
     (case hm_get (tl_pages (et_lru es)) key of
        None \<Rightarrow> None
      | Some (_, p) \<Rightarrow>
          expire_verified env cs
            (if idle_page env p then (gone @ [key], snd (entries_remove key es)) else (gone, es)))"

fun expire_unverified ::
  "memory_env \<Rightarrow> (nat \<times> page_id) list \<Rightarrow> page_id list \<times> ciphertext_entries \<Rightarrow>
   (page_id list \<times> ciphertext_entries) option" where
  "expire_unverified env [] s = Some s"
| "expire_unverified env ((_, key) # cs) (gone, es) =
     (case bt_get (ol_pages es) key of
        None \<Rightarrow> None
      | Some p \<Rightarrow>
          expire_unverified env cs
            (if idle_unverified env p then (gone @ [key], snd (ordered_remove by_cache key es)) else (gone, es)))"

text \<open>One class: the keys released, the cursor of the next batch and the entries left.\<close>

definition expire_verified_pass ::
  "memory_env \<Rightarrow> nat \<Rightarrow> nat option \<Rightarrow> entries \<Rightarrow> (page_id list \<times> nat option \<times> entries) option" where
  "expire_verified_pass env cutoff cursor es =
     (case cursor of
        None \<Rightarrow> Some ([], None, es)
      | Some after \<Rightarrow>
          (case tick_expiring (et_lru es) after cutoff EXPIRY_BATCH of
             None \<Rightarrow> None
           | Some (selected, next) \<Rightarrow>
               (case expire_verified env selected ([], es) of
                  None \<Rightarrow> None
                | Some (gone, es') \<Rightarrow> Some (gone, next, es'))))"

definition expire_unverified_pass ::
  "memory_env \<Rightarrow> nat \<Rightarrow> nat option \<Rightarrow> ciphertext_entries \<Rightarrow> (page_id list \<times> nat option \<times> ciphertext_entries) option" where
  "expire_unverified_pass env cutoff cursor es =
     (case cursor of
        None \<Rightarrow> Some ([], None, es)
      | Some after \<Rightarrow>
          (case ordered_expiring es after cutoff EXPIRY_BATCH of
             None \<Rightarrow> None
           | Some (selected, next) \<Rightarrow>
               (case expire_unverified env selected ([], es) of
                  None \<Rightarrow> None
                | Some (gone, es') \<Rightarrow> Some (gone, next, es'))))"

text \<open>The keys released of either kind; the source returns how many.\<close>

definition expire_idle ::
  "memory_env \<Rightarrow> instant \<Rightarrow> memory_cache \<Rightarrow> ((page_id list \<times> page_id list) \<times> memory_cache) option" where
  "expire_idle env now mc =
     (case expiry_advance now (tl_clock (et_lru (mc_entries mc))) (ol_clock (mc_ciphertext mc)) (mc_expiry mc) of
        (None, x) \<Rightarrow> Some (([], []), mc\<lparr>mc_expiry := x\<rparr>)
      | (Some (verified_cutoff, ciphertext_cutoff), x) \<Rightarrow>
          (case expire_verified_pass env verified_cutoff (ex_verified x) (mc_entries mc) of
             None \<Rightarrow> None
           | Some (gone, next, es) \<Rightarrow>
               (case expire_unverified_pass env ciphertext_cutoff (ex_ciphertext x) (mc_ciphertext mc) of
                  None \<Rightarrow> None
                | Some (gone2, next2, ces) \<Rightarrow>
                    Some ((gone, gone2),
                      mc\<lparr>mc_entries := es, mc_ciphertext := ces,
                         mc_expiry := x\<lparr>ex_verified := next, ex_ciphertext := next2\<rparr>\<rparr>))))"

end
