(* ===== verification/Racer_Memory_Props.thy ===== *)
theory Racer_Memory_Props
  imports Racer_Memory Racer_Cache_Props
begin

section \<open>The memory cache keeps its tables consistent\<close>

text \<open>
  The invariant of the memory cache of \<open>Racer_Memory\<close>: both recency indexes are consistent, the page set
  of each object version lists exactly that version's verified pages, no page is in both tables, every
  entry belongs to the page it is stored under, and the pages of a version agree on its descriptor.
  Eviction, reclamation and cache removal only drop entries, keep the invariant and cannot fail an index,
  whatever the rest of the process does meanwhile. Lookups, publications and expiry are in
  \<open>Racer_Memory_Runs\<close>.
\<close>

declare split_paired_All [simp del] split_paired_Ex [simp del]

subsection \<open>Page sets per version\<close>

definition get_page :: "entries \<Rightarrow> page_id \<Rightarrow> (nat \<times> cached_page) option" where
  "get_page es = hm_get (tl_pages (et_lru es))"

definition version_pages :: "entries \<Rightarrow> object_version \<Rightarrow> page_id list" where
  "version_pages es v = (case hm_get (et_versions es) v of None \<Rightarrow> [] | Some ps \<Rightarrow> ps)"

definition versions_wf :: "entries \<Rightarrow> bool" where
  "versions_wf es \<longleftrightarrow>
     hm_ok (et_versions es) \<and> (\<forall>v ps. hm_get (et_versions es) v = Some ps \<longrightarrow> ps \<noteq> [] \<and> distinct ps)"

definition versions_exact :: "entries \<Rightarrow> bool" where
  "versions_exact es \<longleftrightarrow>
     (\<forall>v k. k \<in> set (version_pages es v) \<longleftrightarrow> fst k = v \<and> get_page es k \<noteq> None)"

lemma forget_version_lru [simp]: "et_lru (forget_version k es) = et_lru es"
  by (simp add: forget_version_def Let_def split: option.split)

lemma forget_version_wf: "versions_wf es \<Longrightarrow> versions_wf (forget_version k es)"
  by (simp add: versions_wf_def forget_version_def Let_def distinct_removeAll split: option.split)

lemma forget_version_pages:
  "version_pages (forget_version k es) v =
     (if v = fst k then removeAll k (version_pages es v) else version_pages es v)"
  by (auto simp: version_pages_def forget_version_def Let_def split: option.split)

lemma forget_versions_lru [simp]: "et_lru (forget_versions ks es) = et_lru es"
  by (induction ks arbitrary: es) (simp_all add: forget_versions_def)

lemma forget_versions_wf: "versions_wf es \<Longrightarrow> versions_wf (forget_versions ks es)"
  by (induction ks arbitrary: es) (simp_all add: forget_versions_def forget_version_wf)

lemma forget_versions_pages:
  assumes "\<And>v k. k \<in> set (version_pages es v) \<Longrightarrow> fst k = v"
  shows "set (version_pages (forget_versions ks es) v) = set (version_pages es v) - set ks"
  using assms
proof (induction ks arbitrary: es)
  case (Cons k ks)
  have "fst x = v'" if "x \<in> set (version_pages (forget_version k es) v')" for v' x
    using that Cons.prems by (auto simp: forget_version_pages split: if_splits)
  from Cons.IH [OF this]
  have "set (version_pages (forget_versions (k # ks) es) v) = set (version_pages (forget_version k es) v) - set ks"
    by (simp add: forget_versions_def)
  also have "set (version_pages (forget_version k es) v) = set (version_pages es v) - {k}"
    using Cons.prems [of k v] by (cases "v = fst k") (auto simp: forget_version_pages)
  finally show ?case by auto
qed (simp add: forget_versions_def)

subsection \<open>Verified entries\<close>

definition page_ok :: "page_id \<Rightarrow> cached_page \<Rightarrow> bool" where
  "page_ok k p \<longleftrightarrow> vm_version (cp_metadata p) = fst k \<and> en_page (ct_envelope (cp_ciphertext p)) = k"

definition pages_ok :: "(page_id \<Rightarrow> (nat \<times> cached_page) option) \<Rightarrow> bool" where
  "pages_ok f \<longleftrightarrow>
     (\<forall>k t p. f k = Some (t, p) \<longrightarrow> page_ok k p) \<and>
     (\<forall>k k' t t' p p'. f k = Some (t, p) \<longrightarrow> f k' = Some (t', p') \<longrightarrow> fst k = fst k' \<longrightarrow>
        compatible (immutable (cp_metadata p)) (immutable (cp_metadata p')))"

definition entries_ok :: "entries \<Rightarrow> bool" where
  "entries_ok es \<longleftrightarrow>
     tick_ok by_cache (et_lru es) \<and> versions_wf es \<and> versions_exact es \<and> pages_ok (get_page es)"

text \<open>An operation that only drops entries, and only such as a predicate allows.\<close>

definition drops :: "('k \<Rightarrow> 'v \<Rightarrow> bool) \<Rightarrow> ('k \<rightharpoonup> 'v) \<Rightarrow> ('k \<rightharpoonup> 'v) \<Rightarrow> bool" where
  "drops Q f g \<longleftrightarrow> g \<subseteq>\<^sub>m f \<and> (\<forall>k v. f k = Some v \<longrightarrow> g k = None \<longrightarrow> Q k v)"

lemma map_le_None: "g \<subseteq>\<^sub>m f \<Longrightarrow> f k = None \<Longrightarrow> g k = None"
  by (metis domIff map_le_def)

lemma map_le_Some: "g \<subseteq>\<^sub>m f \<Longrightarrow> g k = Some v \<Longrightarrow> f k = Some v"
  by (metis domI map_le_def)

lemma drops_refl [simp]: "drops Q f f"
  by (simp add: drops_def)

lemma drops_trans:
  assumes "drops Q f g" and "drops Q g h"
  shows "drops Q f h"
  unfolding drops_def
proof (intro conjI allI impI)
  show "h \<subseteq>\<^sub>m f" using assms by (auto simp: drops_def intro: map_le_trans)
  fix k v assume k: "f k = Some v" "h k = None"
  show "Q k v"
  proof (cases "g k")
    case (Some w)
    with assms k map_le_Some [of g f k w] show ?thesis by (simp add: drops_def)
  qed (use assms k in \<open>simp add: drops_def\<close>)
qed

lemma drops_mono: "drops Q f g \<Longrightarrow> (\<And>k v. Q k v \<Longrightarrow> R k v) \<Longrightarrow> drops R f g"
  by (simp add: drops_def)

lemma drops_le: "drops Q f g \<Longrightarrow> g \<subseteq>\<^sub>m f"
  by (simp add: drops_def)

lemma drops_upd: "(\<And>v. f k = Some v \<Longrightarrow> Q k v) \<Longrightarrow> drops Q f (f(k := None))"
  by (auto simp: drops_def map_le_def)

lemma drops_keys: "(\<And>k v. k \<in> K \<Longrightarrow> f k = Some v \<Longrightarrow> Q k v) \<Longrightarrow> drops Q f (\<lambda>k. if k \<in> K then None else f k)"
  by (auto simp: drops_def map_le_def domIff split: if_splits)

definition sub_entries :: "(page_id \<Rightarrow> ciphertext_page \<Rightarrow> bool) \<Rightarrow> entries \<Rightarrow> entries \<Rightarrow> bool" where
  "sub_entries P es es' \<longleftrightarrow>
     entries_ok es' \<and> drops (\<lambda>k e. P k (cp_ciphertext (snd e))) (get_page es) (get_page es') \<and>
     tl_clock (et_lru es') = tl_clock (et_lru es)"

lemma sub_entries_refl: "entries_ok es \<Longrightarrow> sub_entries P es es"
  by (simp add: sub_entries_def)

lemma sub_entries_trans: "sub_entries P es es' \<Longrightarrow> sub_entries P es' es'' \<Longrightarrow> sub_entries P es es''"
  by (auto simp: sub_entries_def intro: drops_trans)

lemma sub_entries_mono: "sub_entries P es es' \<Longrightarrow> (\<And>k c. P k c \<Longrightarrow> Q k c) \<Longrightarrow> sub_entries Q es es'"
  by (auto simp: sub_entries_def intro: drops_mono)

lemma sub_entries_le: "sub_entries P es es' \<Longrightarrow> get_page es' \<subseteq>\<^sub>m get_page es"
  unfolding sub_entries_def by (blast dest: drops_le)

lemma pages_ok_sub: "pages_ok f \<Longrightarrow> g \<subseteq>\<^sub>m f \<Longrightarrow> pages_ok g"
  unfolding pages_ok_def map_le_def by (metis domI)

lemma sub_entriesI:
  assumes ok: "entries_ok es" and tick: "tick_ok by_cache (et_lru es')"
    and get: "get_page es' = (\<lambda>k. if k \<in> K then None else get_page es k)"
    and vers: "versions_wf es'" "\<And>v. set (version_pages es' v) = set (version_pages es v) - K"
    and clock: "tl_clock (et_lru es') = tl_clock (et_lru es)"
    and P: "\<And>k t p. k \<in> K \<Longrightarrow> get_page es k = Some (t, p) \<Longrightarrow> P k (cp_ciphertext p)"
  shows "sub_entries P es es'"
proof -
  have drops: "drops (\<lambda>k e. P k (cp_ciphertext (snd e))) (get_page es) (get_page es')"
    unfolding get using P by (intro drops_keys) auto
  then have sub: "get_page es' \<subseteq>\<^sub>m get_page es" by (rule drops_le)
  have "versions_exact es" using ok by (simp add: entries_ok_def)
  then have "versions_exact es'" unfolding versions_exact_def vers(2) get by auto
  with ok tick vers(1) clock drops pages_ok_sub [OF _ sub] show ?thesis
    by (simp add: sub_entries_def entries_ok_def)
qed

lemma version_pages_lru [simp]: "version_pages (es\<lparr>et_lru := l\<rparr>) = version_pages es"
  by (simp add: version_pages_def fun_eq_iff)

lemma versions_wf_lru [simp]: "versions_wf (es\<lparr>et_lru := l\<rparr>) = versions_wf es"
  by (simp add: versions_wf_def)

lemma version_pages_version: "entries_ok es \<Longrightarrow> k \<in> set (version_pages es v) \<Longrightarrow> fst k = v"
  by (simp add: entries_ok_def versions_exact_def)

lemma entries_remove_sub:
  assumes ok: "entries_ok es"
  shows "(\<And>t p. get_page es k = Some (t, p) \<Longrightarrow> P k (cp_ciphertext p)) \<Longrightarrow> sub_entries P es (snd (entries_remove k es))"
    and "get_page (snd (entries_remove k es)) = (get_page es)(k := None)"
proof -
  let ?l = "snd (tick_remove by_cache k (et_lru es))"
  have fst_remove: "fst (tick_remove by_cache k (et_lru es)) = None \<longleftrightarrow> get_page es k = None"
    by (auto simp: tick_remove_def get_page_def split: option.split)
  have es': "snd (entries_remove k es) =
      (if get_page es k = None then es else forget_version k (es\<lparr>et_lru := ?l\<rparr>))"
    using fst_remove by (auto simp: entries_remove_def split: prod.split option.split)
  show "get_page (snd (entries_remove k es)) = (get_page es)(k := None)"
    unfolding es' by (auto simp: get_page_def fun_eq_iff)
  show "sub_entries P es (snd (entries_remove k es))"
    if P: "\<And>t p. get_page es k = Some (t, p) \<Longrightarrow> P k (cp_ciphertext p)"
  proof (cases "get_page es k = None")
    case False
    have "set (version_pages (forget_version k (es\<lparr>et_lru := ?l\<rparr>)) v) = set (version_pages es v) - {k}" for v
      using version_pages_version [OF ok, of k v] by (auto simp: forget_version_pages)
    with False ok P show ?thesis
      unfolding es' by (intro sub_entriesI [where K = "{k}"])
        (auto simp: entries_ok_def forget_version_wf get_page_def fun_eq_iff)
  qed (simp add: es' sub_entries_refl ok)
qed

lemma entries_remove_all_sub:
  "entries_ok es \<Longrightarrow> (\<And>k c. k \<in> set ks \<Longrightarrow> P k c) \<Longrightarrow>
     sub_entries P es (fold (\<lambda>k es. snd (entries_remove k es)) ks es)"
proof (induction ks arbitrary: es)
  case (Cons k ks)
  have "sub_entries P es (snd (entries_remove k es))"
    using Cons.prems(2) by (intro entries_remove_sub(1) [OF Cons.prems(1)]) simp
  moreover from this have "entries_ok (snd (entries_remove k es))" by (simp add: sub_entries_def)
  ultimately show ?case using Cons.IH Cons.prems(2) sub_entries_trans by fastforce
qed (simp add: sub_entries_refl)

lemma tick_remove_all_get:
  "hm_get (tl_pages (tick_remove_all grp ks l)) k = (if k \<in> set ks then None else hm_get (tl_pages l) k)"
  by (induction ks arbitrary: l) auto

text \<open>A pass over the verified entries: the keys a visitor collects are the keys it removes.\<close>

lemma scan_visits_removed:
  "k \<in> set (snd (snd (scan_visits visit s xs))) \<Longrightarrow> \<exists>v s0. (k, v) \<in> set xs \<and> fst (visit s0 k v) = Visit_Remove"
proof (induction visit s xs rule: scan_visits.induct)
  case (2 visit s k' v es)
  obtain d s' where d: "visit s k' v = (d, s')" by fastforce
  with 2 show ?case by (cases d) (auto split: prod.splits, (metis fst_conv)+)
qed simp

lemma reclaim_pass_sub:
  assumes ok: "entries_ok es"
    and keys: "\<And>xs. collected (fst (scan_visits visit s xs)) = snd (snd (scan_visits visit s xs))"
    and removes: "\<And>s k v. fst (visit s k v) = Visit_Remove \<Longrightarrow> page_ok k v \<Longrightarrow> P k (cp_ciphertext v)"
  obtains s' l where "tick_reclaim by_cache visit s (et_lru es) = Some (s', l)"
    and "sub_entries P es (forget_versions (collected s') (es\<lparr>et_lru := l\<rparr>))"
proof -
  let ?l = "et_lru es" and ?cs = "tick_candidates (et_lru es)"
  have tick: "tick_ok by_cache ?l" using ok by (simp add: entries_ok_def)
  let ?xs = "map (tick_entry_of ?l) ?cs"
  obtain s' n ks where scan: "scan_visits visit s ?xs = (s', n, ks)" by (metis prod_cases3)
  have n: "n \<le> length ?cs" using scan_visits_le [of visit s ?xs] scan by simp
  note hand = hand_at_ok(1) [OF tick n]
  let ?l' = "tick_remove_all by_cache ks (hand_at ?cs n ?l)"
  have run: "tick_reclaim by_cache visit s ?l = Some (s', ?l')"
    using reclaim_scan_eq [OF tick_candidates_entries(1,2) [OF tick], of by_cache visit s] scan
    by (simp add: tick_reclaim_def)
  have "collected s' = ks" using keys [of ?xs] scan by simp
  moreover have "sub_entries P es (forget_versions ks (es\<lparr>et_lru := ?l'\<rparr>))"
  proof (rule sub_entriesI [OF ok, where K = "set ks"])
    show "tick_ok by_cache (et_lru (forget_versions ks (es\<lparr>et_lru := ?l'\<rparr>)))"
      "tl_clock (et_lru (forget_versions ks (es\<lparr>et_lru := ?l'\<rparr>))) = tl_clock ?l"
      using tick_remove_all_ok [OF hand, of ks] by simp_all
    show "get_page (forget_versions ks (es\<lparr>et_lru := ?l'\<rparr>)) = (\<lambda>k. if k \<in> set ks then None else get_page es k)"
      by (simp add: get_page_def tick_remove_all_get hand_at_def fun_eq_iff)
    show "versions_wf (forget_versions ks (es\<lparr>et_lru := ?l'\<rparr>))"
      using ok by (intro forget_versions_wf) (simp add: entries_ok_def)
    show "set (version_pages (forget_versions ks (es\<lparr>et_lru := ?l'\<rparr>)) v) = set (version_pages es v) - set ks" for v
      using forget_versions_pages [of "es\<lparr>et_lru := ?l'\<rparr>" ks v] version_pages_version [OF ok] by simp
    show "P k (cp_ciphertext p)" if "k \<in> set ks" and p: "get_page es k = Some (t, p)" for k t p
    proof -
      from that(1) scan scan_visits_removed [of k visit s ?xs] obtain v s0
        where v: "(k, v) \<in> set ?xs" "fst (visit s0 k v) = Visit_Remove" by auto
      then have "v = p" using p by (auto simp: tick_entry_of_def get_page_def)
      moreover have "page_ok k p" using ok p by (simp add: entries_ok_def pages_ok_def)
      ultimately show ?thesis using removes v(2) by blast
    qed
  qed
  ultimately show ?thesis using that [OF run] by simp
qed

subsection \<open>Unverified entries\<close>

definition sub_cipher :: "(page_id \<Rightarrow> ciphertext_page \<Rightarrow> bool) \<Rightarrow> ciphertext_entries \<Rightarrow> ciphertext_entries \<Rightarrow> bool" where
  "sub_cipher P ces ces' \<longleftrightarrow>
     ordered_ok by_cache ces' \<and>
     drops (\<lambda>k p. P k (cc_ciphertext (up_copy p))) (bt_get (ol_pages ces)) (bt_get (ol_pages ces')) \<and>
     hm_get (ol_ticks ces') \<subseteq>\<^sub>m hm_get (ol_ticks ces) \<and> ol_clock ces' = ol_clock ces"

lemma sub_cipher_refl: "ordered_ok by_cache ces \<Longrightarrow> sub_cipher P ces ces"
  by (simp add: sub_cipher_def)

lemma sub_cipher_trans: "sub_cipher P a b \<Longrightarrow> sub_cipher P b c \<Longrightarrow> sub_cipher P a c"
  by (auto simp: sub_cipher_def intro: drops_trans map_le_trans)

lemma sub_cipher_mono: "sub_cipher P ces ces' \<Longrightarrow> (\<And>k c. P k c \<Longrightarrow> Q k c) \<Longrightarrow> sub_cipher Q ces ces'"
  by (auto simp: sub_cipher_def intro: drops_mono)

lemma sub_cipher_le: "sub_cipher P ces ces' \<Longrightarrow> bt_get (ol_pages ces') \<subseteq>\<^sub>m bt_get (ol_pages ces)"
  unfolding sub_cipher_def by (blast dest: drops_le)

lemma upd_None_le: "f(k := None) \<subseteq>\<^sub>m f"
  by (simp add: map_le_def)

lemma ordered_remove_sub:
  assumes "ordered_ok by_cache ces"
    and "\<And>p. bt_get (ol_pages ces) k = Some p \<Longrightarrow> P k (cc_ciphertext (up_copy p))"
  shows "sub_cipher P ces (snd (ordered_remove by_cache k ces))"
  using assms by (simp add: sub_cipher_def ordered_remove_ticks upd_None_le drops_upd)

lemma ordered_remove_all_sub:
  "ordered_ok by_cache ces \<Longrightarrow> (\<And>k c. k \<in> set ks \<Longrightarrow> P k c) \<Longrightarrow>
     sub_cipher P ces (fold (\<lambda>k ces. snd (ordered_remove by_cache k ces)) ks ces)"
proof (induction ks arbitrary: ces)
  case (Cons k ks)
  have "sub_cipher P ces (snd (ordered_remove by_cache k ces))"
    using Cons.prems(2) by (intro ordered_remove_sub [OF Cons.prems(1)]) simp
  moreover from this have "ordered_ok by_cache (snd (ordered_remove by_cache k ces))" by (simp add: sub_cipher_def)
  ultimately show ?case using Cons.IH Cons.prems(2) sub_cipher_trans by fastforce
qed (simp add: sub_cipher_refl)

lemma ordered_advance_sub:
  "ordered_ok by_cache ces \<Longrightarrow> sub_cipher P ces (ces\<lparr>ol_lanes := lanes_advance c t (ol_lanes ces)\<rparr>)"
  by (simp add: sub_cipher_def ordered_ok_def lanes_list_def)

text \<open>What a pass may reclaim: entries no one else shares, for an owner only the owner's.\<close>

definition reclaimable :: "memory_env \<Rightarrow> cache_id option \<Rightarrow> page_id \<Rightarrow> ciphertext_page \<Rightarrow> bool" where
  "reclaimable env owner k c \<longleftrightarrow>
     \<not> me_shared env (ct_inner c) \<and> (case owner of None \<Rightarrow> True | Some x \<Rightarrow> page_cache k = x)"

lemma reclaimable_any: "reclaimable env owner k c \<Longrightarrow> reclaimable env None k c"
  by (simp add: reclaimable_def)

text \<open>A loop over keys that are present and distinct: an entry stays until its own turn.\<close>

lemma later_present:
  assumes "\<forall>x \<in> set (k # ks). f x \<noteq> None" and "distinct (k # ks)" and "g = f \<or> g = f(k := None)"
  shows "\<forall>x \<in> set ks. g x \<noteq> None"
  using assms by auto

lemma expire_unverified_sub:
  assumes "ordered_ok by_cache ces" and "\<forall>k \<in> snd ` set cs. bt_get (ol_pages ces) k \<noteq> None"
    and "distinct (map snd cs)"
  shows "\<exists>gone' ces'. expire_unverified env cs (gone, ces) = Some (gone @ gone', ces') \<and> sub_cipher (reclaimable env None) ces ces' \<and>
    set gone' \<subseteq> snd ` set cs \<and> length gone' \<le> length cs \<and>
    bt_get (ol_pages ces') = (\<lambda>x. if x \<in> set gone' then None else bt_get (ol_pages ces) x)"
  using assms
proof (induction cs arbitrary: gone ces)
  case (Cons c cs)
  obtain t k where c: "c = (t, k)" by fastforce
  obtain p where p: "bt_get (ol_pages ces) k = Some p" using Cons.prems(2) c by auto
  let ?ces = "if idle_unverified env p then snd (ordered_remove by_cache k ces) else ces"
  have sub: "sub_cipher (reclaimable env None) ces ?ces" 
    using Cons.prems(1) p by (auto simp: sub_cipher_refl reclaimable_def idle_unverified_def intro!: ordered_remove_sub)
  then have ok: "ordered_ok by_cache ?ces" by (simp add: sub_cipher_def)
  have "\<forall>x \<in> set (map snd cs). bt_get (ol_pages ?ces) x \<noteq> None"
    using Cons.prems(2,3) c by (intro later_present [of k "map snd cs" "bt_get (ol_pages ces)"]) auto
  then have "\<forall>x \<in> snd ` set cs. bt_get (ol_pages ?ces) x \<noteq> None" by simp
  from Cons.IH [OF ok this, of "if idle_unverified env p then gone @ [k] else gone"] Cons.prems(3)
  obtain gone' ces' where IH: "expire_unverified env cs (if idle_unverified env p then gone @ [k] else gone, ?ces) =
      Some ((if idle_unverified env p then gone @ [k] else gone) @ gone', ces')" "sub_cipher (reclaimable env None) ?ces ces'"
    "set gone' \<subseteq> snd ` set cs" "length gone' \<le> length cs"
    "bt_get (ol_pages ces') = (\<lambda>x. if x \<in> set gone' then None else bt_get (ol_pages ?ces) x)" by auto
  let ?g = "if idle_unverified env p then k # gone' else gone'"
  have "sub_cipher (reclaimable env None) ces ces'" by (rule sub_cipher_trans [OF sub IH(2)])
  moreover have "bt_get (ol_pages ces') = (\<lambda>x. if x \<in> set ?g then None else bt_get (ol_pages ces) x)"
    unfolding IH(5) by auto
  moreover have "expire_unverified env (c # cs) (gone, ces) = Some (gone @ ?g, ces')" using IH(1) c p by (simp split: if_splits)
  moreover have "set ?g \<subseteq> snd ` set (c # cs)" "length ?g \<le> length (c # cs)" using IH(3,4) c by auto
  ultimately show ?case by blast
qed (simp add: sub_cipher_refl)

lemma expire_verified_sub:
  assumes "entries_ok es" and "\<forall>k \<in> snd ` set cs. get_page es k \<noteq> None" and "distinct (map snd cs)"
  shows "\<exists>gone' es'. expire_verified env cs (gone, es) = Some (gone @ gone', es') \<and> sub_entries (reclaimable env None) es es' \<and>
    set gone' \<subseteq> snd ` set cs \<and> length gone' \<le> length cs \<and>
    get_page es' = (\<lambda>x. if x \<in> set gone' then None else get_page es x)"
  using assms
proof (induction cs arbitrary: gone es)
  case (Cons c cs)
  obtain t k where c: "c = (t, k)" by fastforce
  obtain u p where p: "get_page es k = Some (u, p)" using Cons.prems(2) c by auto
  let ?es = "if idle_page env p then snd (entries_remove k es) else es"
  have sub: "sub_entries (reclaimable env None) es ?es" 
    using Cons.prems(1) p by (auto simp: sub_entries_refl reclaimable_def idle_page_def intro!: entries_remove_sub(1))
  then have ok: "entries_ok ?es" by (simp add: sub_entries_def)
  have "\<forall>x \<in> set (map snd cs). get_page ?es x \<noteq> None"
    using Cons.prems c entries_remove_sub(2) [OF Cons.prems(1), of k]
    by (intro later_present [of k "map snd cs" "get_page es"]) auto
  then have "\<forall>x \<in> snd ` set cs. get_page ?es x \<noteq> None" by simp
  from Cons.IH [OF ok this, of "if idle_page env p then gone @ [k] else gone"] Cons.prems(3)
  obtain gone' es' where IH: "expire_verified env cs (if idle_page env p then gone @ [k] else gone, ?es) =
      Some ((if idle_page env p then gone @ [k] else gone) @ gone', es')" "sub_entries (reclaimable env None) ?es es'"
    "set gone' \<subseteq> snd ` set cs" "length gone' \<le> length cs"
    "get_page es' = (\<lambda>x. if x \<in> set gone' then None else get_page ?es x)" by auto
  let ?g = "if idle_page env p then k # gone' else gone'"
  have "sub_entries (reclaimable env None) es es'" by (rule sub_entries_trans [OF sub IH(2)])
  moreover have "get_page es' = (\<lambda>x. if x \<in> set ?g then None else get_page es x)"
    unfolding IH(5) using entries_remove_sub(2) [OF Cons.prems(1), of k] by auto
  moreover have "expire_verified env (c # cs) (gone, es) = Some (gone @ ?g, es')"
    using IH(1) c p by (simp add: get_page_def split: if_splits)
  moreover have "set ?g \<subseteq> snd ` set (c # cs)" "length ?g \<le> length (c # cs)" using IH(3,4) c by auto
  ultimately show ?case by blast
qed (simp add: sub_entries_refl)

lemma lane_unverified_sub:
  assumes "ordered_ok by_cache ces" and "\<forall>k \<in> snd ` set cs. bt_get (ol_pages ces) k \<noteq> None"
    and "distinct (map snd cs)" and "\<forall>k \<in> snd ` set cs. page_cache k = c"
  shows "\<exists>r ces'. reclaim_lane_unverified env c bytes cs released ces = Some (r, ces') \<and> sub_cipher (reclaimable env (Some c)) ces ces'"
  using assms
proof (induction cs arbitrary: released ces)
  case (Cons x cs)
  obtain t k where x: "x = (t, k)" by fastforce
  obtain p where p: "bt_get (ol_pages ces) k = Some p" using Cons.prems(2) x by auto
  let ?a = "ces\<lparr>ol_lanes := lanes_advance c t (ol_lanes ces)\<rparr>"
  let ?ces = "if idle_unverified env p then snd (ordered_remove by_cache k ?a) else ?a"
  have a: "sub_cipher (reclaimable env (Some c)) ces ?a" by (rule ordered_advance_sub [OF Cons.prems(1)])
  then have "ordered_ok by_cache ?a" by (simp add: sub_cipher_def)
  then have "sub_cipher (reclaimable env (Some c)) ?a (snd (ordered_remove by_cache k ?a))" if "idle_unverified env p"
    using p x that Cons.prems(4) by (intro ordered_remove_sub) (auto simp: reclaimable_def idle_unverified_def)
  then have sub: "sub_cipher (reclaimable env (Some c)) ces ?ces" using sub_cipher_trans [OF a] a by simp
  then have ok: "ordered_ok by_cache ?ces" by (simp add: sub_cipher_def)
  have "\<forall>y \<in> set (map snd cs). bt_get (ol_pages ?ces) y \<noteq> None"
    using Cons.prems(2,3) x by (intro later_present [of k "map snd cs" "bt_get (ol_pages ces)"]) auto
  then have "\<forall>y \<in> snd ` set cs. bt_get (ol_pages ?ces) y \<noteq> None" by simp
  from Cons.IH [OF ok this] Cons.prems(3,4) sub_cipher_trans [OF sub]
  have "\<exists>r ces'. reclaim_lane_unverified env c bytes cs n ?ces = Some (r, ces') \<and> sub_cipher (reclaimable env (Some c)) ces ces'" for n
    by fastforce
  with x p show ?case
    by (cases "idle_unverified env p") (auto simp: Let_def sub_cipher_refl Cons.prems(1))
qed (simp add: sub_cipher_refl)

lemma lane_advance_sub:
  assumes "entries_ok es"
  shows "sub_entries P es (es\<lparr>et_lru := (et_lru es)\<lparr>tl_lanes := lanes_advance c t (tl_lanes (et_lru es))\<rparr>\<rparr>)"
  using assms
  by (simp add: sub_entries_def entries_ok_def tick_ok_def lanes_list_def get_page_def versions_exact_def)

lemma lane_verified_sub:
  assumes "entries_ok es" and "\<forall>k \<in> snd ` set cs. get_page es k \<noteq> None" and "distinct (map snd cs)"
    and "\<forall>k \<in> snd ` set cs. page_cache k = c"
  shows "\<exists>r q' es'. reclaim_lane_verified env c bytes release cs released q es = Some (r, q', es') \<and> sub_entries (reclaimable env (Some c)) es es'"
  using assms
proof (induction cs arbitrary: released q es)
  case (Cons x cs)
  obtain t k where x: "x = (t, k)" by fastforce
  obtain u p where p: "get_page es k = Some (u, p)" using Cons.prems(2) x by auto
  let ?a = "es\<lparr>et_lru := (et_lru es)\<lparr>tl_lanes := lanes_advance c t (tl_lanes (et_lru es))\<rparr>\<rparr>"
  let ?es = "if idle_page env p then snd (entries_remove k ?a) else ?a"
  have a: "sub_entries (reclaimable env (Some c)) es ?a" by (rule lane_advance_sub [OF Cons.prems(1)])
  then have ok_a: "entries_ok ?a" by (simp add: sub_entries_def)
  have same: "get_page ?a = get_page es" by (simp add: get_page_def)
  have "sub_entries (reclaimable env (Some c)) ?a (snd (entries_remove k ?a))" if "idle_page env p"
    using p x that Cons.prems(4) same
    by (intro entries_remove_sub(1) [OF ok_a]) (auto simp: reclaimable_def idle_page_def)
  then have sub: "sub_entries (reclaimable env (Some c)) es ?es" using sub_entries_trans [OF a] a by simp
  then have ok: "entries_ok ?es" by (simp add: sub_entries_def)
  have "\<forall>y \<in> set (map snd cs). get_page ?es y \<noteq> None"
    using Cons.prems(2,3) x same entries_remove_sub(2) [OF ok_a, of k]
    by (intro later_present [of k "map snd cs" "get_page es"]) auto
  then have "\<forall>y \<in> snd ` set cs. get_page ?es y \<noteq> None" by simp
  from Cons.IH [OF ok this] Cons.prems(3,4) sub_entries_trans [OF sub]
  have "\<exists>r q' es'. reclaim_lane_verified env c bytes release cs n q ?es = Some (r, q', es') \<and> sub_entries (reclaimable env (Some c)) es es'" for n q
    by fastforce
  moreover obtain m q1 where "release q k (cp_ciphertext p) = (m, q1)" by fastforce
  ultimately show ?case
    using x p a
    by (cases "idle_page env p") (auto simp: Let_def sub_entries_refl Cons.prems(1) get_page_def)
qed (simp add: sub_entries_refl)

subsection \<open>The cache\<close>

definition cipher_ok :: "page_id \<Rightarrow> unverified_page \<Rightarrow> bool" where
  "cipher_ok k p \<longleftrightarrow>
     en_page (ct_envelope (cc_ciphertext (up_copy p))) = k \<and> vm_version (cc_metadata (up_copy p)) = fst k"

definition cipher_at :: "memory_cache \<Rightarrow> page_id \<Rightarrow> unverified_page option" where
  "cipher_at mc = bt_get (ol_pages (mc_ciphertext mc))"

definition mem_ok :: "memory_cache \<Rightarrow> bool" where
  "mem_ok mc \<longleftrightarrow>
     entries_ok (mc_entries mc) \<and> ordered_ok by_cache (mc_ciphertext mc) \<and>
     (\<forall>k p. cipher_at mc k = Some p \<longrightarrow> cipher_ok k p) \<and>
     (\<forall>k. mc_get mc k = None \<or> cipher_at mc k = None)"

definition sub_memory :: "(page_id \<Rightarrow> ciphertext_page \<Rightarrow> bool) \<Rightarrow> memory_cache \<Rightarrow> memory_cache \<Rightarrow> bool" where
  "sub_memory P mc mc' \<longleftrightarrow>
     sub_entries P (mc_entries mc) (mc_entries mc') \<and> sub_cipher P (mc_ciphertext mc) (mc_ciphertext mc') \<and>
     mc_expiry mc' = mc_expiry mc"

lemma mc_get_page: "mc_get mc = get_page (mc_entries mc)"
  by (simp add: mc_get_def get_page_def fun_eq_iff)

lemma sub_memory_refl: "mem_ok mc \<Longrightarrow> sub_memory P mc mc"
  by (simp add: sub_memory_def mem_ok_def sub_entries_refl sub_cipher_refl)

lemma sub_memory_trans: "sub_memory P a b \<Longrightarrow> sub_memory P b c \<Longrightarrow> sub_memory P a c"
  by (auto simp: sub_memory_def intro: sub_entries_trans sub_cipher_trans)

lemma sub_memory_mono: "sub_memory P a b \<Longrightarrow> (\<And>k c. P k c \<Longrightarrow> Q k c) \<Longrightarrow> sub_memory Q a b"
  by (auto simp: sub_memory_def intro: sub_entries_mono sub_cipher_mono)

lemma sub_memory_le:
  assumes "sub_memory P mc mc'"
  shows "get_page (mc_entries mc') \<subseteq>\<^sub>m get_page (mc_entries mc)" and "cipher_at mc' \<subseteq>\<^sub>m cipher_at mc"
  using assms sub_entries_le sub_cipher_le unfolding sub_memory_def cipher_at_def by blast+

lemma sub_memory_ok:
  assumes "mem_ok mc" and "sub_memory P mc mc'"
  shows "mem_ok mc'"
proof -
  have "get_page (mc_entries mc') \<subseteq>\<^sub>m get_page (mc_entries mc)" "cipher_at mc' \<subseteq>\<^sub>m cipher_at mc"
    using sub_memory_le [OF assms(2)] .
  with assms show ?thesis
    unfolding mem_ok_def mc_get_page sub_memory_def sub_entries_def sub_cipher_def
    by (meson map_le_None map_le_Some)
qed

lemma card_dom_le:
  assumes "g \<subseteq>\<^sub>m f" and "finite (dom f)"
  shows "card (dom g) \<le> card (dom f)"
  using assms by (intro card_mono map_le_implies_dom_le)

lemma sub_memory_len:
  assumes "mem_ok mc" and "sub_memory P mc mc'"
  shows "mc_len mc' \<le> mc_len mc"
proof -
  have size: "mc_len x = card (dom (get_page (mc_entries x))) + card (dom (cipher_at x))"
    and fin: "finite (dom (get_page (mc_entries x)))" "finite (dom (cipher_at x))" if "mem_ok x" for x
    using that hm.count_card [of "tl_pages (et_lru (mc_entries x))"] bt.count_card [of "ol_pages (mc_ciphertext x)"]
      hm.finite_get [of "tl_pages (et_lru (mc_entries x))"] bt.finite_get [of "ol_pages (mc_ciphertext x)"]
    by (simp_all add: mem_ok_def entries_ok_def tick_ok_def ordered_ok_def mc_len_def tick_len_def get_page_def
        cipher_at_def)
  have "get_page (mc_entries mc') \<subseteq>\<^sub>m get_page (mc_entries mc)" "cipher_at mc' \<subseteq>\<^sub>m cipher_at mc"
    using sub_memory_le [OF assms(2)] .
  from card_dom_le [OF this(1) fin(1) [OF assms(1)]] card_dom_le [OF this(2) fin(2) [OF assms(1)]]
  show ?thesis using size [OF assms(1)] size [OF sub_memory_ok [OF assms]] by linarith
qed

lemma sub_memory_entries: "mem_ok mc \<Longrightarrow> sub_entries P (mc_entries mc) es \<Longrightarrow> sub_memory P mc (mc\<lparr>mc_entries := es\<rparr>)"
  by (simp add: sub_memory_def mem_ok_def sub_cipher_refl)

lemma sub_memory_cipher:
  "mem_ok mc \<Longrightarrow> sub_cipher P (mc_ciphertext mc) ces \<Longrightarrow> sub_memory P mc (mc\<lparr>mc_ciphertext := ces\<rparr>)"
  by (simp add: sub_memory_def mem_ok_def sub_entries_refl)

lemma sub_memory_cursor [simp]:
  "sub_memory P mc (mc'\<lparr>mc_ciphertext_cursor := c\<rparr>) = sub_memory P mc mc'"
  "sub_memory P mc (mc'\<lparr>mc_pressure_cursor := d\<rparr>) = sub_memory P mc mc'"
  by (simp_all add: sub_memory_def)

lemma mem_ok_cursor [simp]:
  "mem_ok (mc\<lparr>mc_ciphertext_cursor := c\<rparr>) = mem_ok mc"
  "mem_ok (mc\<lparr>mc_pressure_cursor := d\<rparr>) = mem_ok mc"
  by (simp_all add: mem_ok_def mc_get_def cipher_at_def)

subsubsection \<open>Reclaiming only drops entries\<close>

lemma bt_takeWhile: "bt_ok m \<Longrightarrow> takeWhile (\<lambda>p. fst p \<le> c) m = bt_upto c m"
proof (induction m)
  case (Cons p m)
  then have "takeWhile (\<lambda>p. fst p \<le> c) m = bt_upto c m" and less: "\<forall>q \<in> set m. fst p < fst q"
    by (simp_all add: bt_ok_Cons)
  moreover have "filter (\<lambda>p. fst p \<le> c) m = []" if "\<not> fst p \<le> c"
    using less that by (fastforce simp: filter_empty_conv)
  ultimately show ?case by (simp add: bt_upto_def)
qed (simp add: bt_upto_def)

lemma ordered_candidates_keys:
  assumes "bt_ok (ol_pages l)"
  shows "set (ordered_candidates l cursor) \<subseteq> dom (bt_get (ol_pages l))" and "distinct (ordered_candidates l cursor)"
proof -
  note upto = bt_takeWhile [OF assms]
  have eq: "ordered_candidates l cursor = take RECLAIM_WINDOW (map fst (cursor_order cursor (ol_pages l)))"
    by (cases cursor) (simp_all add: ordered_candidates_def cursor_order_def wrap_after_def upto takeWhile_eq_Nil_iff)
  have "mset (cursor_order cursor (ol_pages l)) = mset (ol_pages l)"
    using bt_wrap_mset by (cases cursor) (simp_all add: cursor_order_def wrap_after_def)
  then have "mset (map fst (cursor_order cursor (ol_pages l))) = mset (map fst (ol_pages l))" by simp
  with bt_ok_distinct [OF assms] have "distinct (map fst (cursor_order cursor (ol_pages l)))"
    using mset_eq_imp_distinct_iff by blast
  then show "distinct (ordered_candidates l cursor)" unfolding eq by (rule distinct_take)
  have "set (ordered_candidates l cursor) \<subseteq> set (map fst (cursor_order cursor (ol_pages l)))"
    unfolding eq by (rule set_take_subset)
  then show "set (ordered_candidates l cursor) \<subseteq> dom (bt_get (ol_pages l))" by (simp add: dom_bt_get)
qed

lemma reclaim_unverified_sub:
  assumes "mem_ok mc" and "\<forall>k \<in> set keys. cipher_at mc k \<noteq> None" and "distinct keys"
  shows "\<exists>r mc'. reclaim_unverified env c bytes keys released mc = Some (r, mc') \<and> sub_memory (reclaimable env c) mc mc'"
  using assms
proof (induction keys arbitrary: released mc)
  case (Cons k keys)
  obtain p where p: "cipher_at mc k = Some p" using Cons.prems(2) by auto
  let ?m = "mc\<lparr>mc_ciphertext_cursor := Some k\<rparr>"
  let ?r = "?m\<lparr>mc_ciphertext := snd (ordered_remove by_cache k (mc_ciphertext mc))\<rparr>"
  have ok: "ordered_ok by_cache (mc_ciphertext mc)" using Cons.prems(1) by (simp add: mem_ok_def)
  have "sub_memory (reclaimable env c) mc ?m" using Cons.prems(1) by (simp add: sub_memory_refl)
  moreover have "mem_ok ?m" using Cons.prems(1) by simp
  then have "sub_memory (reclaimable env c) ?m ?r" if "reclaimable env c k (cc_ciphertext (up_copy p))"
    using that p ordered_remove_sub [OF ok, of k "reclaimable env c"]
    by (intro sub_memory_cipher) (simp_all add: cipher_at_def)
  ultimately have subs: "sub_memory (reclaimable env c) mc ?m"
    "reclaimable env c k (cc_ciphertext (up_copy p)) \<Longrightarrow> sub_memory (reclaimable env c) mc ?r"
    using sub_memory_trans by blast+
  have "\<forall>x \<in> set keys. cipher_at ?m x \<noteq> None" "\<forall>x \<in> set keys. cipher_at ?r x \<noteq> None"
    using Cons.prems(2,3) by (auto simp: cipher_at_def)
  moreover have IH: "\<exists>r mc'. reclaim_unverified env c bytes keys n x = Some (r, mc') \<and> sub_memory (reclaimable env c) mc mc'"
    if sub: "sub_memory (reclaimable env c) mc x" and here: "\<forall>y \<in> set keys. cipher_at x y \<noteq> None" for n x
  proof -
    have "distinct keys" using Cons.prems(3) by simp
    from Cons.IH [OF sub_memory_ok [OF Cons.prems(1) sub] here this, of n]
    obtain r mc' where "reclaim_unverified env c bytes keys n x = Some (r, mc')" "sub_memory (reclaimable env c) x mc'" by blast
    with sub_memory_trans [OF sub] show ?thesis by blast
  qed
  ultimately have IHs: "\<exists>r mc'. reclaim_unverified env c bytes keys n ?m = Some (r, mc') \<and> sub_memory (reclaimable env c) mc mc'"
    "reclaimable env c k (cc_ciphertext (up_copy p)) \<Longrightarrow>
      \<exists>r mc'. reclaim_unverified env c bytes keys n ?r = Some (r, mc') \<and> sub_memory (reclaimable env c) mc mc'" for n
    using subs by blast+
  have allowed: "reclaimable env c k (cc_ciphertext (up_copy p)) \<longleftrightarrow>
      idle_unverified env p \<and> \<not> (case c of None \<Rightarrow> False | Some x \<Rightarrow> x \<noteq> page_cache k)"
    by (auto simp: reclaimable_def idle_unverified_def split: option.split)
  show ?case
    using p IHs sub_memory_refl [OF Cons.prems(1)] unfolding allowed
    by (simp add: Let_def cipher_at_def del: sub_memory_cursor)
qed (simp add: sub_memory_refl)

lemma reclaim_ciphertext_sub:
  assumes "mem_ok mc"
  shows "\<exists>r mc'. reclaim_ciphertext env c bytes mc = Some (r, mc') \<and> sub_memory (reclaimable env c) mc mc'"
proof -
  have "bt_ok (ol_pages (mc_ciphertext mc))" using assms by (simp add: mem_ok_def ordered_ok_def)
  from ordered_candidates_keys [OF this, of "mc_ciphertext_cursor mc"] reclaim_unverified_sub [OF assms]
  show ?thesis unfolding reclaim_ciphertext_def cipher_at_def by blast
qed

lemma visit_keys:
  assumes "\<And>s k v. collected (snd (visit s k v)) =
    (if fst (visit s k v) = Visit_Remove then collected s @ [k] else collected s)"
  shows "collected (fst (scan_visits visit s xs)) = collected s @ snd (snd (scan_visits visit s xs))"
proof (induction xs arbitrary: s)
  case (Cons x xs)
  obtain k v where x: "x = (k, v)" by fastforce
  obtain d s' where d: "visit s k v = (d, s')" by fastforce
  obtain s'' n ks where rest: "scan_visits visit s' xs = (s'', n, ks)" by (metis prod_cases3)
  from assms [of s k v] d have "collected s' = (if d = Visit_Remove then collected s @ [k] else collected s)" by simp
  with Cons.IH [of s'] x d rest show ?case by (cases d) simp_all
qed simp

lemma evict_visit_keys:
  "snd (fst (scan_visits (evict_visit env bytes) (r, []) xs)) =
     snd (snd (scan_visits (evict_visit env bytes) (r, []) xs))"
  by (subst visit_keys [where collected = snd]) (auto simp: evict_visit_def split: if_splits)

lemma reclaim_visit_keys:
  "fst (snd (fst (scan_visits (reclaim_visit env c bytes release) (r, [], q) xs))) =
     snd (snd (scan_visits (reclaim_visit env c bytes release) (r, [], q) xs))"
  by (subst visit_keys [where collected = "\<lambda>s. fst (snd s)"])
    (simp_all add: reclaim_visit_def Let_def split: prod.split option.split)

lemma evict_visit_removes:
  "fst (evict_visit env bytes s k p) = Visit_Remove \<Longrightarrow> page_ok k p \<Longrightarrow> reclaimable env None k (cp_ciphertext p)"
  by (auto simp: evict_visit_def reclaimable_def idle_page_def split: prod.splits if_splits)

lemma reclaim_visit_removes:
  "fst (reclaim_visit env c bytes release s k p) = Visit_Remove \<Longrightarrow> page_ok k p \<Longrightarrow> reclaimable env c k (cp_ciphertext p)"
  by (auto simp: reclaim_visit_def reclaimable_def idle_page_def page_ok_def page_cache_def Let_def
      split: prod.splits if_splits option.splits)

lemma evict_idle_sub:
  assumes "mem_ok mc"
  shows "\<exists>r mc'. evict_idle env bytes mc = Some (r, mc') \<and> sub_memory (reclaimable env None) mc mc'"
proof -
  obtain r mc1 where one: "reclaim_ciphertext env None bytes mc = Some (r, mc1)" "sub_memory (reclaimable env None) mc mc1"
    using reclaim_ciphertext_sub [OF assms] by blast
  have ok: "mem_ok mc1" by (rule sub_memory_ok [OF assms one(2)])
  then have "entries_ok (mc_entries mc1)" by (simp add: mem_ok_def)
  then obtain s' l where two: "tick_reclaim by_cache (evict_visit env bytes) (r, []) (et_lru (mc_entries mc1)) = Some (s', l)"
    "sub_entries (reclaimable env None) (mc_entries mc1) (forget_versions (snd s') ((mc_entries mc1)\<lparr>et_lru := l\<rparr>))"
    by (rule reclaim_pass_sub [where collected = snd and visit = "evict_visit env bytes" and s = "(r, [])"])
      (simp add: evict_visit_keys, erule (1) evict_visit_removes, blast)
  have "sub_memory (reclaimable env None) mc1 (mc1\<lparr>mc_entries := forget_versions (snd s') ((mc_entries mc1)\<lparr>et_lru := l\<rparr>)\<rparr>)"
    using ok two(2) by (intro sub_memory_entries)
  with one(2) have "sub_memory (reclaimable env None) mc (mc1\<lparr>mc_entries := forget_versions (snd s') ((mc_entries mc1)\<lparr>et_lru := l\<rparr>)\<rparr>)"
    by (rule sub_memory_trans)
  with one(1) two(1) show ?thesis by (cases s') (simp add: evict_idle_def)
qed

lemma reclaim_idle_sub:
  assumes "mem_ok mc"
  shows "\<exists>r q' mc'. reclaim_idle env b c bytes release q mc = Some (r, q', mc') \<and> sub_memory (reclaimable env c) mc mc'"
proof -
  obtain r mc1 where one: "reclaim_ciphertext env c bytes mc = Some (r, mc1)" "sub_memory (reclaimable env c) mc mc1"
    using reclaim_ciphertext_sub [OF assms] by blast
  have ok: "mem_ok mc1" by (rule sub_memory_ok [OF assms one(2)])
  then have "entries_ok (mc_entries mc1)" by (simp add: mem_ok_def)
  then obtain s' l where two: "tick_reclaim by_cache (reclaim_visit env c bytes release) (r, [], q)
      (et_lru (mc_entries mc1)) = Some (s', l)"
    "sub_entries (reclaimable env c) (mc_entries mc1) (forget_versions (fst (snd s')) ((mc_entries mc1)\<lparr>et_lru := l\<rparr>))"
    by (rule reclaim_pass_sub [where collected = "\<lambda>s. fst (snd s)" and
          visit = "reclaim_visit env c bytes release" and s = "(r, [], q)"])
      (simp add: reclaim_visit_keys, erule (1) reclaim_visit_removes, blast)
  have "sub_memory (reclaimable env c) mc1 (mc1\<lparr>mc_entries := forget_versions (fst (snd s')) ((mc_entries mc1)\<lparr>et_lru := l\<rparr>)\<rparr>)"
    using ok two(2) by (intro sub_memory_entries)
  with one(2) have "sub_memory (reclaimable env c) mc (mc1\<lparr>mc_entries := forget_versions (fst (snd s')) ((mc_entries mc1)\<lparr>et_lru := l\<rparr>)\<rparr>)"
    by (rule sub_memory_trans)
  with one(1) two(1) sub_memory_refl [OF assms] show ?thesis
    by (cases s') (simp add: reclaim_idle_def)
qed

lemma lane_candidates_keys:
  assumes "lanes_list grp order m" and "bt_ok order" and "distinct (map snd order)"
  shows "set (lanes_candidates m g) \<subseteq> set order" and "distinct (map snd (lanes_candidates m g))"
    and "\<forall>k \<in> snd ` set (lanes_candidates m g). grp k = Some g"
proof -
  have entries: "lane_entries m g = filter (\<lambda>p. grp (snd p) = Some g) order"
    using assms(1) by (simp add: lanes_list_def)
  obtain c where c: "lanes_candidates m g = take RECLAIM_WINDOW (wrap_after c (lane_entries m g))"
  proof (cases "bt_get m g")
    case None
    with that [of 0] show ?thesis
      by (simp add: lanes_candidates_def lane_entries_def wrap_after_def bt_above_def bt_upto_def)
  next
    case (Some lane)
    with that [of "ln_after lane"] show ?thesis by (simp add: lanes_candidates_def lane_entries_def)
  qed
  have "set (lanes_candidates m g) \<subseteq> set (wrap_after c (lane_entries m g))" unfolding c by (rule set_take_subset)
  then show "set (lanes_candidates m g) \<subseteq> set order" "\<forall>k \<in> snd ` set (lanes_candidates m g). grp k = Some g"
    by (auto simp: wrap_set entries)
  have "mset (wrap_after c (lane_entries m g)) = mset (lane_entries m g)"
    using bt_wrap_mset by (simp add: wrap_after_def)
  then have "mset (map snd (wrap_after c (lane_entries m g))) = mset (map snd (lane_entries m g))" by simp
  moreover have "distinct (map snd (lane_entries m g))"
    unfolding entries using assms(3) by (simp add: distinct_map_filter)
  ultimately have "distinct (map snd (wrap_after c (lane_entries m g)))" using mset_eq_imp_distinct_iff by blast
  then show "distinct (map snd (lanes_candidates m g))"
    unfolding c take_map [symmetric] by (rule distinct_take)
qed

lemma ordered_keys_distinct:
  assumes ok: "ordered_ok grp l"
  shows "distinct (map snd (ol_order l))"
proof -
  have "distinct (ol_order l)" using ok bt_ok_distinct [of "ol_order l"] by (simp add: ordered_ok_def distinct_map)
  moreover have "inj_on snd (set (ol_order l))"
  proof (rule inj_onI)
    fix p q
    assume pq: "p \<in> set (ol_order l)" "q \<in> set (ol_order l)" "snd p = snd q"
    from ordered_listed(1) [OF ok pq(1)] ordered_listed(1) [OF ok pq(2)] pq(3) have "fst p = fst q" by simp
    then show "p = q" using pq(3) by (rule prod_eqI)
  qed
  ultimately show ?thesis by (simp add: distinct_map)
qed

lemma reclaim_cache_sub:
  assumes "mem_ok mc"
  shows "\<exists>r q' mc'. reclaim_cache env c bytes release q mc = Some (r, q', mc') \<and> sub_memory (reclaimable env (Some c)) mc mc'"
proof -
  have oc: "ordered_ok by_cache (mc_ciphertext mc)" using assms by (simp add: mem_ok_def)
  have lanes: "lanes_list by_cache (ol_order (mc_ciphertext mc)) (ol_lanes (mc_ciphertext mc))"
    "bt_ok (ol_order (mc_ciphertext mc))" using oc by (simp_all add: ordered_ok_def)
  note cand = lane_candidates_keys [OF lanes ordered_keys_distinct [OF oc], of c]
  have "\<forall>k \<in> snd ` set (lanes_candidates (ol_lanes (mc_ciphertext mc)) c). bt_get (ol_pages (mc_ciphertext mc)) k \<noteq> None"
    using cand(1) ordered_listed(2) [OF oc] by blast
  moreover have "\<forall>k \<in> snd ` set (lanes_candidates (ol_lanes (mc_ciphertext mc)) c). page_cache k = c"
    using cand(3) by (simp add: by_cache_def)
  ultimately obtain r ces where
    one: "reclaim_lane_unverified env c bytes (lanes_candidates (ol_lanes (mc_ciphertext mc)) c) 0 (mc_ciphertext mc) =
      Some (r, ces)" "sub_cipher (reclaimable env (Some c)) (mc_ciphertext mc) ces"
    using lane_unverified_sub [OF oc _ cand(2), of c env bytes 0] by blast
  let ?mc = "mc\<lparr>mc_ciphertext := ces\<rparr>"
  have sub: "sub_memory (reclaimable env (Some c)) mc ?mc" by (rule sub_memory_cipher [OF assms one(2)])
  have ok: "mem_ok ?mc" by (rule sub_memory_ok [OF assms sub])
  have es: "entries_ok (mc_entries ?mc)" using ok by (simp add: mem_ok_def)
  have tick: "tick_ok by_cache (et_lru (mc_entries ?mc))" using es by (simp add: entries_ok_def)
  have lanes2: "lanes_list by_cache (tl_lru (et_lru (mc_entries ?mc))) (tl_lanes (et_lru (mc_entries ?mc)))"
    "bt_ok (tl_lru (et_lru (mc_entries ?mc)))" using tick by (simp_all add: tick_ok_def)
  note cand2 = lane_candidates_keys [OF lanes2 tick_keys_distinct [OF tick], of c]
  have "\<forall>k \<in> snd ` set (lanes_candidates (tl_lanes (et_lru (mc_entries ?mc))) c). get_page (mc_entries ?mc) k \<noteq> None"
    using cand2(1) tick_listed [OF tick] unfolding get_page_def by blast
  moreover have "\<forall>k \<in> snd ` set (lanes_candidates (tl_lanes (et_lru (mc_entries ?mc))) c). page_cache k = c"
    using cand2(3) by (simp add: by_cache_def)
  ultimately obtain r' q' es' where
    two: "reclaim_lane_verified env c bytes release (lanes_candidates (tl_lanes (et_lru (mc_entries ?mc))) c) r q
      (mc_entries ?mc) = Some (r', q', es')" "sub_entries (reclaimable env (Some c)) (mc_entries ?mc) es'"
    using lane_verified_sub [OF es _ cand2(2), of c env bytes release r q] by blast
  have "sub_memory (reclaimable env (Some c)) mc (?mc\<lparr>mc_entries := es'\<rparr>)"
    by (rule sub_memory_trans [OF sub sub_memory_entries [OF ok two(2)]])
  with one(1) two(1) show ?thesis by (simp add: reclaim_cache_def Let_def)
qed

lemma reclaim_pressure_sub:
  assumes "mem_ok mc"
  shows "\<exists>r q' mc'. reclaim_pressure env bytes excess release writer cs released q mc = Some (r, q', mc') \<and> sub_memory (reclaimable env None) mc mc'"
  using assms
proof (induction cs arbitrary: released q mc)
  case (Cons c cs)
  let ?m = "mc\<lparr>mc_pressure_cursor := Some c\<rparr>"
  have m: "mem_ok ?m" "sub_memory (reclaimable env None) mc ?m" using Cons.prems by (simp_all add: sub_memory_refl)
  have IH: "\<exists>r q' mc'. reclaim_pressure env bytes excess release writer cs n q x = Some (r, q', mc') \<and> sub_memory (reclaimable env None) mc mc'"
    if sub: "sub_memory (reclaimable env None) mc x" for n q x
    using Cons.IH [OF sub_memory_ok [OF Cons.prems sub], of n q] sub_memory_trans [OF sub] by blast
  obtain got q1 mc2 where cache: "reclaim_cache env c (min (excess c) (bytes - released)) release q ?m = Some (got, q1, mc2)"
    "sub_memory (reclaimable env None) ?m mc2"
    using reclaim_cache_sub [OF m(1), of env c "min (excess c) (bytes - released)" release q]
    by (blast intro: sub_memory_mono reclaimable_any)
  have "sub_memory (reclaimable env None) mc mc2" by (rule sub_memory_trans [OF m(2) cache(2)])
  with IH [OF m(2)] IH [of mc2] cache(1) sub_memory_refl [OF Cons.prems] show ?case
    by (simp add: Let_def del: sub_memory_cursor split: prod.split)
qed (simp add: sub_memory_refl)

lemma mc_reclaim_sub:
  assumes "mem_ok mc"
  shows "\<exists>r q' mc'. mc_reclaim env b owner bytes excess release writer q mc = Some (r, q', mc') \<and> sub_memory (reclaimable env owner) mc mc'"
proof (cases "\<not> b \<or> bytes = 0")
  case True
  with sub_memory_refl [OF assms] show ?thesis by (simp add: mc_reclaim_def)
next
  case False
  show ?thesis
  proof (cases owner)
    case (Some c)
    obtain r q1 mc1 where "reclaim_cache env c bytes release q mc = Some (r, q1, mc1)" "sub_memory (reclaimable env (Some c)) mc mc1"
      using reclaim_cache_sub [OF assms, of env c bytes release q] by blast
    with False Some show ?thesis by (simp add: mc_reclaim_def split: prod.split)
  next
    case None
    obtain r q1 mc1 where one: "reclaim_pressure env bytes excess release writer (pressure_window mc) 0 q mc =
        Some (r, q1, mc1)" "sub_memory (reclaimable env None) mc mc1"
      using reclaim_pressure_sub [OF assms, of env bytes excess release writer "pressure_window mc" 0 q] by blast
    obtain n q2 mc2 where two: "reclaim_idle env b None (bytes - r) release q1 mc1 = Some (n, q2, mc2)" "sub_memory (reclaimable env None) mc1 mc2"
      using reclaim_idle_sub [OF sub_memory_ok [OF assms one(2)], of env b None "bytes - r" release q1] by blast
    have "sub_memory (reclaimable env None) mc mc2" by (rule sub_memory_trans [OF one(2) two(2)])
    with False None one two(1) show ?thesis by (simp add: mc_reclaim_def split: prod.split)
  qed
qed

lemma entries_remove_all_get:
  "entries_ok es \<Longrightarrow>
     get_page (fold (\<lambda>k es. snd (entries_remove k es)) ks es) k = (if k \<in> set ks then None else get_page es k)"
proof (induction ks arbitrary: es)
  case (Cons k' ks)
  have "entries_ok (snd (entries_remove k' es))"
    using entries_remove_sub(1) [OF Cons.prems, of k' "\<lambda>_ _. True"] by (simp add: sub_entries_def)
  from Cons.IH [OF this] entries_remove_sub(2) [OF Cons.prems, of k'] show ?case by simp
qed simp

lemma ordered_remove_all_get:
  "bt_get (ol_pages (fold (\<lambda>k ces. snd (ordered_remove by_cache k ces)) ks ces)) k =
     (if k \<in> set ks then None else bt_get (ol_pages ces) k)"
  by (induction ks arbitrary: ces) simp_all

lemma remove_caches_sub:
  assumes "mem_ok mc"
  shows "sub_memory (\<lambda>k _. page_cache k \<in> set cs) mc (remove_caches cs mc)"
    and "page_cache k \<in> set cs \<Longrightarrow> get_page (mc_entries (remove_caches cs mc)) k = None"
    and "page_cache k \<in> set cs \<Longrightarrow> cipher_at (remove_caches cs mc) k = None"
proof -
  let ?P = "\<lambda>k (_ :: ciphertext_page). page_cache k \<in> set cs"
  let ?m = "mc\<lparr>mc_ciphertext := ordered_retain by_cache (\<lambda>k. page_cache k \<notin> set cs) (mc_ciphertext mc)\<rparr>"
  have oc: "ordered_ok by_cache (mc_ciphertext mc)" and oe: "entries_ok (mc_entries mc)" using assms by (simp_all add: mem_ok_def)
  have "sub_cipher ?P (mc_ciphertext mc) (ordered_retain by_cache (\<lambda>k. page_cache k \<notin> set cs) (mc_ciphertext mc))"
    unfolding ordered_retain_def by (rule ordered_remove_all_sub [OF oc]) simp
  then have sub: "sub_memory ?P mc ?m" by (rule sub_memory_cipher [OF assms])
  have ok: "mem_ok ?m" by (rule sub_memory_ok [OF assms sub])
  let ?ks = "filter (\<lambda>k. page_cache k \<in> set cs) (map fst (tl_pages (et_lru (mc_entries mc))))"
  have "sub_entries ?P (mc_entries ?m) (fold (\<lambda>k es. snd (entries_remove k es)) ?ks (mc_entries ?m))"
    using ok by (intro entries_remove_all_sub) (simp_all add: mem_ok_def)
  from sub_memory_trans [OF sub sub_memory_entries [OF ok this]] sub_memory_refl [OF assms]
  show "sub_memory ?P mc (remove_caches cs mc)" by (simp add: remove_caches_def Let_def)
  show "get_page (mc_entries (remove_caches cs mc)) k = None" if k: "page_cache k \<in> set cs"
  proof (cases "get_page (mc_entries mc) k")
    case (Some e)
    then have "(k, e) \<in> set (tl_pages (et_lru (mc_entries mc)))" by (simp add: get_page_def hm_get_SomeD)
    then have "k \<in> set ?ks" using k by force
    with k oe show ?thesis by (auto simp: remove_caches_def Let_def entries_remove_all_get)
  qed (use k oe in \<open>auto simp: remove_caches_def Let_def entries_remove_all_get\<close>)
  show "cipher_at (remove_caches cs mc) k = None" if k: "page_cache k \<in> set cs"
  proof (cases "cipher_at mc k")
    case (Some p)
    then have "(k, p) \<in> set (ol_pages (mc_ciphertext mc))" by (simp add: cipher_at_def bt_get_def map_of_SomeD)
    then have "k \<in> set (filter (\<lambda>k. \<not> page_cache k \<notin> set cs) (map fst (ol_pages (mc_ciphertext mc))))" using k by force
    with k show ?thesis
      by (auto simp: remove_caches_def Let_def cipher_at_def ordered_retain_def ordered_remove_all_get)
  qed (use k in \<open>auto simp: remove_caches_def Let_def cipher_at_def ordered_retain_def ordered_remove_all_get\<close>)
qed

end
