(* ===== verification/Racer_Memory_Uses.thy ===== *)
theory Racer_Memory_Uses
  imports Racer_Memory_Props
begin

section \<open>Lookups and publications of the memory cache\<close>

text \<open>
  Lookups and publications of the memory cache keep the invariant of \<open>Racer_Memory_Props\<close> and the entry
  limit and cannot fail an index. Each gives an entry it serves a new tick and leaves the ticks of the
  others alone; what it serves is admitted, and what it publishes is stored.
\<close>

declare split_paired_All [simp del] split_paired_Ex [simp del]

subsection \<open>Operations that use entries\<close>

text \<open>
  An operation that may also use entries: an entry keeps its tick, or has one beyond the old clock; every
  entry in the set has a new tick.
\<close>

definition entries_uses :: "entries \<Rightarrow> page_id set \<Rightarrow> entries \<Rightarrow> bool" where
  "entries_uses es S es' \<longleftrightarrow>
     entries_ok es' \<and> tl_clock (et_lru es) \<le> tl_clock (et_lru es') \<and>
     tl_clock (et_lru es') \<le> tl_clock (et_lru es) + 1 \<and>
     (\<forall>k t p. get_page es' k = Some (t, p) \<longrightarrow>
        k \<notin> S \<and> (\<exists>p0. get_page es k = Some (t, p0)) \<or> tl_clock (et_lru es) < t)"

definition cipher_uses :: "ciphertext_entries \<Rightarrow> page_id set \<Rightarrow> ciphertext_entries \<Rightarrow> bool" where
  "cipher_uses ces S ces' \<longleftrightarrow>
     ordered_ok by_cache ces' \<and> ol_clock ces \<le> ol_clock ces' \<and> ol_clock ces' \<le> ol_clock ces + 1 \<and>
     (\<forall>k t. hm_get (ol_ticks ces') k = Some t \<longrightarrow>
        k \<notin> S \<and> hm_get (ol_ticks ces) k = Some t \<or> ol_clock ces < t)"

definition mem_uses :: "memory_cache \<Rightarrow> page_id set \<Rightarrow> memory_cache \<Rightarrow> bool" where
  "mem_uses mc S mc' \<longleftrightarrow>
     mem_ok mc' \<and> mc_expiry mc' = mc_expiry mc \<and> entries_uses (mc_entries mc) S (mc_entries mc') \<and>
     cipher_uses (mc_ciphertext mc) S (mc_ciphertext mc')"

lemma sub_entries_uses:
  assumes "sub_entries P es es'" and "\<And>k. k \<in> S \<Longrightarrow> get_page es' k = None"
  shows "entries_uses es S es'"
proof -
  have "k \<notin> S \<and> (\<exists>p0. get_page es k = Some (t, p0))" if "get_page es' k = Some (t, p)" for k t p
    using assms(1) assms(2) [of k] that map_le_Some [of "get_page es'" "get_page es" k "(t, p)"]
    by (auto simp: sub_entries_le [OF assms(1)])
  with assms(1) show ?thesis unfolding entries_uses_def sub_entries_def by auto
qed

lemma ordered_no_tick: "ordered_ok grp l \<Longrightarrow> hm_get (ol_ticks l) k = None \<longleftrightarrow> bt_get (ol_pages l) k = None"
  by (simp add: ordered_ok_def)

lemma sub_cipher_uses:
  assumes "sub_cipher P ces ces'" and "\<And>k. k \<in> S \<Longrightarrow> bt_get (ol_pages ces') k = None"
  shows "cipher_uses ces S ces'"
proof -
  have ok: "ordered_ok by_cache ces'" using assms(1) by (simp add: sub_cipher_def)
  have "k \<notin> S \<and> hm_get (ol_ticks ces) k = Some t" if "hm_get (ol_ticks ces') k = Some t" for k t
    using assms(1) assms(2) [of k] that ordered_no_tick [OF ok, of k] map_le_Some [of "hm_get (ol_ticks ces')" "hm_get (ol_ticks ces)" k t]
    by (auto simp: sub_cipher_def)
  with assms(1) show ?thesis unfolding cipher_uses_def sub_cipher_def by auto
qed

lemma sub_memory_uses: "mem_ok mc \<Longrightarrow> sub_memory P mc mc' \<Longrightarrow> mem_uses mc {} mc'"
  unfolding mem_uses_def by (auto simp: sub_memory_ok) (auto simp: sub_memory_def intro: sub_entries_uses sub_cipher_uses)

lemma entries_uses_sub:
  assumes sub: "sub_entries P a b" and uses: "entries_uses b S c"
  shows "entries_uses a S c"
  unfolding entries_uses_def
proof (intro conjI allI impI)
  show "entries_ok c" "tl_clock (et_lru a) \<le> tl_clock (et_lru c)" "tl_clock (et_lru c) \<le> tl_clock (et_lru a) + 1"
    using sub uses by (simp_all add: sub_entries_def entries_uses_def)
  fix k t p assume t: "get_page c k = Some (t, p)"
  with uses have "k \<notin> S \<and> (\<exists>p0. get_page b k = Some (t, p0)) \<or> tl_clock (et_lru b) < t"
    by (simp add: entries_uses_def)
  then show "k \<notin> S \<and> (\<exists>p0. get_page a k = Some (t, p0)) \<or> tl_clock (et_lru a) < t"
    using sub map_le_Some [OF sub_entries_le [OF sub], of k] by (auto simp: sub_entries_def)
qed

lemma cipher_uses_sub:
  assumes sub: "sub_cipher P a b" and uses: "cipher_uses b S c"
  shows "cipher_uses a S c"
  unfolding cipher_uses_def
proof (intro conjI allI impI)
  show "ordered_ok by_cache c" "ol_clock a \<le> ol_clock c" "ol_clock c \<le> ol_clock a + 1"
    using sub uses by (simp_all add: sub_cipher_def cipher_uses_def)
  fix k t assume t: "hm_get (ol_ticks c) k = Some t"
  with uses have "k \<notin> S \<and> hm_get (ol_ticks b) k = Some t \<or> ol_clock b < t" by (simp add: cipher_uses_def)
  then show "k \<notin> S \<and> hm_get (ol_ticks a) k = Some t \<or> ol_clock a < t"
    using sub map_le_Some [of "hm_get (ol_ticks b)" "hm_get (ol_ticks a)" k] by (auto simp: sub_cipher_def)
qed

lemma entries_touch_uses:
  assumes ok: "entries_ok es" and room: "tl_clock (et_lru es) < u64_max" and key: "get_page es k = Some (t, p)"
  shows "fst (entries_touch k es) = Inr () \<and> entries_uses es {k} (snd (entries_touch k es)) \<and>
    get_page (snd (entries_touch k es)) = (get_page es)(k \<mapsto> (tl_clock (et_lru es) + 1, p))"
proof -
  let ?l = "et_lru es"
  have tick: "tick_ok by_cache ?l" using ok by (simp add: entries_ok_def)
  have get: "hm_get (tl_pages ?l) k = Some (t, p)" using key by (simp add: get_page_def)
  have res: "entries_touch k es = (Inr (), es\<lparr>et_lru := snd (tick_touch by_cache k ?l)\<rparr>)"
    unfolding entries_touch_def tick_touch_eq [OF room get] by simp
  have pages: "get_page (es\<lparr>et_lru := snd (tick_touch by_cache k ?l)\<rparr>) = (get_page es)(k \<mapsto> (tl_clock ?l + 1, p))"
    unfolding tick_touch_eq [OF room get] using get by (simp add: get_page_def fun_eq_iff)
  have clock: "tl_clock (snd (tick_touch by_cache k ?l)) = tl_clock ?l + 1"
    unfolding tick_touch_eq [OF room get] using room by (simp add: tick_insert_eq)
  have "pages_ok (get_page es)" using ok by (simp add: entries_ok_def)
  then have "pages_ok ((get_page es)(k \<mapsto> (tl_clock ?l + 1, p)))"
    using key unfolding pages_ok_def by (auto simp del: split_paired_All split: if_splits)
  moreover have "versions_exact (es\<lparr>et_lru := snd (tick_touch by_cache k ?l)\<rparr>)"
    using ok key unfolding versions_exact_def pages entries_ok_def by simp
  ultimately have "entries_ok (es\<lparr>et_lru := snd (tick_touch by_cache k ?l)\<rparr>)"
    using ok tick_touch_ok [OF tick room, of k] pages by (simp add: entries_ok_def)
  then show ?thesis
    unfolding res entries_uses_def using pages clock by (auto split: if_splits)
qed

lemma entries_insert_uses:
  assumes ok: "entries_ok es" and room: "tl_clock (et_lru es) < u64_max"
    and key: "k = vp_page (pg_plaintext p)" and new: "get_page es k = None" and page: "page_ok k (cached_new p)"
    and compat: "\<And>k' t' p'. get_page es k' = Some (t', p') \<Longrightarrow> fst k' = fst k \<Longrightarrow>
      compatible (immutable (cp_metadata p')) (immutable (pg_metadata p))"
  shows "fst (entries_insert p es) = Inr () \<and> entries_uses es {} (snd (entries_insert p es)) \<and>
    get_page (snd (entries_insert p es)) = (get_page es)(k \<mapsto> (tl_clock (et_lru es) + 1, cached_new p))"
proof -
  let ?l = "et_lru es" and ?c = "tl_clock (et_lru es) + 1"
  let ?l' = "snd (tick_insert by_cache k (cached_new p) ?l)"
  let ?es = "es\<lparr>et_lru := ?l', et_versions := hm_insert (fst k) (List.insert k (version_pages es (fst k))) (et_versions es)\<rparr>"
  have tick: "tick_ok by_cache ?l" using ok by (simp add: entries_ok_def)
  have get: "hm_get (tl_pages ?l) k = None" using new by (simp add: get_page_def)
  have res: "entries_insert p es = (Inr (), ?es)"
    using room key by (simp add: entries_insert_def Let_def tick_insert_eq version_pages_def)
  have pages: "get_page ?es = (get_page es)(k \<mapsto> (?c, cached_new p))"
    using room by (simp add: get_page_def tick_insert_eq)
  have clock: "tl_clock ?l' = ?c" using room by (simp add: tick_insert_eq)
  have wf: "versions_wf es" "versions_exact es" "pages_ok (get_page es)" using ok by (simp_all add: entries_ok_def)
  have vers: "version_pages ?es v = (if v = fst k then List.insert k (version_pages es v) else version_pages es v)" for v
    by (simp add: version_pages_def)
  have dist: "distinct (version_pages es v)" for v
    using wf(1) by (cases "hm_get (et_versions es) v") (simp_all add: version_pages_def versions_wf_def)
  have "List.insert k (version_pages es (fst k)) \<noteq> []" by (auto simp: List.insert_def)
  then have "versions_wf ?es" using wf(1) dist by (simp add: versions_wf_def distinct_insert)
  moreover have "versions_exact ?es" unfolding versions_exact_def pages vers
    using wf(2) new by (auto simp: versions_exact_def)
  moreover have "pages_ok (get_page ?es)" unfolding pages pages_ok_def
  proof (intro conjI allI impI)
    fix k1 t1 p1 assume "((get_page es)(k \<mapsto> (?c, cached_new p))) k1 = Some (t1, p1)"
    with wf(3) page show "page_ok k1 p1" by (auto simp: pages_ok_def split: if_splits)
  next
    fix k1 k2 t1 t2 p1 p2
    assume get1: "((get_page es)(k \<mapsto> (?c, cached_new p))) k1 = Some (t1, p1)"
      and get2: "((get_page es)(k \<mapsto> (?c, cached_new p))) k2 = Some (t2, p2)" and eq: "fst k1 = fst k2"
    have md: "cp_metadata (cached_new p) = pg_metadata p" by (simp add: cached_new_def)
    have sym: "compatible a b \<Longrightarrow> compatible b a" for a b by (simp add: compatible_def)
    show "compatible (immutable (cp_metadata p1)) (immutable (cp_metadata p2))"
    proof (cases "k1 = k"; cases "k2 = k")
      assume "k1 = k" "k2 = k"
      with get1 get2 show ?thesis by (auto simp: compatible_def)
    next
      assume "k1 = k" "k2 \<noteq> k"
      with get1 get2 eq compat [of k2 t2 p2] md sym show ?thesis by auto
    next
      assume "k1 \<noteq> k" "k2 = k"
      with get1 get2 eq compat [of k1 t1 p1] md show ?thesis by auto
    next
      assume "k1 \<noteq> k" "k2 \<noteq> k"
      with get1 get2 eq wf(3) show ?thesis unfolding pages_ok_def by simp
    qed
  qed
  ultimately have "entries_ok ?es" using tick_insert_ok [OF tick get room] by (simp add: entries_ok_def)
  then show ?thesis
    unfolding res entries_uses_def using pages clock new by (auto split: if_splits)
qed

lemma verified_uses:
  assumes ok: "mem_ok mc" and room: "tl_clock (et_lru (mc_entries mc)) < u64_max"
  obtains r es where "verified env k mc = (Inr r, mc\<lparr>mc_entries := es\<rparr>)"
    and "entries_uses (mc_entries mc) (case r of None \<Rightarrow> {} | Some _ \<Rightarrow> {k}) es"
    and "\<And>x. (get_page es x = None) = (get_page (mc_entries mc) x = None \<or> r = None \<and> x = k)"
    and "\<And>p. r = Some p \<Longrightarrow> page_available env p \<and> (\<exists>t. mc_get mc k = Some (t, p))"
    and "r = None \<Longrightarrow> sub_entries (\<lambda>_ _. True) (mc_entries mc) es"
proof (cases "mc_get mc k")
  case None
  have "entries_ok (mc_entries mc)" using ok by (simp add: mem_ok_def)
  then have "sub_entries (\<lambda>_ _. True) (mc_entries mc) (mc_entries mc)" by (rule sub_entries_refl)
  moreover from this have "entries_uses (mc_entries mc) {} (mc_entries mc)" by (rule sub_entries_uses) simp
  moreover have "(get_page (mc_entries mc) x = None) = (get_page (mc_entries mc) x = None \<or> x = k)" for x
    using None by (auto simp: mc_get_page)
  ultimately show ?thesis using None by (intro that [of None "mc_entries mc"]) (simp_all add: verified_def)
next
  case (Some e)
  obtain t p where e: "e = (t, p)" by fastforce
  have es: "entries_ok (mc_entries mc)" using ok by (simp add: mem_ok_def)
  show ?thesis
  proof (cases "page_available env p")
    case True
    note touch = entries_touch_uses [OF es room, of k t p]
    have "get_page (mc_entries mc) k = Some (t, p)" using Some e by (simp add: mc_get_page)
    note touch = touch [OF this]
    obtain es' where es': "entries_touch k (mc_entries mc) = (Inr (), es')" using touch by (cases "entries_touch k (mc_entries mc)") simp
    with that [of "Some p" es'] touch Some e True show ?thesis
      by (auto simp: verified_def mc_get_page)
  next
    case False
    note remove = entries_remove_sub [OF es, of k]
    have "sub_entries (\<lambda>_ _. True) (mc_entries mc) (snd (entries_remove k (mc_entries mc)))" by (rule remove(1)) simp
    moreover from this have "entries_uses (mc_entries mc) {} (snd (entries_remove k (mc_entries mc)))"
      by (rule sub_entries_uses) simp
    ultimately show ?thesis
      using that [of None "snd (entries_remove k (mc_entries mc))"] remove(2) Some e False by (simp add: verified_def)
  qed
qed

lemma mem_ok_apart: "mem_ok mc \<Longrightarrow> get_page (mc_entries mc) k = None \<or> cipher_at mc k = None"
  by (simp add: mem_ok_def mc_get_page)

lemma mem_ok_cipher:
  assumes ok: "mem_ok mc" and ces: "ordered_ok by_cache ces"
    and new: "\<And>k p. bt_get (ol_pages ces) k = Some p \<Longrightarrow>
      cipher_at mc k = Some p \<or> cipher_ok k p \<and> get_page (mc_entries mc) k = None"
  shows "mem_ok (mc\<lparr>mc_ciphertext := ces\<rparr>)"
proof -
  have "cipher_ok k p" if "bt_get (ol_pages ces) k = Some p" for k p
    using new [OF that] ok by (auto simp: mem_ok_def)
  moreover have "get_page (mc_entries mc) k = None \<or> bt_get (ol_pages ces) k = None" for k
    using new [of k] mem_ok_apart [OF ok, of k] by (cases "bt_get (ol_pages ces) k") auto
  ultimately show ?thesis using ok ces by (simp add: mem_ok_def mc_get_page cipher_at_def)
qed

lemma mem_uses_entries:
  assumes ok: "mem_ok mc" and uses: "entries_uses (mc_entries mc) S es"
    and dom: "\<And>x. get_page (mc_entries mc) x = None \<Longrightarrow> cipher_at mc x \<noteq> None \<Longrightarrow> get_page es x = None"
    and S: "\<And>x. x \<in> S \<Longrightarrow> cipher_at mc x = None"
  shows "mem_uses mc S (mc\<lparr>mc_entries := es\<rparr>)"
proof -
  have "entries_ok es" using uses by (simp add: entries_uses_def)
  moreover have "cipher_uses (mc_ciphertext mc) S (mc_ciphertext mc)"
    using ok S by (intro sub_cipher_uses sub_cipher_refl) (simp_all add: mem_ok_def cipher_at_def)
  moreover have "get_page es x = None \<or> cipher_at mc x = None" for x
  proof (cases "cipher_at mc x = None")
    case False
    with mem_ok_apart [OF ok, of x] have "get_page (mc_entries mc) x = None" by simp
    from dom [OF this False] show ?thesis ..
  qed simp
  ultimately show ?thesis
    using ok uses by (simp add: mem_uses_def mem_ok_def mc_get_page cipher_at_def)
qed

lemma tick_len_card: "entries_ok e \<Longrightarrow> tick_len (et_lru e) = card (dom (get_page e)) \<and> finite (dom (get_page e))"
  using hm.count_card [of "tl_pages (et_lru e)"] hm.finite_get [of "tl_pages (et_lru e)"]
  by (simp add: entries_ok_def tick_ok_def tick_len_def get_page_def)

lemma tick_len_mono:
  assumes "entries_ok es" and "entries_ok es'" and "\<And>k. get_page es k = None \<Longrightarrow> get_page es' k = None"
  shows "tick_len (et_lru es') \<le> tick_len (et_lru es)"
proof -
  have "dom (get_page es') \<subseteq> dom (get_page es)" 
  proof
    fix k assume "k \<in> dom (get_page es')"
    then show "k \<in> dom (get_page es)" using assms(3) [of k] by (cases "get_page es k") auto
  qed
  then show ?thesis using tick_len_card [OF assms(1)] tick_len_card [OF assms(2)] by (simp add: card_mono)
qed

definition served :: "'a option \<Rightarrow> page_id \<Rightarrow> page_id set" where
  "served r k = (if r = None then {} else {k})"

lemma served_simps [simp]: "served None k = {}" "served (Some x) k = {k}"
  by (simp_all add: served_def)

lemma verified_mem_uses:
  assumes ok: "mem_ok mc" and room: "tl_clock (et_lru (mc_entries mc)) < u64_max"
  obtains r mc1 where "verified env k mc = (Inr r, mc1)" and "mem_uses mc (served r k) mc1"
    and "mc_ciphertext mc1 = mc_ciphertext mc" and "mc_len mc1 \<le> mc_len mc"
    and "r = None \<Longrightarrow> mc_get mc1 k = None"
    and "\<And>p. r = Some p \<Longrightarrow> page_available env p \<and> (\<exists>t. mc_get mc k = Some (t, p))"
    and "r = None \<Longrightarrow> sub_memory (\<lambda>_ _. True) mc mc1"
proof -
  obtain r es where v: "verified env k mc = (Inr r, mc\<lparr>mc_entries := es\<rparr>)"
    "entries_uses (mc_entries mc) (case r of None \<Rightarrow> {} | Some _ \<Rightarrow> {k}) es"
    "\<And>x. (get_page es x = None) = (get_page (mc_entries mc) x = None \<or> r = None \<and> x = k)"
    "\<And>p. r = Some p \<Longrightarrow> page_available env p \<and> (\<exists>t. mc_get mc k = Some (t, p))"
    "r = None \<Longrightarrow> sub_entries (\<lambda>_ _. True) (mc_entries mc) es"
    using verified_uses [OF ok room, of env k] by blast
  let ?mc = "mc\<lparr>mc_entries := es\<rparr>"
  have served: "served r k = (case r of None \<Rightarrow> {} | Some _ \<Rightarrow> {k})" by (cases r) simp_all
  have "cipher_at mc x = None" if "x \<in> served r k" for x
    using that v(4) mem_ok_apart [OF ok, of k] by (cases r) (auto simp: mc_get_page)
  with v(2,3) served have uses: "mem_uses mc (served r k) ?mc" by (intro mem_uses_entries [OF ok]) auto
  have "entries_ok es" "entries_ok (mc_entries mc)" using v(2) ok by (simp_all add: entries_uses_def mem_ok_def)
  then have "mc_len ?mc \<le> mc_len mc" using tick_len_mono [of "mc_entries mc" es] v(3) by (simp add: mc_len_def)
  with that [OF v(1) uses] v(3-5) sub_memory_entries [OF ok] show ?thesis by (simp add: mc_get_page)
qed

lemma ordered_touch_uses:
  assumes ok: "ordered_ok by_cache ces" and room: "ol_clock ces < u64_max"
  shows "cipher_uses ces {k} (ordered_touch by_cache k ces)"
    and "ol_pages (ordered_touch by_cache k ces) = ol_pages ces"
proof -
  show "ol_pages (ordered_touch by_cache k ces) = ol_pages ces" by (simp add: ordered_touch_def Let_def)
  show "cipher_uses ces {k} (ordered_touch by_cache k ces)"
  proof (cases "bt_get (ol_pages ces) k = None")
    case True
    then have "cipher_uses ces {k} ces" using ok by (intro sub_cipher_uses sub_cipher_refl) auto
    with True show ?thesis by (simp add: ordered_touch_def)
  next
    case False
    with ok room ordered_touch_ok' [OF ok room, of k] show ?thesis
      by (auto simp: cipher_uses_def ordered_touch_eq split: if_splits)
  qed
qed

text \<open>The unverified entry after the removal of a stale one: touched if it is there.\<close>

lemma unverified_entry:
  fixes k :: page_id and env :: memory_env
  assumes oc: "ordered_ok by_cache ces" and room: "ol_clock ces < u64_max"
  defines "es1 \<equiv> (case bt_get (ol_pages ces) k of None \<Rightarrow> ces
    | Some p \<Rightarrow> if unverified_stale env k p then snd (ordered_remove by_cache k ces) else ces)"
  defines "r \<equiv> bt_get (ol_pages (ordered_touch by_cache k es1)) k"
  shows "cipher_uses ces (served r k) (ordered_touch by_cache k es1)"
    and "bt_get (ol_pages (ordered_touch by_cache k es1)) \<subseteq>\<^sub>m bt_get (ol_pages ces)"
    and "\<And>p. r = Some p \<Longrightarrow> \<not> unverified_stale env k p"
proof -
  have sub: "sub_cipher (\<lambda>_ _. True) ces es1"
    using oc by (simp add: es1_def ordered_remove_sub sub_cipher_refl split: option.split)
  then have ok1: "ordered_ok by_cache es1" and clock: "ol_clock es1 < u64_max" using room by (simp_all add: sub_cipher_def)
  note touch = ordered_touch_uses [OF ok1 clock, of k]
  have r: "r = bt_get (ol_pages es1) k" by (simp add: r_def touch(2))
  show "bt_get (ol_pages (ordered_touch by_cache k es1)) \<subseteq>\<^sub>m bt_get (ol_pages ces)"
    using sub_cipher_le [OF sub] by (simp add: touch(2))
  show "cipher_uses ces (served r k) (ordered_touch by_cache k es1)"
  proof (cases r)
    case None
    then have "ordered_touch by_cache k es1 = es1" using r by (simp add: ordered_touch_def)
    with sub_cipher_uses [OF sub, of "{}"] None show ?thesis by simp
  qed (use cipher_uses_sub [OF sub touch(1)] in simp)
  show "\<not> unverified_stale env k p" if "r = Some p" for p
    using that r by (auto simp: es1_def split: option.splits if_splits)
qed

lemma unverified_uses:
  assumes ok: "mem_ok mc" and room: "tl_clock (et_lru (mc_entries mc)) < u64_max" "ol_clock (mc_ciphertext mc) < u64_max"
  obtains r mc1 where "unverified env k mc = (Inr r, mc1)" and "mem_uses mc (served r k) mc1"
    and "mc_len mc1 \<le> mc_len mc"
    and "\<And>p. r = Some p \<Longrightarrow> \<not> unverified_stale env k p \<and> cipher_ok k p"
proof -
  obtain r1 mc1 where v: "verified env k mc = (Inr r1, mc1)" "mem_uses mc (served r1 k) mc1"
    "mc_ciphertext mc1 = mc_ciphertext mc" "mc_len mc1 \<le> mc_len mc" "r1 = None \<Longrightarrow> mc_get mc1 k = None"
    "\<And>p. r1 = Some p \<Longrightarrow> page_available env p \<and> (\<exists>t. mc_get mc k = Some (t, p))"
    "r1 = None \<Longrightarrow> sub_memory (\<lambda>_ _. True) mc mc1"
    by (rule verified_mem_uses [OF ok room(1), of env k]) blast
  show ?thesis
  proof (cases r1)
    case (Some p)
    from v(6) [OF Some] obtain t where p: "page_available env p" "get_page (mc_entries mc) k = Some (t, p)"
      by (auto simp: mc_get_page)
    have "pages_ok (get_page (mc_entries mc))" using ok by (simp add: mem_ok_def entries_ok_def)
    with p(2) have "page_ok k p" by (simp add: pages_ok_def)
    with p(1) that [of "Some \<lparr>up_copy = cached_copy p, up_disk_token = None\<rparr>" mc1] Some v(1,2,4) show ?thesis
      by (auto simp: unverified_def page_available_def page_ok_def page_cache_def cached_copy_def
          unverified_stale_def cipher_ok_def)
  next
    case None
    let ?c = "mc_ciphertext mc"
    let ?es1 = "case bt_get (ol_pages ?c) k of None \<Rightarrow> ?c
      | Some p \<Rightarrow> if unverified_stale env k p then snd (ordered_remove by_cache k ?c) else ?c"
    let ?e2 = "ordered_touch by_cache k ?es1"
    let ?r = "bt_get (ol_pages ?e2) k"
    let ?m = "mc1\<lparr>mc_ciphertext := ?e2\<rparr>"
    have oc: "ordered_ok by_cache ?c" using ok by (simp add: mem_ok_def)
    note entry = unverified_entry [OF oc room(2), of k env]
    have mem1: "mem_ok mc1" "sub_entries (\<lambda>_ _. True) (mc_entries mc) (mc_entries mc1)" "mc_expiry mc1 = mc_expiry mc"
      using v(2) v(7) [OF None] by (simp_all add: mem_uses_def sub_memory_def)
    have oe: "ordered_ok by_cache ?e2" using entry(1) by (simp add: cipher_uses_def)
    have "mem_ok ?m"
      using entry(2) v(3) by (intro mem_ok_cipher [OF mem1(1) oe]) (auto simp: cipher_at_def intro: map_le_Some)
    moreover have "entries_uses (mc_entries mc) (served ?r k) (mc_entries mc1)"
      using v(5) [OF None] by (intro sub_entries_uses [OF mem1(2)]) (cases ?r, auto simp: mc_get_page)
    ultimately have "mem_uses mc (served ?r k) ?m" using mem1(3) entry(1) by (simp add: mem_uses_def)
    moreover have "length (ol_pages ?e2) \<le> length (ol_pages ?c)"
    proof -
      have "bt_ok (ol_pages ?e2)" "bt_ok (ol_pages ?c)" using oe oc by (simp_all add: ordered_ok_def)
      then show ?thesis using card_dom_le [OF entry(2)] by (simp add: bt.count_card bt.finite_get)
    qed
    then have "mc_len ?m \<le> mc_len mc" using v(3,4) by (simp add: mc_len_def)
    moreover have "\<not> unverified_stale env k p \<and> cipher_ok k p" if "?r = Some p" for p
    proof -
      have "cipher_at mc k = Some p" using map_le_Some [OF entry(2) that] by (simp add: cipher_at_def)
      with entry(3) [OF that] ok show ?thesis by (simp add: mem_ok_def)
    qed
    moreover have "unverified env k mc = (Inr ?r, ?m)"
      unfolding unverified_def v(1) None prod.case sum.case option.case(1) Let_def v(3) ..
    ultimately show ?thesis using that [of ?r ?m] by blast
  qed
qed

subsection \<open>Publications\<close>

lemma immutable_fields [simp]:
  "vm_version (immutable m) = vm_version m" "vm_length (immutable m) = vm_length m"
  "vm_content_type (immutable m) = vm_content_type m"
  by (simp_all add: immutable_def version_metadata.truncate_def)

lemma validate_page_version: "validate_page m e = Inr u \<Longrightarrow> fst (en_page e) = vm_version m"
  by (auto simp: validate_page_def page_length_def Let_def split: sum.splits if_splits)

lemma pool_validate_ciphertext_key:
  "pool_validate_ciphertext env c = Inr u \<Longrightarrow> vm_version (cc_metadata c) = fst (en_page (ct_envelope (cc_ciphertext c)))"
  by (auto simp: pool_validate_ciphertext_def validate_ciphertext_def dest: validate_page_version split: sum.splits)

lemma pool_validate_page_key:
  assumes "pool_validate_page env p = Inr u"
  shows "vp_page (pg_plaintext p) = en_page (ct_envelope (pg_ciphertext p))"
    and "vm_version (pg_metadata p) = fst (vp_page (pg_plaintext p))"
proof -
  have assoc: "validate_association (pg_metadata p) (vp_page (pg_plaintext p)) (length (vp_bytes (pg_plaintext p)))
      (ct_envelope (pg_ciphertext p)) = Inr ()"
    using assms by (auto simp: pool_validate_page_def result_validate_metadata_def split: sum.splits)
  then show "vp_page (pg_plaintext p) = en_page (ct_envelope (pg_ciphertext p))"
    by (auto simp: validate_association_def split: sum.splits if_splits)
  with assoc show "vm_version (pg_metadata p) = fst (vp_page (pg_plaintext p))"
    by (auto simp: validate_association_def dest: validate_page_version split: sum.splits if_splits)
qed

lemma retainable_envelope: "retainable env c = Inr c' \<Longrightarrow> ct_envelope c' = ct_envelope c"
  by (auto simp: retainable_def copy_out_def split: if_splits sum.splits prod.splits)

lemma ordered_insert_uses:
  assumes ok: "ordered_ok by_cache ces" and room: "ol_clock ces < u64_max" and new: "bt_get (ol_pages ces) k = None"
  shows "cipher_uses ces {} (ordered_insert by_cache k p ces)"
    and "bt_get (ol_pages (ordered_insert by_cache k p ces)) = (bt_get (ol_pages ces))(k \<mapsto> p)"
    and "length (ol_pages (ordered_insert by_cache k p ces)) = Suc (length (ol_pages ces))"
proof -
  let ?l = "ces\<lparr>ol_pages := bt_insert k p (ol_pages ces)\<rparr>"
  have eq: "ordered_insert by_cache k p ces = (ordered_untick by_cache k ?l)\<lparr>ol_clock := ol_clock ces + 1,
      ol_ticks := hm_insert k (ol_clock ces + 1) (ol_ticks ces),
      ol_order := bt_insert (ol_clock ces + 1) k (ol_order (ordered_untick by_cache k ?l)),
      ol_lanes := lanes_insert (by_cache k) (ol_clock ces + 1) k (ol_lanes (ordered_untick by_cache k ?l))\<rparr>"
    unfolding ordered_insert_def using ordered_touch_eq [of ?l k by_cache] room by simp
  have pages: "ol_pages (ordered_insert by_cache k p ces) = bt_insert k p (ol_pages ces)"
    unfolding ordered_insert_def by (simp add: ordered_touch_def Let_def)
  then show "bt_get (ol_pages (ordered_insert by_cache k p ces)) = (bt_get (ol_pages ces))(k \<mapsto> p)" by simp
  have "bt_ok (ol_pages ces)" using ok by (simp add: ordered_ok_def)
  then show "length (ol_pages (ordered_insert by_cache k p ces)) = Suc (length (ol_pages ces))"
    using new bt.count_put_new pages by metis
  show "cipher_uses ces {} (ordered_insert by_cache k p ces)"
    unfolding cipher_uses_def using ordered_insert_ok [OF ok room, of k p] eq by auto
qed

lemma mem_uses_refl: "mem_ok mc \<Longrightarrow> mem_uses mc {} mc"
  using sub_memory_uses sub_memory_refl by blast

lemma publish_ciphertext_uses:
  assumes ok: "mem_ok mc" and room: "ol_clock (mc_ciphertext mc) < u64_max"
  obtains r mc1 where "publish_ciphertext env page mc = (r, mc1)" and "mem_uses mc {} mc1"
    and "mc_len mc1 \<le> max (mc_len mc) (me_entry_limit env)"
proof -
  let ?c = "cc_ciphertext (up_copy page)"
  let ?k = "en_page (ct_envelope ?c)"
  note found = that
  have same: ?thesis if "publish_ciphertext env page mc = (r, mc)" for r
    using that mem_uses_refl [OF ok] by (intro found [of r mc]) simp_all
  show ?thesis
  proof (cases "pool_validate_ciphertext env (up_copy page)")
    case (Inl e)
    then show ?thesis by (intro same) (simp add: publish_ciphertext_def)
  next
    case (Inr u)
    note key = pool_validate_ciphertext_key [OF Inr]
    show ?thesis
    proof (cases "retainable env ?c")
      case (Inl e)
      with Inr have "\<exists>r. publish_ciphertext env page mc = (r, mc)" by (simp add: publish_ciphertext_def Let_def)
      then show ?thesis using same by blast
    next
      case c: (Inr c')
      note env = retainable_envelope [OF c]
      let ?p = "page\<lparr>up_copy := (up_copy page)\<lparr>cc_ciphertext := c'\<rparr>\<rparr>"
      let ?ces = "ordered_insert by_cache ?k ?p (mc_ciphertext mc)"
      show ?thesis
      proof (cases "av_passthrough env (page_cache ?k) \<or> \<not> av_page env (page_cache ?k) (en_key_id (ct_envelope ?c)) \<or>
          mc_get mc ?k \<noteq> None \<or> bt_get (ol_pages (mc_ciphertext mc)) ?k \<noteq> None \<or> mc_len mc \<ge> me_entry_limit env")
        case True
        then have "\<exists>r. publish_ciphertext env page mc = (r, mc)"
          using Inr c env by (auto simp: publish_ciphertext_def Let_def)
        then show ?thesis using same by blast
      next
        case False
        then have new: "get_page (mc_entries mc) ?k = None" "bt_get (ol_pages (mc_ciphertext mc)) ?k = None"
          and room2: "mc_len mc < me_entry_limit env" by (simp_all add: mc_get_page)
        have oc: "ordered_ok by_cache (mc_ciphertext mc)" using ok by (simp add: mem_ok_def)
        note ins = ordered_insert_uses [OF oc room new(2), of ?p]
        have "cipher_ok ?k ?p" using key env by (simp add: cipher_ok_def)
        then have "mem_ok (mc\<lparr>mc_ciphertext := ?ces\<rparr>)"
          using ins(1) new(1) by (intro mem_ok_cipher [OF ok]) (auto simp: cipher_uses_def ins(2) cipher_at_def split: if_splits)
        moreover have "entries_uses (mc_entries mc) {} (mc_entries mc)"
          using mem_uses_refl [OF ok] by (simp add: mem_uses_def)
        ultimately have "mem_uses mc {} (mc\<lparr>mc_ciphertext := ?ces\<rparr>)" using ins(1) by (simp add: mem_uses_def)
        moreover have "publish_ciphertext env page mc = (Inr (), mc\<lparr>mc_ciphertext := ?ces\<rparr>)"
          using Inr c env False by (simp add: publish_ciphertext_def Let_def)
        ultimately show ?thesis
          using found [of "Inr ()" "mc\<lparr>mc_ciphertext := ?ces\<rparr>"] ins(3) room2 by (simp add: mc_len_def)
      qed
    qed
  qed
qed

lemma invalidate_ciphertext_sub:
  assumes ok: "mem_ok mc"
  shows "sub_memory (\<lambda>k _. k = en_page (ct_envelope (cc_ciphertext (up_copy page)))) mc (invalidate_ciphertext page mc)"
proof -
  let ?c = "cc_ciphertext (up_copy page)"
  let ?k = "en_page (ct_envelope ?c)"
  let ?P = "\<lambda>k (_ :: ciphertext_page). k = ?k"
  define m where "m = (case bt_get (ol_pages (mc_ciphertext mc)) ?k of None \<Rightarrow> mc
    | Some p \<Rightarrow> if ciphertext_matches ?c (cc_ciphertext (up_copy p))
        then mc\<lparr>mc_ciphertext := snd (ordered_remove by_cache ?k (mc_ciphertext mc))\<rparr> else mc)"
  have "sub_cipher ?P (mc_ciphertext mc) (snd (ordered_remove by_cache ?k (mc_ciphertext mc)))"
    using ok by (intro ordered_remove_sub) (simp_all add: mem_ok_def)
  then have m: "sub_memory ?P mc m"
    using sub_memory_refl [OF ok, of ?P] sub_memory_cipher [OF ok] by (simp add: m_def split: option.split)
  have mok: "mem_ok m" by (rule sub_memory_ok [OF ok m])
  have "sub_entries ?P (mc_entries m) (snd (entries_remove ?k (mc_entries m)))"
    using mok by (intro entries_remove_sub(1)) (simp_all add: mem_ok_def)
  from sub_memory_trans [OF m sub_memory_entries [OF mok this]] m show ?thesis
    unfolding invalidate_ciphertext_def Let_def m_def [symmetric] by (simp split: option.split prod.split)
qed

lemma scan_idle_found:
  "fst (scan_idle idle s es) = Some k \<Longrightarrow> \<exists>v s0. (k, v) \<in> set es \<and> fst (idle s0 v)"
proof (induction idle s es rule: scan_idle.induct)
  case (2 idle s k' v es)
  obtain b s' where b: "idle s v = (b, s')" by fastforce
  show ?case
  proof (cases b)
    case True
    with 2 b have "(k, v) \<in> set ((k', v) # es) \<and> fst (idle s v)" by (simp split: prod.splits)
    then show ?thesis by blast
  next
    case False
    with 2 b show ?thesis by (fastforce split: prod.splits)
  qed
qed simp

text \<open>A victim search moves the cursor only, and names an idle entry.\<close>

lemma victim_uses:
  assumes ok: "entries_ok es"
  obtains r s l where "tick_victim (\<lambda>s p. (idle_page env p, s)) (0 :: nat) (et_lru es) = Some (r, s, l)"
    and "sub_entries (\<lambda>_ _. False) es (es\<lparr>et_lru := l\<rparr>)" and "get_page (es\<lparr>et_lru := l\<rparr>) = get_page es"
    and "\<And>v. r = Some v \<Longrightarrow> \<exists>t p. get_page es v = Some (t, p) \<and> idle_page env p"
proof -
  let ?l = "et_lru es" and ?cs = "tick_candidates (et_lru es)" and ?idle = "\<lambda>s p. (idle_page env p, s)"
  let ?xs = "map (tick_entry_of ?l) ?cs"
  have tick: "tick_ok by_cache ?l" using ok by (simp add: entries_ok_def)
  obtain r s n where scan: "scan_idle ?idle (0 :: nat) ?xs = (r, s, n)" by (metis prod_cases3)
  have n: "n \<le> length ?cs" using scan_idle_le [of ?idle "0 :: nat" ?xs] scan by simp
  let ?h = "hand_at ?cs n ?l"
  have "tick_victim ?idle (0 :: nat) ?l = Some (r, s, ?h)"
    using victim_scan_eq [OF tick_candidates_entries(1) [OF tick], of ?idle "0 :: nat"] scan by (simp add: tick_victim_def)
  moreover have pages: "get_page (es\<lparr>et_lru := ?h\<rparr>) = get_page es" by (simp add: get_page_def hand_at_def)
  moreover have "entries_ok (es\<lparr>et_lru := ?h\<rparr>)"
    using ok hand_at_ok(1) [OF tick n] pages by (simp add: entries_ok_def versions_exact_def)
  then have "sub_entries (\<lambda>_ _. False) es (es\<lparr>et_lru := ?h\<rparr>)" by (simp add: sub_entries_def pages)
  moreover have "\<exists>t p. get_page es v = Some (t, p) \<and> idle_page env p" if "r = Some v" for v
  proof -
    from scan_idle_found [of ?idle "0 :: nat" ?xs v] scan that obtain p where p: "(v, p) \<in> set ?xs" "idle_page env p" by auto
    then obtain c where c: "c \<in> set ?cs" "v = snd c" "p = snd (the (get_page es v))"
      by (auto simp: tick_entry_of_def get_page_def)
    with tick_candidates_entries(1) [OF tick] obtain e where "get_page es v = Some e" by (auto simp: get_page_def)
    with c p(2) show ?thesis by (cases e) simp
  qed
  ultimately show ?thesis using that by blast
qed

lemma known_version_compatible:
  assumes ok: "entries_ok es"
    and known: "case known_version es v of None \<Rightarrow> True | Some q \<Rightarrow> compatible (immutable (cp_metadata q)) m"
    and page: "get_page es k = Some (t, p)" "fst k = v"
  shows "compatible (immutable (cp_metadata p)) m"
proof -
  have ex: "versions_exact es" "versions_wf es" "pages_ok (get_page es)" using ok by (simp_all add: entries_ok_def)
  then have "k \<in> set (version_pages es v)" using page by (simp add: versions_exact_def)
  then obtain ps where "hm_get (et_versions es) v = Some ps" "ps \<noteq> []"
    by (cases "hm_get (et_versions es) v") (fastforce simp: version_pages_def)+
  then obtain k1 ks where vers: "hm_get (et_versions es) v = Some (k1 # ks)" by (cases ps) auto
  then have "k1 \<in> set (version_pages es v)" by (simp add: version_pages_def)
  with ex(1) have "fst k1 = v" "get_page es k1 \<noteq> None" by (simp_all add: versions_exact_def)
  then obtain t1 p1 where k1: "fst k1 = v" "get_page es k1 = Some (t1, p1)" by auto
  with vers known have "compatible (immutable (cp_metadata p1)) m" by (simp add: known_version_def get_page_def)
  moreover have "compatible (immutable (cp_metadata p)) (immutable (cp_metadata p1))"
    using ex(3) page k1 unfolding pages_ok_def by metis
  ultimately show ?thesis by (simp add: compatible_def)
qed

lemma tick_len_put:
  assumes "entries_ok es" and "entries_ok es'" and "get_page es k = None" and "get_page es' = (get_page es)(k \<mapsto> e)"
  shows "tick_len (et_lru es') = Suc (tick_len (et_lru es))"
  using tick_len_card [OF assms(1)] tick_len_card [OF assms(2)] assms(3,4) by (simp add: domIff)

lemma tick_len_del:
  assumes "entries_ok es" and "entries_ok es'" and "get_page es k \<noteq> None" and "get_page es' = (get_page es)(k := None)"
  shows "Suc (tick_len (et_lru es')) = tick_len (et_lru es)"
proof -
  have "card (dom (get_page es)) = Suc (card (dom (get_page es) - {k}))"
    using tick_len_card [OF assms(1)] assms(3) by (intro card.remove) (auto simp: domIff)
  moreover have "dom (get_page es') = dom (get_page es) - {k}" unfolding assms(4) by (rule dom_fun_upd [THEN trans]) simp
  ultimately show ?thesis using tick_len_card [OF assms(1)] tick_len_card [OF assms(2)] by metis
qed

text \<open>A new plaintext handle in an entry.\<close>

lemma plaintext_update_ok:
  fixes i :: nat
  assumes ok: "entries_ok es" and key: "get_page es k = Some (t, p)"
  defines "es' \<equiv> es\<lparr>et_lru := (et_lru es)\<lparr>tl_pages :=
    hm_update k (\<lambda>e. (fst e, (snd e)\<lparr>cp_plaintext := i\<rparr>)) (tl_pages (et_lru es))\<rparr>\<rparr>"
  shows "entries_ok es' \<and> get_page es' = (get_page es)(k \<mapsto> (t, p\<lparr>cp_plaintext := i\<rparr>)) \<and>
    tl_clock (et_lru es') = tl_clock (et_lru es)"
proof -
  have pages: "get_page es' = (get_page es)(k \<mapsto> (t, p\<lparr>cp_plaintext := i\<rparr>))"
    using key by (simp add: es'_def get_page_def)
  have "(\<exists>v. get_page es' x = Some (u, v)) \<longleftrightarrow> (\<exists>v. get_page es x = Some (u, v))" for x u
    using key by (auto simp: pages)
  then have "tick_ok by_cache (et_lru es')"
    using ok by (simp add: entries_ok_def tick_ok_def es'_def get_page_def)
  moreover have "versions_wf es'" using ok by (simp add: entries_ok_def es'_def)
  moreover have "versions_exact es'"
  proof -
    have "get_page es' x = None \<longleftrightarrow> get_page es x = None" for x using key by (auto simp: pages)
    moreover have "version_pages es' = version_pages es" by (simp add: es'_def)
    ultimately show ?thesis using ok by (simp add: entries_ok_def versions_exact_def)
  qed
  moreover have "pages_ok (get_page es')"
  proof -
    have old: "pages_ok (get_page es)" using ok by (simp add: entries_ok_def)
    have same: "\<exists>q0. get_page es x = Some (u, q0) \<and> cp_metadata q0 = cp_metadata q \<and> cp_ciphertext q0 = cp_ciphertext q"
      if "get_page es' x = Some (u, q)" for x u q
      using that key by (cases "x = k") (auto simp: pages)
    show ?thesis
      unfolding pages_ok_def
    proof (intro conjI allI impI)
      fix x u q assume "get_page es' x = Some (u, q)"
      from same [OF this] obtain q0 where
        q0: "get_page es x = Some (u, q0)" "cp_metadata q0 = cp_metadata q" "cp_ciphertext q0 = cp_ciphertext q" by auto
      have "page_ok x q0" using old q0(1) by (simp add: pages_ok_def)
      then show "page_ok x q" using q0 by (simp add: page_ok_def)
    next
      fix x y u w q r
      assume x: "get_page es' x = Some (u, q)" and y: "get_page es' y = Some (w, r)" and v: "fst x = fst y"
      from same [OF x] same [OF y] obtain q0 r0 where
        "get_page es x = Some (u, q0)" "get_page es y = Some (w, r0)" "cp_metadata q0 = cp_metadata q"
        "cp_metadata r0 = cp_metadata r" by auto
      with old v show "compatible (immutable (cp_metadata q)) (immutable (cp_metadata r))"
        unfolding pages_ok_def by metis
    qed
  qed
  ultimately show ?thesis using pages by (simp add: entries_ok_def es'_def)
qed

text \<open>What an entry keeps when its page is published again: everything but the plaintext handle.\<close>

definition entry_kept :: "page_result \<Rightarrow> (nat \<times> cached_page) option \<Rightarrow> (nat \<times> cached_page) option \<Rightarrow> bool" where
  "entry_kept page old new \<longleftrightarrow>
     (\<exists>t p. new = Some (t, p) \<and>
        (case old of
           None \<Rightarrow> p = cached_new page
         | Some (t0, p0) \<Rightarrow> t = t0 \<and> cp_metadata p = cp_metadata p0 \<and> cp_ciphertext p = cp_ciphertext p0))"

lemma insert_entry_uses:
  assumes ok: "entries_ok es" and room: "tl_clock (et_lru es) < u64_max"
    and key: "k = vp_page (pg_plaintext page)" and new: "get_page es k = None" and page: "page_ok k (cached_new page)"
    and compat: "\<And>k' t' p'. get_page es k' = Some (t', p') \<Longrightarrow> fst k' = fst k \<Longrightarrow>
      compatible (immutable (cp_metadata p')) (immutable (pg_metadata page))"
  obtains es' where "entries_insert page es = (Inr (), es')" and "entries_uses es {} es'"
    and "get_page es' = (get_page es)(k \<mapsto> (tl_clock (et_lru es) + 1, cached_new page))"
    and "tick_len (et_lru es') = Suc (tick_len (et_lru es))"
proof -
  have ins: "fst (entries_insert page es) = Inr () \<and> entries_uses es {} (snd (entries_insert page es)) \<and>
      get_page (snd (entries_insert page es)) = (get_page es)(k \<mapsto> (tl_clock (et_lru es) + 1, cached_new page))"
    by (rule entries_insert_uses [OF ok room key new page]) (erule (1) compat)
  have "entries_ok (snd (entries_insert page es))" using ins by (simp add: entries_uses_def)
  from tick_len_put [OF ok this new] ins that [of "snd (entries_insert page es)"] show ?thesis
    by (cases "entries_insert page es") simp
qed

lemma admit_entry_uses:
  assumes ok: "entries_ok es" and room: "tl_clock (et_lru es) < u64_max"
    and key: "k = vp_page (pg_plaintext page)" and page: "page_ok k (cached_new page)"
    and compat: "\<And>k' t' p'. get_page es k' = Some (t', p') \<Longrightarrow> fst k' = fst k \<Longrightarrow>
      compatible (immutable (cp_metadata p')) (immutable (pg_metadata page))"
  obtains r es' where "admit_entry env page n es = Some (r, es')" and "entries_uses es {} es'"
    and "\<And>x. get_page es x = None \<Longrightarrow> x \<noteq> k \<Longrightarrow> get_page es' x = None"
    and "tick_len (et_lru es') + n \<le> max (tick_len (et_lru es) + n) (me_entry_limit env)"
    and "r = Inr () \<Longrightarrow> entry_kept page (get_page es k) (get_page es' k)"
proof (cases "get_page es k")
  case (Some e)
  obtain t p where e: "e = (t, p)" by fastforce
  have get: "hm_get (tl_pages (et_lru es)) (vp_page (pg_plaintext page)) = Some (t, p)"
    using Some e key by (simp add: get_page_def)
  have kept: "entry_kept page (Some (t, p)) (Some (t, p\<lparr>cp_plaintext := i\<rparr>))" "entry_kept page (Some (t, p)) (Some (t, p))" for i
    by (simp_all add: entry_kept_def)
  show ?thesis
  proof (cases "me_live env (cp_plaintext p)")
    case live: (Some live)
    have "admit_entry env page n es =
        Some (if vp_bytes live \<noteq> vp_bytes (pg_plaintext page) then Inl CorruptRecord else Inr (), es)"
      using get live by (simp add: admit_entry_def Let_def)
    moreover have "entries_uses es {} es" using sub_entries_refl [OF ok] by (rule sub_entries_uses) simp
    ultimately show ?thesis using that [of _ es] kept Some e by auto
  next
    case None
    let ?i = "vp_inner (pg_plaintext page)"
    let ?es = "es\<lparr>et_lru := (et_lru es)\<lparr>tl_pages :=
      hm_update k (\<lambda>e. (fst e, (snd e)\<lparr>cp_plaintext := ?i\<rparr>)) (tl_pages (et_lru es))\<rparr>\<rparr>"
    have upd: "entries_ok ?es" "get_page ?es = (get_page es)(k \<mapsto> (t, p\<lparr>cp_plaintext := ?i\<rparr>))"
      "tl_clock (et_lru ?es) = tl_clock (et_lru es)"
      using plaintext_update_ok [OF ok, of k t p ?i] Some e by blast+
    have "\<exists>p0. get_page es x = Some (u, p0)" if "get_page ?es x = Some (u, q)" for x u q
      using that Some e unfolding upd(2) by (cases "x = k") auto
    then have "entries_uses es {} ?es" using upd(1,3) unfolding entries_uses_def by auto
    moreover have "tick_len (et_lru ?es) = tick_len (et_lru es)" by (simp add: tick_len_def)
    moreover have "admit_entry env page n es = Some (Inr (), ?es)"
      using get None key by (simp add: admit_entry_def Let_def)
    ultimately show ?thesis using that [of "Inr ()" ?es] kept(1) Some e unfolding upd(2) by auto
  qed
next
  case None
  have get: "hm_get (tl_pages (et_lru es)) (vp_page (pg_plaintext page)) = None"
    using None key by (simp add: get_page_def)
  show ?thesis
  proof (cases "tick_len (et_lru es) + n \<ge> me_entry_limit env")
    case False
    obtain es' where ins: "entries_insert page es = (Inr (), es')" "entries_uses es {} es'"
      "get_page es' = (get_page es)(k \<mapsto> (tl_clock (et_lru es) + 1, cached_new page))"
      "tick_len (et_lru es') = Suc (tick_len (et_lru es))"
      by (rule insert_entry_uses [OF ok room key None page]) (erule (1) compat, blast)
    have "admit_entry env page n es = Some (Inr (), es')" using get False ins(1) by (simp add: admit_entry_def Let_def)
    with that [of "Inr ()" es'] ins False None show ?thesis by (auto simp: entry_kept_def)
  next
    case True
    obtain r s l where victim: "tick_victim (\<lambda>s p. (idle_page env p, s)) (0 :: nat) (et_lru es) = Some (r, s, l)"
      "sub_entries (\<lambda>_ _. False) es (es\<lparr>et_lru := l\<rparr>)" "get_page (es\<lparr>et_lru := l\<rparr>) = get_page es"
      "\<And>v. r = Some v \<Longrightarrow> \<exists>t p. get_page es v = Some (t, p) \<and> idle_page env p"
      using victim_uses [OF ok, of env] by blast
    let ?e1 = "es\<lparr>et_lru := l\<rparr>"
    have ok1: "entries_ok ?e1" using victim(2) by (simp add: sub_entries_def)
    have len1: "tick_len (et_lru ?e1) = tick_len (et_lru es)"
      using tick_len_card [OF ok1] tick_len_card [OF ok] victim(3) by simp
    show ?thesis
    proof (cases r)
      case none: None
      have "admit_entry env page n es = Some (Inl Overloaded, ?e1)"
        using get True victim(1) none by (simp add: admit_entry_def Let_def)
      with that [of "Inl Overloaded" ?e1] sub_entries_uses [OF victim(2), of "{}"] victim(3) len1 show ?thesis by simp
    next
      case (Some v)
      let ?e2 = "snd (entries_remove v ?e1)"
      have sub: "sub_entries (\<lambda>_ _. True) ?e1 ?e2" by (rule entries_remove_sub(1) [OF ok1]) simp
      have get2: "get_page ?e2 = (get_page es)(v := None)" using entries_remove_sub(2) [OF ok1, of v] victim(3) by simp
      have ok2: "entries_ok ?e2" and clock2: "tl_clock (et_lru ?e2) = tl_clock (et_lru es)"
        using sub victim(2) by (simp_all add: sub_entries_def)
      have "get_page ?e1 v \<noteq> None" using victim(4) [OF Some] victim(3) by auto
      then have len2: "Suc (tick_len (et_lru ?e2)) = tick_len (et_lru es)"
        using tick_len_del [OF ok1 ok2, of v] get2 victim(3) len1 by simp
      have new2: "get_page ?e2 k = None" using None get2 by simp
      have room2: "tl_clock (et_lru ?e2) < u64_max" using room clock2 by simp
      have compat2: "compatible (immutable (cp_metadata p')) (immutable (pg_metadata page))"
        if "get_page ?e2 k' = Some (t', p')" "fst k' = fst k" for k' t' p'
        using that compat [of k' t' p'] by (simp add: get2 split: if_splits)
      obtain es' where ins: "entries_insert page ?e2 = (Inr (), es')" "entries_uses ?e2 {} es'"
        "get_page es' = (get_page ?e2)(k \<mapsto> (tl_clock (et_lru ?e2) + 1, cached_new page))"
        "tick_len (et_lru es') = Suc (tick_len (et_lru ?e2))"
        by (rule insert_entry_uses [OF ok2 room2 key new2 page]) (erule (1) compat2, blast)
      have "entries_uses es {} es'"
        by (rule entries_uses_sub [OF sub_entries_mono [OF victim(2)] entries_uses_sub [OF sub ins(2)]]) simp
      moreover have "admit_entry env page n es = Some (Inr (), es')"
        using get True victim(1) Some ins(1) by (simp add: admit_entry_def Let_def)
      moreover have "get_page es' x = None" if "get_page es x = None" "x \<noteq> k" for x
        using that by (simp add: ins(3) get2)
      ultimately show ?thesis
        using that [of "Inr ()" es'] ins(3,4) len2 None by (simp add: entry_kept_def)
    qed
  qed
qed

lemma publish_uses:
  assumes ok: "mem_ok mc0" and room: "tl_clock (et_lru (mc_entries mc0)) < u64_max"
  obtains r mc1 where "publish env page0 mc0 = Some (r, mc1)" and "mem_uses mc0 {} mc1"
    and "mc_len mc1 \<le> max (mc_len mc0) (me_entry_limit env)"
    and "r = Inr () \<Longrightarrow> \<not> av_passthrough env (fst (fst (vm_version (pg_metadata page0)))) \<Longrightarrow>
      \<exists>c. (if ct_registered (pg_ciphertext page0) \<and> mc_get mc0 (vp_page (pg_plaintext page0)) = None
          then retainable env (pg_ciphertext page0) else Inr (pg_ciphertext page0)) = Inr c \<and>
        entry_kept (page0\<lparr>pg_ciphertext := c\<rparr>) (mc_get mc0 (vp_page (pg_plaintext page0)))
          (mc_get mc1 (vp_page (pg_plaintext page0)))"
proof -
  let ?k = "vp_page (pg_plaintext page0)"
  let ?res = "if ct_registered (pg_ciphertext page0) \<and> mc_get mc0 ?k = None
    then retainable env (pg_ciphertext page0) else Inr (pg_ciphertext page0)"
  note found = that
  have same: ?thesis if eq: "publish env page0 mc0 = Some (r, mc0)"
      and r: "r = Inr () \<Longrightarrow> av_passthrough env (fst (fst (vm_version (pg_metadata page0))))" for r
    using eq r mem_uses_refl [OF ok] by (intro found [of r mc0]) auto
  show ?thesis
  proof (cases "pool_validate_page env page0")
    case (Inl e)
    then show ?thesis by (intro same [of "Inl e"]) (simp_all add: publish_def)
  next
    case valid: (Inr u)
    note key = pool_validate_page_key [OF valid]
    show ?thesis
    proof (cases "av_passthrough env (fst (fst (vm_version (pg_metadata page0))))")
      case True
      with valid show ?thesis by (intro same [of "Inr ()"]) (simp_all add: publish_def)
    next
      case cached: False
      then have pub: "publish env page0 mc0 = publish_validated env page0 mc0" using valid by (simp add: publish_def)
      show ?thesis
      proof (cases ?res)
        case (Inl e)
        then show ?thesis by (intro same [of "Inl e"]) (simp_all add: pub publish_validated_def)
      next
        case (Inr c)
        then have envelope: "ct_envelope c = ct_envelope (pg_ciphertext page0)"
          using retainable_envelope by (auto split: if_splits)
        let ?page = "page0\<lparr>pg_ciphertext := c\<rparr>"
        let ?mc = "mc0\<lparr>mc_ciphertext := snd (ordered_remove by_cache ?k (mc_ciphertext mc0))\<rparr>"
        have oc: "ordered_ok by_cache (mc_ciphertext mc0)" using ok by (simp add: mem_ok_def)
        have sub: "sub_memory (\<lambda>_ _. True) mc0 ?mc"
          using ok ordered_remove_sub [OF oc, of ?k "\<lambda>_ _. True"] by (simp add: sub_memory_cipher)
        have mok: "mem_ok ?mc" by (rule sub_memory_ok [OF ok sub])
        have gone: "cipher_at ?mc ?k = None" by (simp add: cipher_at_def)
        have len: "mc_len ?mc \<le> mc_len mc0" by (rule sub_memory_len [OF ok sub])
        show ?thesis
        proof (cases "\<not> av_cache env (page_cache ?k) \<or>
            \<not> av_page env (fst (fst (vm_version (pg_metadata page0)))) (en_key_id (ct_envelope c)) \<or>
            (case known_version (mc_entries mc0) (vm_version (pg_metadata page0)) of None \<Rightarrow> False
             | Some q \<Rightarrow> \<not> compatible (immutable (cp_metadata q)) (immutable (pg_metadata page0)))")
          case True
          then have "\<exists>e. publish env page0 mc0 = Some (Inl e, ?mc)"
            unfolding pub publish_validated_def Inr by (auto simp: Let_def cong: option.case_cong)
          with sub_memory_uses [OF ok sub] len found [of "Inl _" ?mc] show ?thesis by fastforce
        next
          case False
          have oe: "entries_ok (mc_entries mc0)" using ok by (simp add: mem_ok_def)
          have pok: "page_ok ?k (cached_new ?page)" using key envelope by (simp add: page_ok_def cached_new_def)
          have known: "case known_version (mc_entries mc0) (fst ?k) of None \<Rightarrow> True
              | Some q \<Rightarrow> compatible (immutable (cp_metadata q)) (immutable (pg_metadata ?page))"
            using False key(2) by (auto split: option.splits)
          have compat: "compatible (immutable (cp_metadata p')) (immutable (pg_metadata ?page))"
            if "get_page (mc_entries mc0) k' = Some (t', p')" "fst k' = fst ?k" for k' t' p'
            by (rule known_version_compatible [OF oe known that])
          have kk: "?k = vp_page (pg_plaintext ?page)" by simp
          let ?n = "length (ol_pages (mc_ciphertext ?mc))"
          obtain r es where admit: "admit_entry env ?page ?n (mc_entries mc0) = Some (r, es)"
            "entries_uses (mc_entries mc0) {} es"
            "\<And>x. get_page (mc_entries mc0) x = None \<Longrightarrow> x \<noteq> ?k \<Longrightarrow> get_page es x = None"
            "tick_len (et_lru es) + ?n \<le> max (tick_len (et_lru (mc_entries mc0)) + ?n) (me_entry_limit env)"
            "r = Inr () \<Longrightarrow> entry_kept ?page (get_page (mc_entries mc0) ?k) (get_page es ?k)"
            by (rule admit_entry_uses [OF oe room kk pok, of env ?n]) (erule (1) compat, blast)
          have run: "publish env page0 mc0 = Some (r, ?mc\<lparr>mc_entries := es\<rparr>)"
            using False admit(1) unfolding pub publish_validated_def Inr by (simp add: Let_def cong: option.case_cong)
          have mem: "mem_uses ?mc {} (?mc\<lparr>mc_entries := es\<rparr>)"
            using admit(2,3) gone by (intro mem_uses_entries [OF mok]) (auto simp: cipher_at_def split: if_splits)
          have "cipher_uses (mc_ciphertext mc0) {} (mc_ciphertext ?mc)"
            using sub_memory_uses [OF ok sub] by (simp add: mem_uses_def)
          with mem have "mem_uses mc0 {} (?mc\<lparr>mc_entries := es\<rparr>)" by (simp add: mem_uses_def)
          moreover have "mc_len (?mc\<lparr>mc_entries := es\<rparr>) \<le> max (mc_len mc0) (me_entry_limit env)"
            using admit(4) len by (simp add: mc_len_def)
          ultimately show ?thesis using found [OF run] admit(5) Inr by (simp add: mc_get_page)
        qed
      qed
    qed
  qed
qed

subsection \<open>Lookups\<close>

lemma entries_uses_mono: "entries_uses es S es' \<Longrightarrow> T \<subseteq> S \<Longrightarrow> entries_uses es T es'"
  unfolding entries_uses_def by (meson subsetD)

lemma cipher_uses_mono: "cipher_uses ces S ces' \<Longrightarrow> T \<subseteq> S \<Longrightarrow> cipher_uses ces T ces'"
  unfolding cipher_uses_def by (meson subsetD)

lemma mem_uses_mono: "mem_uses mc S mc' \<Longrightarrow> T \<subseteq> S \<Longrightarrow> mem_uses mc T mc'"
  unfolding mem_uses_def using entries_uses_mono cipher_uses_mono by blast

lemma mem_uses_sub:
  assumes "sub_memory P mc mc1" and "mem_uses mc1 S mc2"
  shows "mem_uses mc S mc2"
  using assms unfolding mem_uses_def sub_memory_def by (auto intro: entries_uses_sub cipher_uses_sub)

text \<open>What a lookup may serve: the page asked for, of a cache that is published and retains pages, under a leased key.\<close>

definition admitted :: "memory_env \<Rightarrow> page_id \<Rightarrow> object_metadata \<Rightarrow> ciphertext_page \<Rightarrow> bool" where
  "admitted env k m c \<longleftrightarrow>
     vm_version m = fst k \<and> en_page (ct_envelope c) = k \<and>
     av_cache env (page_cache k) \<and> \<not> av_passthrough env (page_cache k) \<and>
     me_lease env (page_cache k) (en_key_id (ct_envelope c))"

lemma available_admitted:
  "page_available env p \<Longrightarrow> page_ok k p \<Longrightarrow> admitted env k (cp_metadata p) (cp_ciphertext p)"
  by (simp add: admitted_def page_available_def page_ok_def page_cache_def av_page_def)

lemma unverified_admitted:
  "\<not> unverified_stale env k p \<Longrightarrow> cipher_ok k p \<Longrightarrow> admitted env k (cc_metadata (up_copy p)) (cc_ciphertext (up_copy p))"
  by (simp add: admitted_def unverified_stale_def cipher_ok_def av_page_def)

lemma verified_page_ok: "mem_ok mc \<Longrightarrow> mc_get mc k = Some (t, p) \<Longrightarrow> page_ok k p"
  by (simp add: mem_ok_def entries_ok_def pages_ok_def mc_get_page)

lemma lookup_uses:
  assumes ok: "mem_ok mc" and room: "tl_clock (et_lru (mc_entries mc)) < u64_max"
  obtains r mc1 where "mc_lookup env k mc = (Inr r, mc1)" and "mem_uses mc (served r k) mc1"
    and "mc_len mc1 \<le> mc_len mc"
    and "\<And>q. r = Some q \<Longrightarrow> admitted env k (pg_metadata q) (pg_ciphertext q) \<and>
      (\<exists>t p. mc_get mc k = Some (t, p) \<and> cached_live env p = Some q)"
proof -
  obtain r mc1 where v: "verified env k mc = (Inr r, mc1)" "mem_uses mc (served r k) mc1" "mc_len mc1 \<le> mc_len mc"
    "\<And>p. r = Some p \<Longrightarrow> page_available env p \<and> (\<exists>t. mc_get mc k = Some (t, p))"
    by (rule verified_mem_uses [OF ok room, of env k]) blast
  let ?r = "case r of None \<Rightarrow> None | Some p \<Rightarrow> cached_live env p"
  have "mem_uses mc (served ?r k) mc1" using v(2) by (rule mem_uses_mono) (auto simp: served_def split: option.splits)
  moreover have "admitted env k (pg_metadata q) (pg_ciphertext q) \<and>
      (\<exists>t p. mc_get mc k = Some (t, p) \<and> cached_live env p = Some q)" if "?r = Some q" for q
  proof -
    from that obtain p where p: "r = Some p" "cached_live env p = Some q" by (auto split: option.splits)
    with v(4) obtain t where t: "page_available env p" "mc_get mc k = Some (t, p)" by blast
    have "pg_metadata q = cp_metadata p" "pg_ciphertext q = cp_ciphertext p" using p(2) by (auto simp: cached_live_def)
    with available_admitted [OF t(1) verified_page_ok [OF ok t(2)]] t(2) p(2) show ?thesis by auto
  qed
  ultimately show ?thesis using that [of ?r mc1] v(1,3) by (simp add: mc_lookup_def)
qed

lemma copy_uses:
  assumes ok: "mem_ok mc" and room: "tl_clock (et_lru (mc_entries mc)) < u64_max" "ol_clock (mc_ciphertext mc) < u64_max"
  obtains r mc1 where "mc_copy env k mc = (Inr r, mc1)" and "mem_uses mc (served r k) mc1"
    and "mc_len mc1 \<le> mc_len mc"
    and "\<And>c. r = Some c \<Longrightarrow> admitted env k (cc_metadata c) (cc_ciphertext c)"
proof -
  obtain r1 mc1 where v: "verified env k mc = (Inr r1, mc1)" "mem_uses mc (served r1 k) mc1"
    "mc_ciphertext mc1 = mc_ciphertext mc" "mc_len mc1 \<le> mc_len mc"
    "\<And>p. r1 = Some p \<Longrightarrow> page_available env p \<and> (\<exists>t. mc_get mc k = Some (t, p))"
    "r1 = None \<Longrightarrow> sub_memory (\<lambda>_ _. True) mc mc1"
    by (rule verified_mem_uses [OF ok room(1), of env k]) blast
  show ?thesis
  proof (cases r1)
    case (Some p)
    from v(5) [OF Some] obtain t where t: "page_available env p" "mc_get mc k = Some (t, p)" by blast
    from available_admitted [OF t(1) verified_page_ok [OF ok t(2)]] that [of "Some (cached_copy p)" mc1] Some v(1,2,4)
    show ?thesis by (simp add: mc_copy_def cached_copy_def)
  next
    case None
    have sub: "sub_memory (\<lambda>_ _. True) mc mc1" by (rule v(6) [OF None])
    have ok1: "mem_ok mc1" by (rule sub_memory_ok [OF ok sub])
    have room1: "tl_clock (et_lru (mc_entries mc1)) < u64_max" "ol_clock (mc_ciphertext mc1) < u64_max"
      using sub room by (simp_all add: sub_memory_def sub_entries_def sub_cipher_def)
    obtain r mc2 where u: "unverified env k mc1 = (Inr r, mc2)" "mem_uses mc1 (served r k) mc2" "mc_len mc2 \<le> mc_len mc1"
      "\<And>p. r = Some p \<Longrightarrow> \<not> unverified_stale env k p \<and> cipher_ok k p"
      by (rule unverified_uses [OF ok1 room1, of env k]) blast
    have "mc_copy env k mc = (Inr (map_option up_copy r), mc2)" using v(1) None u(1) by (simp add: mc_copy_def)
    moreover have "mem_uses mc (served (map_option up_copy r) k) mc2"
      using mem_uses_sub [OF sub u(2)] by (cases r) simp_all
    moreover have "admitted env k (cc_metadata c) (cc_ciphertext c)" if "map_option up_copy r = Some c" for c
      using that u(4) unverified_admitted by fastforce
    ultimately show ?thesis using that [of "map_option up_copy r" mc2] u(3) v(4) by simp
  qed
qed

end
