(* ===== verification/Racer_Memory_Runs.thy ===== *)
theory Racer_Memory_Runs
  imports Racer_Memory_Uses
begin

section \<open>Runs of the memory cache\<close>

text \<open>
  What holds of every sequence of operations of the memory cache: the invariant of \<open>Racer_Memory_Props\<close>
  and the entry limit are kept and no operation fails an index; a lookup serves only what is admitted; a
  published page is served again; reclamation takes only what nobody shares, and for an owner only the
  owner's pages; idle expiry releases only what nobody used for \<open>IDLE_TTL\<close>.
\<close>

declare split_paired_All [simp del] split_paired_Ex [simp del]

subsection \<open>Idle expiry\<close>

text \<open>
  The clocks of a checkpoint separate uses before its time from later ones: an entry whose tick is not
  beyond the checkpoint's clock was last used no later than the checkpoint. The last use of each page is
  the function \<open>L\<close>.
\<close>

definition checkpoint_ok :: "(page_id \<Rightarrow> instant) \<Rightarrow> instant \<Rightarrow> memory_cache \<Rightarrow> instant \<times> nat \<times> nat \<Rightarrow> bool" where
  "checkpoint_ok L now mc cp \<longleftrightarrow>
     fst cp \<le> now \<and> fst (snd cp) \<le> tl_clock (et_lru (mc_entries mc)) \<and> snd (snd cp) \<le> ol_clock (mc_ciphertext mc) \<and>
     (\<forall>k t p. get_page (mc_entries mc) k = Some (t, p) \<longrightarrow> t \<le> fst (snd cp) \<longrightarrow> L k \<le> fst cp) \<and>
     (\<forall>k t. hm_get (ol_ticks (mc_ciphertext mc)) k = Some t \<longrightarrow> t \<le> snd (snd cp) \<longrightarrow> L k \<le> fst cp)"

definition cp_older :: "instant \<times> nat \<times> nat \<Rightarrow> instant \<times> nat \<times> nat \<Rightarrow> bool" where
  "cp_older a b \<longleftrightarrow> fst a \<le> fst b \<and> fst (snd a) \<le> fst (snd b) \<and> snd (snd a) \<le> snd (snd b)"

definition front_clock :: "(nat \<times> nat \<Rightarrow> nat) \<Rightarrow> (instant \<times> nat \<times> nat) list \<Rightarrow> nat" where
  "front_clock f cs = (case cs of [] \<Rightarrow> 0 | cp # _ \<Rightarrow> f (snd cp))"

definition cursors_ok :: "expiry \<Rightarrow> bool" where
  "cursors_ok x \<longleftrightarrow>
     (\<forall>t. ex_verified x = Some t \<longrightarrow> t \<le> front_clock fst (ex_checkpoints x)) \<and>
     (\<forall>t. ex_ciphertext x = Some t \<longrightarrow> t \<le> front_clock snd (ex_checkpoints x))"

definition expiry_ok :: "(page_id \<Rightarrow> instant) \<Rightarrow> instant \<Rightarrow> memory_cache \<Rightarrow> bool" where
  "expiry_ok L now mc \<longleftrightarrow>
     (\<forall>k. L k \<le> now) \<and> sorted_wrt cp_older (ex_checkpoints (mc_expiry mc)) \<and>
     (\<forall>cp \<in> set (ex_checkpoints (mc_expiry mc)). checkpoint_ok L now mc cp) \<and> cursors_ok (mc_expiry mc)"

text \<open>The pages an operation stores, in either table.\<close>

definition mem_stored :: "memory_cache \<Rightarrow> memory_cache \<Rightarrow> page_id set" where
  "mem_stored mc mc' = (dom (mc_get mc') - dom (mc_get mc)) \<union> (dom (cipher_at mc') - dom (cipher_at mc))"

lemma checkpoint_ok_uses:
  assumes cp: "checkpoint_ok L T mc cp" and ok: "mem_ok mc" and uses: "mem_uses mc S mc'" and now: "T \<le> now"
  shows "checkpoint_ok (\<lambda>k. if k \<in> S \<union> mem_stored mc mc' then now else L k) now mc' cp"
proof -
  have ok': "mem_ok mc'" and e: "entries_uses (mc_entries mc) S (mc_entries mc')"
    and c: "cipher_uses (mc_ciphertext mc) S (mc_ciphertext mc')" using uses by (simp_all add: mem_uses_def)
  have oc: "ordered_ok by_cache (mc_ciphertext mc)" "ordered_ok by_cache (mc_ciphertext mc')"
    using ok ok' by (simp_all add: mem_ok_def)
  have "(if k \<in> S \<union> mem_stored mc mc' then now else L k) \<le> fst cp"
    if k: "get_page (mc_entries mc') k = Some (t, p)" and t: "t \<le> fst (snd cp)" for k t p
  proof -
    have "t \<le> tl_clock (et_lru (mc_entries mc))" using t cp by (simp add: checkpoint_ok_def)
    with e k obtain p0 where old: "k \<notin> S" "get_page (mc_entries mc) k = Some (t, p0)"
      unfolding entries_uses_def by (metis leD)
    moreover have "cipher_at mc' k = None" using mem_ok_apart [OF ok', of k] k by simp
    ultimately have "k \<notin> S \<union> mem_stored mc mc'" by (simp add: mem_stored_def mc_get_page domIff)
    with old(2) t cp show ?thesis by (simp add: checkpoint_ok_def)
  qed
  moreover have "(if k \<in> S \<union> mem_stored mc mc' then now else L k) \<le> fst cp"
    if k: "hm_get (ol_ticks (mc_ciphertext mc')) k = Some t" and t: "t \<le> snd (snd cp)" for k t
  proof -
    have "t \<le> ol_clock (mc_ciphertext mc)" using t cp by (simp add: checkpoint_ok_def)
    with c k have old: "k \<notin> S" "hm_get (ol_ticks (mc_ciphertext mc)) k = Some t"
      unfolding cipher_uses_def by (metis leD)+
    have "cipher_at mc' k \<noteq> None" "cipher_at mc k \<noteq> None"
      using k old(2) ordered_no_tick [OF oc(1), of k] ordered_no_tick [OF oc(2), of k] by (auto simp: cipher_at_def)
    moreover from this have "mc_get mc' k = None" using mem_ok_apart [OF ok', of k] by (auto simp: mc_get_page)
    ultimately have "k \<notin> S \<union> mem_stored mc mc'" using old(1) by (auto simp: mem_stored_def)
    with old(2) t cp show ?thesis by (simp add: checkpoint_ok_def)
  qed
  ultimately show ?thesis
    using cp now e c unfolding checkpoint_ok_def entries_uses_def cipher_uses_def by auto
qed

lemma expiry_ok_uses:
  assumes ex: "expiry_ok L T mc" and ok: "mem_ok mc" and uses: "mem_uses mc S mc'" and now: "T \<le> now"
  shows "expiry_ok (\<lambda>k. if k \<in> S \<union> mem_stored mc mc' then now else L k) now mc'"
proof -
  have same: "mc_expiry mc' = mc_expiry mc" using uses by (simp add: mem_uses_def)
  have "(if k \<in> S \<union> mem_stored mc mc' then now else L k) \<le> now" for k
    using ex now by (auto simp: expiry_ok_def intro: order_trans)
  moreover have "\<forall>cp \<in> set (ex_checkpoints (mc_expiry mc)).
      checkpoint_ok (\<lambda>k. if k \<in> S \<union> mem_stored mc mc' then now else L k) now mc' cp"
    using ex checkpoint_ok_uses [OF _ ok uses now] by (simp add: expiry_ok_def)
  ultimately show ?thesis using ex unfolding expiry_ok_def same by blast
qed

lemma checkpoint_ok_expiry [simp]: "checkpoint_ok L now (mc\<lparr>mc_expiry := x\<rparr>) = checkpoint_ok L now mc"
  by (simp add: checkpoint_ok_def fun_eq_iff)

lemma mem_ok_expiry [simp]: "mem_ok (mc\<lparr>mc_expiry := x\<rparr>) = mem_ok mc"
  by (simp add: mem_ok_def mc_get_def cipher_at_def)

lemma drop_aged_suffix: "\<exists>pre. cs = pre @ drop_aged now cs \<and> (cs = [] \<longleftrightarrow> drop_aged now cs = [])"
proof (induction now cs rule: drop_aged.induct)
  case (1 now c d cs)
  show ?case
  proof (cases "now - fst d \<ge> IDLE_TTL")
    case True
    with 1 obtain pre where "d # cs = pre @ drop_aged now (d # cs)" "drop_aged now (d # cs) \<noteq> []" by auto
    with True show ?thesis by (auto intro!: exI [of _ "c # pre"])
  qed simp
qed simp_all

lemma front_clock_suffix:
  assumes "sorted_wrt cp_older (pre @ cs)" and "cs = [] \<Longrightarrow> pre = []" and "f = fst \<or> f = snd"
  shows "front_clock f (pre @ cs) \<le> front_clock f cs"
  using assms by (cases pre; cases cs) (auto simp: front_clock_def cp_older_def)

text \<open>\<open>Expiry::advance\<close>: the front checkpoint is old enough when it gives a cutoff.\<close>

lemma expiry_advance_ok:
  assumes ex: "expiry_ok L T mc" and now: "T \<le> now"
  obtains r x where
    "expiry_advance now (tl_clock (et_lru (mc_entries mc))) (ol_clock (mc_ciphertext mc)) (mc_expiry mc) = (r, x)"
    and "expiry_ok L now (mc\<lparr>mc_expiry := x\<rparr>)"
    and "\<And>v c. r = Some (v, c) \<Longrightarrow>
      \<exists>at. (at, v, c) \<in> set (ex_checkpoints x) \<and> front_clock fst (ex_checkpoints x) = v \<and>
        front_clock snd (ex_checkpoints x) = c \<and> at + IDLE_TTL \<le> now"
proof -
  let ?v = "tl_clock (et_lru (mc_entries mc))" and ?c = "ol_clock (mc_ciphertext mc)" and ?x = "mc_expiry mc"
  let ?push = "ex_checkpoints ?x = [] \<or> now - fst (List.last (ex_checkpoints ?x)) \<ge> EXPIRY_CHECKPOINT"
  define x1 where "x1 = (if ?push
    then \<lparr>ex_checkpoints = ex_checkpoints ?x @ [(now, ?v, ?c)],
          ex_verified = Some (case ex_verified ?x of None \<Rightarrow> 0 | Some t \<Rightarrow> t),
          ex_ciphertext = Some (case ex_ciphertext ?x of None \<Rightarrow> 0 | Some t \<Rightarrow> t)\<rparr>
    else ?x)"
  have L: "L k \<le> now" for k using ex now by (auto simp: expiry_ok_def intro: order_trans)
  have old: "\<forall>cp \<in> set (ex_checkpoints ?x). checkpoint_ok L now mc cp"
    using ex now by (auto simp: expiry_ok_def checkpoint_ok_def)
  have "checkpoint_ok L now mc (now, ?v, ?c)" using L by (simp add: checkpoint_ok_def)
  with old have cps: "\<forall>cp \<in> set (ex_checkpoints x1). checkpoint_ok L now mc cp" by (simp add: x1_def)
  have "cp_older cp (now, ?v, ?c)" if "cp \<in> set (ex_checkpoints ?x)" for cp
    using old that by (auto simp: checkpoint_ok_def cp_older_def)
  then have sorted: "sorted_wrt cp_older (ex_checkpoints x1)"
    using ex by (auto simp: x1_def expiry_ok_def sorted_wrt_append)
  have "front_clock f (ex_checkpoints ?x) \<le> front_clock f (ex_checkpoints x1)" for f
    by (cases "ex_checkpoints ?x") (simp_all add: x1_def front_clock_def)
  then have cur1: "cursors_ok x1"
    using ex unfolding expiry_ok_def cursors_ok_def
    by (auto simp: x1_def intro: order_trans split: option.splits if_splits)
  define cs where "cs = drop_aged now (ex_checkpoints x1)"
  obtain pre where pre: "ex_checkpoints x1 = pre @ cs" "ex_checkpoints x1 = [] \<longleftrightarrow> cs = []"
    using drop_aged_suffix [of "ex_checkpoints x1" now] cs_def by blast
  have "front_clock f (ex_checkpoints x1) \<le> front_clock f cs" if "f = fst \<or> f = snd" for f
    using front_clock_suffix [of pre cs f] sorted pre that by auto
  then have "cursors_ok (x1\<lparr>ex_checkpoints := cs\<rparr>)"
    using cur1 unfolding cursors_ok_def by (auto intro: order_trans)
  moreover have "sorted_wrt cp_older cs" using sorted pre(1) by (simp add: sorted_wrt_append)
  moreover have "set cs \<subseteq> set (ex_checkpoints x1)" using pre(1) by auto
  ultimately have "expiry_ok L now (mc\<lparr>mc_expiry := x1\<lparr>ex_checkpoints := cs\<rparr>\<rparr>)"
    using L cps unfolding expiry_ok_def by auto
  moreover define r where "r = (case cs of [] \<Rightarrow> None | (at, v, c) # _ \<Rightarrow> if now - at \<ge> IDLE_TTL then Some (v, c) else None)"
  have "\<exists>at. (at, v, c) \<in> set cs \<and> front_clock fst cs = v \<and> front_clock snd cs = c \<and> at + IDLE_TTL \<le> now"
    if "r = Some (v, c)" for v c
    using that by (auto simp: r_def front_clock_def IDLE_TTL_def secs_def split: list.splits if_splits)
  moreover have "expiry_advance now ?v ?c ?x = (r, x1\<lparr>ex_checkpoints := cs\<rparr>)"
    unfolding expiry_advance_def Let_def x1_def [symmetric] cs_def [symmetric] r_def [symmetric] ..
  ultimately show ?thesis using that [of r "x1\<lparr>ex_checkpoints := cs\<rparr>"] by simp
qed

lemma bt_set_upto: "set (bt_upto c (bt_above a m)) = {p \<in> set m. a < fst p \<and> fst p \<le> c}"
  by (auto simp: bt_upto_def bt_above_def)

lemma expiring_selects:
  assumes "after \<le> cutoff" and "distinct (map snd order)"
  obtains sel nxt where "expiring order after cutoff n = Some (sel, nxt)" and "length sel \<le> n"
    and "\<forall>p \<in> set sel. p \<in> set order \<and> fst p \<le> cutoff" and "distinct (map snd sel)"
    and "\<And>t. nxt = Some t \<Longrightarrow> t \<le> cutoff"
proof -
  let ?sel = "take n (bt_upto cutoff (bt_above after order))"
  let ?nxt = "if length ?sel = n \<and> ?sel \<noteq> [] then Some (fst (List.last ?sel)) else None"
  have "set ?sel \<subseteq> set (bt_upto cutoff (bt_above after order))" by (rule set_take_subset)
  then have sel: "\<forall>p \<in> set ?sel. p \<in> set order \<and> fst p \<le> cutoff" unfolding bt_set_upto by blast
  have "distinct (map snd (bt_upto cutoff (bt_above after order)))"
    using assms(2) by (simp add: bt_upto_def bt_above_def distinct_map_filter)
  then have dist: "distinct (map snd ?sel)" unfolding take_map [symmetric] by (rule distinct_take)
  have "t \<le> cutoff" if "?nxt = Some t" for t
    using that sel last_in_set [of ?sel] by (auto split: if_splits)
  moreover have "expiring order after cutoff n = Some (?sel, ?nxt)"
    using assms(1) by (simp add: expiring_def Let_def)
  ultimately show ?thesis using that [of ?sel ?nxt] sel dist by simp
qed

lemma expire_verified_pass_ok:
  assumes ok: "entries_ok es" and cur: "\<And>t. cursor = Some t \<Longrightarrow> t \<le> cutoff"
  obtains gone nxt es' where "expire_verified_pass env cutoff cursor es = Some (gone, nxt, es')"
    and "sub_entries (reclaimable env None) es es'"
    and "length gone \<le> EXPIRY_BATCH" and "get_page es' = (\<lambda>x. if x \<in> set gone then None else get_page es x)"
    and "\<forall>k \<in> set gone. \<exists>t p. get_page es k = Some (t, p) \<and> t \<le> cutoff" and "\<And>t. nxt = Some t \<Longrightarrow> t \<le> cutoff"
proof (cases cursor)
  case None
  with that [of "[]" None es] sub_entries_refl [OF ok] show ?thesis by (simp add: expire_verified_pass_def)
next
  case (Some after)
  have tick: "tick_ok by_cache (et_lru es)" using ok by (simp add: entries_ok_def)
  obtain sel nxt where sel: "expiring (tl_lru (et_lru es)) after cutoff EXPIRY_BATCH = Some (sel, nxt)"
    "length sel \<le> EXPIRY_BATCH" "\<forall>p \<in> set sel. p \<in> set (tl_lru (et_lru es)) \<and> fst p \<le> cutoff"
    "distinct (map snd sel)" "\<And>t. nxt = Some t \<Longrightarrow> t \<le> cutoff"
    by (rule expiring_selects [OF cur [OF Some] tick_keys_distinct [OF tick], of EXPIRY_BATCH]) blast
  have here: "\<exists>p. get_page es (snd c) = Some (fst c, p) \<and> fst c \<le> cutoff" if "c \<in> set sel" for c
    using that sel(3) tick_listed [OF tick, of c] by (auto simp: get_page_def)
  then have "\<forall>k \<in> snd ` set sel. get_page es k \<noteq> None" by fastforce
  from expire_verified_sub [OF ok this sel(4), of env "[]"] obtain gone es' where
    gone: "expire_verified env sel ([], es) = Some (gone, es')" "sub_entries (reclaimable env None) es es'"
    "set gone \<subseteq> snd ` set sel" "length gone \<le> length sel"
    "get_page es' = (\<lambda>x. if x \<in> set gone then None else get_page es x)" by auto
  have "\<exists>t p. get_page es k = Some (t, p) \<and> t \<le> cutoff" if "k \<in> set gone" for k
    using gone(3) here that by blast
  with that [of gone nxt es'] sel(1,2,5) gone Some show ?thesis
    by (simp add: expire_verified_pass_def tick_expiring_def)
qed

lemma expire_unverified_pass_ok:
  assumes ok: "ordered_ok by_cache ces" and cur: "\<And>t. cursor = Some t \<Longrightarrow> t \<le> cutoff"
  obtains gone nxt ces' where "expire_unverified_pass env cutoff cursor ces = Some (gone, nxt, ces')"
    and "sub_cipher (reclaimable env None) ces ces'"
    and "length gone \<le> EXPIRY_BATCH"
    and "bt_get (ol_pages ces') = (\<lambda>x. if x \<in> set gone then None else bt_get (ol_pages ces) x)"
    and "\<forall>k \<in> set gone. \<exists>t. hm_get (ol_ticks ces) k = Some t \<and> t \<le> cutoff" and "\<And>t. nxt = Some t \<Longrightarrow> t \<le> cutoff"
proof (cases cursor)
  case None
  with that [of "[]" None ces] sub_cipher_refl [OF ok] show ?thesis by (simp add: expire_unverified_pass_def)
next
  case (Some after)
  obtain sel nxt where sel: "expiring (ol_order ces) after cutoff EXPIRY_BATCH = Some (sel, nxt)"
    "length sel \<le> EXPIRY_BATCH" "\<forall>p \<in> set sel. p \<in> set (ol_order ces) \<and> fst p \<le> cutoff"
    "distinct (map snd sel)" "\<And>t. nxt = Some t \<Longrightarrow> t \<le> cutoff"
    by (rule expiring_selects [OF cur [OF Some] ordered_keys_distinct [OF ok], of EXPIRY_BATCH]) blast
  have here: "hm_get (ol_ticks ces) (snd c) = Some (fst c)" "bt_get (ol_pages ces) (snd c) \<noteq> None" if "c \<in> set sel" for c
    using that sel(3) ordered_listed [OF ok, of c] by blast+
  then have "\<forall>k \<in> snd ` set sel. bt_get (ol_pages ces) k \<noteq> None" by blast
  from expire_unverified_sub [OF ok this sel(4), of env "[]"] obtain gone ces' where
    gone: "expire_unverified env sel ([], ces) = Some (gone, ces')" "sub_cipher (reclaimable env None) ces ces'"
    "set gone \<subseteq> snd ` set sel" "length gone \<le> length sel"
    "bt_get (ol_pages ces') = (\<lambda>x. if x \<in> set gone then None else bt_get (ol_pages ces) x)" by auto
  have "\<exists>t. hm_get (ol_ticks ces) k = Some t \<and> t \<le> cutoff" if "k \<in> set gone" for k
    using gone(3) here(1) sel(3) that by blast
  with that [of gone nxt ces'] sel(1,2,5) gone Some show ?thesis
    by (simp add: expire_unverified_pass_def ordered_expiring_def)
qed

text \<open>Releasing entries keeps the checkpoints valid.\<close>

lemma checkpoint_ok_drop:
  assumes "checkpoint_ok L now mc cp" and "sub_entries P (mc_entries mc) es" and "sub_cipher Q (mc_ciphertext mc) ces"
  shows "checkpoint_ok L now (mc\<lparr>mc_entries := es, mc_ciphertext := ces, mc_expiry := x\<rparr>) cp"
proof -
  have "L k \<le> fst cp" if "get_page es k = Some (t, p)" "t \<le> fst (snd cp)" for k t p
    using assms(1) map_le_Some [OF sub_entries_le [OF assms(2)] that(1)] that(2) by (simp add: checkpoint_ok_def)
  moreover have "L k \<le> fst cp" if "hm_get (ol_ticks ces) k = Some t" "t \<le> snd (snd cp)" for k t
    using assms(1,3) that map_le_Some [of "hm_get (ol_ticks ces)" "hm_get (ol_ticks (mc_ciphertext mc))" k t]
    by (simp add: checkpoint_ok_def sub_cipher_def)
  ultimately show ?thesis
    using assms by (auto simp: checkpoint_ok_def sub_entries_def sub_cipher_def)
qed

definition expires :: "(page_id \<Rightarrow> instant) \<Rightarrow> memory_env \<Rightarrow> instant \<Rightarrow> memory_cache \<Rightarrow> page_id list \<Rightarrow> page_id list \<Rightarrow>
    memory_cache \<Rightarrow> bool" where
  "expires L env now mc gone gone2 mc' \<longleftrightarrow>
     mem_ok mc' \<and> expiry_ok L now mc' \<and> sub_entries (reclaimable env None) (mc_entries mc) (mc_entries mc') \<and>
     sub_cipher (reclaimable env None) (mc_ciphertext mc) (mc_ciphertext mc') \<and>
     length gone \<le> EXPIRY_BATCH \<and> length gone2 \<le> EXPIRY_BATCH \<and>
     mc_get mc' = (\<lambda>x. if x \<in> set gone then None else mc_get mc x) \<and>
     cipher_at mc' = (\<lambda>x. if x \<in> set gone2 then None else cipher_at mc x) \<and>
     (\<forall>k \<in> set gone \<union> set gone2. L k + IDLE_TTL \<le> now)"

lemma expire_idle_ok:
  assumes ex: "expiry_ok L T mc" and ok: "mem_ok mc" and now: "T \<le> now"
  obtains gone gone2 mc' where "expire_idle env now mc = Some ((gone, gone2), mc')" and "expires L env now mc gone gone2 mc'"
proof -
  have oe: "entries_ok (mc_entries mc)" and oc: "ordered_ok by_cache (mc_ciphertext mc)" using ok by (simp_all add: mem_ok_def)
  obtain r x where adv:
    "expiry_advance now (tl_clock (et_lru (mc_entries mc))) (ol_clock (mc_ciphertext mc)) (mc_expiry mc) = (r, x)"
    "expiry_ok L now (mc\<lparr>mc_expiry := x\<rparr>)"
    "\<And>v c. r = Some (v, c) \<Longrightarrow> \<exists>at. (at, v, c) \<in> set (ex_checkpoints x) \<and> front_clock fst (ex_checkpoints x) = v \<and>
        front_clock snd (ex_checkpoints x) = c \<and> at + IDLE_TTL \<le> now"
    by (rule expiry_advance_ok [OF ex now]) blast
  have exp: "\<forall>k. L k \<le> now" "sorted_wrt cp_older (ex_checkpoints x)"
    "\<forall>cp \<in> set (ex_checkpoints x). checkpoint_ok L now mc cp" "cursors_ok x"
    using adv(2) by (simp_all add: expiry_ok_def)
  show ?thesis
  proof (cases r)
    case None
    have "expires L env now mc [] [] (mc\<lparr>mc_expiry := x\<rparr>)"
      using adv(2) ok oe oc unfolding expires_def by (simp add: mc_get_page cipher_at_def sub_entries_refl sub_cipher_refl)
    with that [of "[]" "[]" "mc\<lparr>mc_expiry := x\<rparr>"] adv(1) None show ?thesis by (simp add: expire_idle_def)
  next
    case (Some vc)
    obtain v c where vc: "vc = (v, c)" by fastforce
    with adv(3) Some obtain at where at: "(at, v, c) \<in> set (ex_checkpoints x)" "front_clock fst (ex_checkpoints x) = v"
      "front_clock snd (ex_checkpoints x) = c" "at + IDLE_TTL \<le> now" by blast
    have cp: "checkpoint_ok L now mc (at, v, c)" using exp(3) at(1) by blast
    have cur: "\<And>t. ex_verified x = Some t \<Longrightarrow> t \<le> v" "\<And>t. ex_ciphertext x = Some t \<Longrightarrow> t \<le> c"
      using exp(4) at(2,3) by (simp_all add: cursors_ok_def)
    obtain gone n es where V: "expire_verified_pass env v (ex_verified x) (mc_entries mc) = Some (gone, n, es)"
      "sub_entries (reclaimable env None) (mc_entries mc) es" "length gone \<le> EXPIRY_BATCH"
      "get_page es = (\<lambda>x. if x \<in> set gone then None else get_page (mc_entries mc) x)"
      "\<forall>k \<in> set gone. \<exists>t p. get_page (mc_entries mc) k = Some (t, p) \<and> t \<le> v" "\<And>t. n = Some t \<Longrightarrow> t \<le> v"
      by (rule expire_verified_pass_ok [OF oe, of "ex_verified x" v env]) (erule cur(1), blast)
    obtain gone2 m ces where C: "expire_unverified_pass env c (ex_ciphertext x) (mc_ciphertext mc) = Some (gone2, m, ces)"
      "sub_cipher (reclaimable env None) (mc_ciphertext mc) ces" "length gone2 \<le> EXPIRY_BATCH"
      "bt_get (ol_pages ces) = (\<lambda>x. if x \<in> set gone2 then None else bt_get (ol_pages (mc_ciphertext mc)) x)"
      "\<forall>k \<in> set gone2. \<exists>t. hm_get (ol_ticks (mc_ciphertext mc)) k = Some t \<and> t \<le> c" "\<And>t. m = Some t \<Longrightarrow> t \<le> c"
      by (rule expire_unverified_pass_ok [OF oc, of "ex_ciphertext x" c env]) (erule cur(2), blast)
    have idle: "L k + IDLE_TTL \<le> now" if "k \<in> set gone \<union> set gone2" for k
      using that V(5) C(5) cp at(4) by (fastforce simp: checkpoint_ok_def)
    let ?x = "x\<lparr>ex_verified := n, ex_ciphertext := m\<rparr>"
    let ?mc = "mc\<lparr>mc_entries := es, mc_ciphertext := ces, mc_expiry := ?x\<rparr>"
    have run: "expire_idle env now mc = Some ((gone, gone2), ?mc)"
      unfolding expire_idle_def using adv(1) Some vc V(1) C(1) by simp
    have "sub_memory (reclaimable env None) mc (mc\<lparr>mc_entries := es, mc_ciphertext := ces\<rparr>)"
      using V(2) C(2) by (simp add: sub_memory_def)
    then have "mem_ok (mc\<lparr>mc_entries := es, mc_ciphertext := ces\<rparr>)" by (rule sub_memory_ok [OF ok])
    then have "mem_ok ?mc" using mem_ok_expiry [of ?x "mc\<lparr>mc_entries := es, mc_ciphertext := ces\<rparr>"] by simp
    moreover have "\<forall>cp \<in> set (ex_checkpoints ?x). checkpoint_ok L now ?mc cp"
      using exp(3) checkpoint_ok_drop [OF _ V(2) C(2)] by simp
    moreover have "cursors_ok ?x" using V(6) C(6) at(2,3) by (simp add: cursors_ok_def)
    ultimately have "expires L env now mc gone gone2 ?mc"
      using V(2-4) C(2-4) exp(1,2) idle unfolding expires_def expiry_ok_def by (auto simp: mc_get_page cipher_at_def)
    with that [OF run] show ?thesis .
  qed
qed

subsection \<open>Operations and runs\<close>

text \<open>
  The operations of the cache with what they return. The state of the writer whose copies a reclamation
  may release is a number here.
\<close>

datatype mem_op =
    Op_Get page_id
  | Op_Ciphertext page_id
  | Op_Unverified page_id
  | Op_Publish page_result
  | Op_Publish_Ciphertext unverified_page
  | Op_Invalidate unverified_page
  | Op_Evict nat
  | Op_Reclaim_Idle bool "cache_id option" nat "nat \<Rightarrow> page_id \<Rightarrow> ciphertext_page \<Rightarrow> nat \<times> nat" nat
  | Op_Reclaim bool "cache_id option" nat "cache_id \<Rightarrow> nat" "nat \<Rightarrow> page_id \<Rightarrow> ciphertext_page \<Rightarrow> nat \<times> nat"
      "nat \<Rightarrow> cache_id option \<Rightarrow> nat \<Rightarrow> nat \<times> nat" nat
  | Op_Remove_Caches "cache_id list"
  | Op_Expire

datatype mem_reply =
    Re_Got "page_result option"
  | Re_Copied "ciphertext_copy option"
  | Re_Found "unverified_page option"
  | Re_Failed error
  | Re_Published "unit res"
  | Re_Released nat
  | Re_Expired "page_id list" "page_id list"
  | Re_Done

fun mem_step :: "memory_env \<Rightarrow> instant \<Rightarrow> mem_op \<Rightarrow> memory_cache \<Rightarrow> (mem_reply \<times> memory_cache) option" where
  "mem_step env now (Op_Get k) mc =
     (case mc_lookup env k mc of (Inl e, mc') \<Rightarrow> Some (Re_Failed e, mc') | (Inr r, mc') \<Rightarrow> Some (Re_Got r, mc'))"
| "mem_step env now (Op_Ciphertext k) mc =
     (case mc_copy env k mc of (Inl e, mc') \<Rightarrow> Some (Re_Failed e, mc') | (Inr r, mc') \<Rightarrow> Some (Re_Copied r, mc'))"
| "mem_step env now (Op_Unverified k) mc =
     (case unverified env k mc of (Inl e, mc') \<Rightarrow> Some (Re_Failed e, mc') | (Inr r, mc') \<Rightarrow> Some (Re_Found r, mc'))"
| "mem_step env now (Op_Publish p) mc = map_option (\<lambda>(r, mc'). (Re_Published r, mc')) (publish env p mc)"
| "mem_step env now (Op_Publish_Ciphertext p) mc =
     (case publish_ciphertext env p mc of (r, mc') \<Rightarrow> Some (Re_Published r, mc'))"
| "mem_step env now (Op_Invalidate p) mc = Some (Re_Done, invalidate_ciphertext p mc)"
| "mem_step env now (Op_Evict n) mc = map_option (\<lambda>(r, mc'). (Re_Released r, mc')) (evict_idle env n mc)"
| "mem_step env now (Op_Reclaim_Idle b c n rel q) mc =
     map_option (\<lambda>(r, _, mc'). (Re_Released r, mc')) (reclaim_idle env b c n rel q mc)"
| "mem_step env now (Op_Reclaim b c n excess rel wr q) mc =
     map_option (\<lambda>(r, _, mc'). (Re_Released r, mc')) (mc_reclaim env b c n excess rel wr q mc)"
| "mem_step env now (Op_Remove_Caches cs) mc = Some (Re_Done, remove_caches cs mc)"
| "mem_step env now Op_Expire mc = map_option (\<lambda>((g, g2), mc'). (Re_Expired g g2, mc')) (expire_idle env now mc)"

fun mem_serves :: "mem_op \<Rightarrow> mem_reply \<Rightarrow> page_id set" where
  "mem_serves (Op_Get k) (Re_Got r) = served r k"
| "mem_serves (Op_Ciphertext k) (Re_Copied r) = served r k"
| "mem_serves (Op_Unverified k) (Re_Found r) = served r k"
| "mem_serves _ _ = {}"

text \<open>
  Runs, with a log of when which pages were served or stored, newest first. The rest of the process may
  change between any two operations; the entry limit is configured and time does not go back.
\<close>

type_synonym mem_log = "(instant \<times> page_id set) list"

inductive mem_run :: "nat \<Rightarrow> mem_log \<Rightarrow> memory_cache \<Rightarrow> bool" for limit where
  mem_start: "mem_run limit [] memory_new"
| mem_next: "mem_run limit log mc \<Longrightarrow> me_entry_limit env = limit \<Longrightarrow> \<forall>e \<in> set log. fst e \<le> now \<Longrightarrow>
    mem_step env now op mc = Some (reply, mc') \<Longrightarrow>
    mem_run limit ((now, mem_serves op reply \<union> mem_stored mc mc') # log) mc'"

primrec last_use :: "mem_log \<Rightarrow> page_id \<Rightarrow> instant" where
  "last_use [] k = 0"
| "last_use (e # log) k = (if k \<in> snd e then fst e else last_use log k)"

definition log_time :: "mem_log \<Rightarrow> instant" where
  "log_time log = (case log of [] \<Rightarrow> 0 | e # _ \<Rightarrow> fst e)"

text \<open>What one operation keeps, given when each page was last used.\<close>

definition step_ok :: "(page_id \<Rightarrow> instant) \<Rightarrow> instant \<Rightarrow> nat \<Rightarrow> memory_cache \<Rightarrow> page_id set \<Rightarrow> memory_cache \<Rightarrow> bool" where
  "step_ok L now limit mc S mc' \<longleftrightarrow>
     mem_ok mc' \<and> expiry_ok (\<lambda>k. if k \<in> S \<union> mem_stored mc mc' then now else L k) now mc' \<and>
     mc_len mc' \<le> max (mc_len mc) limit \<and>
     tl_clock (et_lru (mc_entries mc')) \<le> tl_clock (et_lru (mc_entries mc)) + 1 \<and>
     ol_clock (mc_ciphertext mc') \<le> ol_clock (mc_ciphertext mc) + 1"

lemma step_ok_uses:
  assumes "expiry_ok L T mc" and "mem_ok mc" and "T \<le> now" and uses: "mem_uses mc S mc'" and "mc_len mc' \<le> max (mc_len mc) limit"
  shows "step_ok L now limit mc S mc'"
proof -
  have "expiry_ok (\<lambda>k. if k \<in> S \<union> mem_stored mc mc' then now else L k) now mc'"
    by (rule expiry_ok_uses [OF assms(1,2) uses assms(3)])
  with uses assms(5) show ?thesis by (simp add: step_ok_def mem_uses_def entries_uses_def cipher_uses_def)
qed

lemma step_ok_sub:
  assumes "expiry_ok L T mc" and ok: "mem_ok mc" and "T \<le> now" and sub: "sub_memory P mc mc'"
  shows "step_ok L now limit mc {} mc'"
  using sub_memory_len [OF ok sub] by (intro step_ok_uses [OF assms(1-3) sub_memory_uses [OF ok sub]]) simp

lemma expires_step:
  assumes ok: "mem_ok mc" and exp: "expires L env now mc gone gone2 mc'"
  shows "step_ok L now limit mc {} mc'"
proof -
  have sub: "sub_entries (reclaimable env None) (mc_entries mc) (mc_entries mc')"
    "sub_cipher (reclaimable env None) (mc_ciphertext mc) (mc_ciphertext mc')" using exp by (simp_all add: expires_def)
  have "mem_stored mc mc' = {}"
    using exp unfolding expires_def mem_stored_def by (auto simp: dom_def split: if_splits)
  moreover have "sub_memory (reclaimable env None) mc (mc'\<lparr>mc_expiry := mc_expiry mc\<rparr>)"
    using sub by (simp add: sub_memory_def)
  then have "mc_len mc' \<le> mc_len mc" using sub_memory_len [OF ok] by (fastforce simp: mc_len_def)
  ultimately show ?thesis
    using exp sub unfolding step_ok_def expires_def by (simp add: sub_entries_def sub_cipher_def)
qed

lemma mem_step_ok:
  assumes inv: "expiry_ok L T mc" "mem_ok mc" "T \<le> now"
    and room: "tl_clock (et_lru (mc_entries mc)) < u64_max" "ol_clock (mc_ciphertext mc) < u64_max"
  shows "\<exists>reply mc'. mem_step env now op mc = Some (reply, mc') \<and>
    step_ok L now (me_entry_limit env) mc (mem_serves op reply) mc' \<and> (\<forall>e. reply \<noteq> Re_Failed e)"
proof -
  note uses = step_ok_uses [OF inv, where limit = "me_entry_limit env"]
  note sub = step_ok_sub [OF inv, where limit = "me_entry_limit env"]
  show ?thesis
  proof (cases op)
    case (Op_Get k)
    from lookup_uses [OF inv(2) room(1), of env k] uses show ?thesis unfolding Op_Get by fastforce
  next
    case (Op_Ciphertext k)
    from copy_uses [OF inv(2) room, of env k] uses show ?thesis unfolding Op_Ciphertext by fastforce
  next
    case (Op_Unverified k)
    from unverified_uses [OF inv(2) room, of env k] uses show ?thesis unfolding Op_Unverified by fastforce
  next
    case (Op_Publish p)
    from publish_uses [OF inv(2) room(1), of env p] uses show ?thesis unfolding Op_Publish by fastforce
  next
    case (Op_Publish_Ciphertext p)
    from publish_ciphertext_uses [OF inv(2) room(2), of env p] uses show ?thesis
      unfolding Op_Publish_Ciphertext by fastforce
  next
    case (Op_Invalidate p)
    from sub [OF invalidate_ciphertext_sub [OF inv(2), of p]] show ?thesis unfolding Op_Invalidate by simp
  next
    case (Op_Evict n)
    from evict_idle_sub [OF inv(2), of env n] sub show ?thesis unfolding Op_Evict by fastforce
  next
    case (Op_Reclaim_Idle b c n rel q)
    from reclaim_idle_sub [OF inv(2), of env b c n rel q] sub show ?thesis unfolding Op_Reclaim_Idle by fastforce
  next
    case (Op_Reclaim b c n excess rel wr q)
    from mc_reclaim_sub [OF inv(2), of env b c n excess rel wr q] sub show ?thesis unfolding Op_Reclaim by fastforce
  next
    case (Op_Remove_Caches cs)
    from sub [OF remove_caches_sub(1) [OF inv(2), of cs]] show ?thesis unfolding Op_Remove_Caches by simp
  next
    case Op_Expire
    from expire_idle_ok [OF inv, of env] expires_step [OF inv(2)] show ?thesis unfolding Op_Expire by fastforce
  qed
qed

definition run_ok :: "nat \<Rightarrow> mem_log \<Rightarrow> memory_cache \<Rightarrow> bool" where
  "run_ok limit log mc \<longleftrightarrow>
     mem_ok mc \<and> expiry_ok (last_use log) (log_time log) mc \<and> mc_len mc \<le> limit \<and>
     tl_clock (et_lru (mc_entries mc)) \<le> length log \<and> ol_clock (mc_ciphertext mc) \<le> length log \<and>
     (\<forall>e \<in> set log. fst e \<le> log_time log) \<and> (\<forall>k. \<forall>e \<in> set log. k \<in> snd e \<longrightarrow> fst e \<le> last_use log k)"

lemma memory_new_fields [simp]:
  "mc_entries memory_new = entries_default" "mc_ciphertext memory_new = ordered_default"
  "mc_expiry memory_new = expiry_default" "et_lru entries_default = tick_default" "et_versions entries_default = []"
  "tl_pages tick_default = []" "tl_clock tick_default = 0" "ol_pages ordered_default = []" "ol_clock ordered_default = 0"
  "ex_checkpoints expiry_default = []" "ex_verified expiry_default = None" "ex_ciphertext expiry_default = None"
  by (simp_all add: memory_new_def entries_default_def tick_default_def ordered_default_def expiry_default_def)

lemma mem_ok_new [simp]: "mem_ok memory_new"
  by (simp add: mem_ok_def entries_ok_def versions_exact_def versions_wf_def pages_ok_def get_page_def
      version_pages_def mc_get_def cipher_at_def)

lemma run_ok_new: "run_ok limit [] memory_new"
  by (simp add: run_ok_def expiry_ok_def cursors_ok_def log_time_def mc_len_def tick_len_def)

lemma run_ok_step:
  assumes run: "run_ok limit log mc" and limit: "me_entry_limit env = limit" and times: "\<forall>e \<in> set log. fst e \<le> now"
    and len: "length log < u64_max" and step: "mem_step env now op mc = Some (reply, mc')"
  shows "run_ok limit ((now, mem_serves op reply \<union> mem_stored mc mc') # log) mc'"
proof -
  let ?log = "(now, mem_serves op reply \<union> mem_stored mc mc') # log"
  have now: "log_time log \<le> now" using times by (cases log) (simp_all add: log_time_def)
  have inv: "expiry_ok (last_use log) (log_time log) mc" "mem_ok mc" using run by (simp_all add: run_ok_def)
  have room: "tl_clock (et_lru (mc_entries mc)) < u64_max" "ol_clock (mc_ciphertext mc) < u64_max"
    using run len by (auto simp: run_ok_def)
  from mem_step_ok [OF inv now room, of env op] step limit
  have ok: "step_ok (last_use log) now limit mc (mem_serves op reply) mc'" by auto
  moreover have "last_use ?log = (\<lambda>k. if k \<in> mem_serves op reply \<union> mem_stored mc mc' then now else last_use log k)"
    by (simp add: fun_eq_iff)
  moreover have "\<forall>k. \<forall>e \<in> set ?log. k \<in> snd e \<longrightarrow> fst e \<le> last_use ?log k" using run times by (auto simp: run_ok_def)
  ultimately show ?thesis
    using run times unfolding step_ok_def run_ok_def log_time_def by (simp del: last_use.simps)
qed

lemma mem_run_ok: "mem_run limit log mc \<Longrightarrow> length log \<le> u64_max \<Longrightarrow> run_ok limit log mc"
proof (induction rule: mem_run.induct)
  case mem_start
  show ?case by (rule run_ok_new)
next
  case (mem_next log mc env now op reply mc')
  have "length log < u64_max" using mem_next.prems by simp
  with mem_next show ?case by (intro run_ok_step) simp_all
qed

lemma mem_run_facts:
  assumes "mem_run limit log mc" and "length log < u64_max"
  shows "mem_ok mc" and "tl_clock (et_lru (mc_entries mc)) < u64_max" and "ol_clock (mc_ciphertext mc) < u64_max"
    and "expiry_ok (last_use log) (log_time log) mc"
  using mem_run_ok [OF assms(1)] assms(2) by (auto simp: run_ok_def)

lemma drops_at:
  assumes "drops Q f g"
  shows "g k = f k \<or> g k = None \<and> (\<exists>v. f k = Some v \<and> Q k v)"
proof (cases "g k")
  case None
  with assms show ?thesis by (cases "f k") (simp_all add: drops_def)
qed (use map_le_Some [OF drops_le [OF assms], of k] in simp)

lemma verified_hit:
  assumes ok: "mem_ok mc" and room: "tl_clock (et_lru (mc_entries mc)) < u64_max"
    and page: "mc_get mc k = Some (t, p)" "page_available env p"
  obtains mc1 where "verified env k mc = (Inr (Some p), mc1)"
proof -
  have "entries_ok (mc_entries mc)" using ok by (simp add: mem_ok_def)
  with entries_touch_uses [OF _ room, of k t p] page(1) have "fst (entries_touch k (mc_entries mc)) = Inr ()"
    by (simp add: mc_get_page)
  with that page show ?thesis by (cases "entries_touch k (mc_entries mc)") (simp add: verified_def)
qed

lemma publish_admits:
  assumes "publish env page mc = Some (Inr (), mc')" and "\<not> av_passthrough env (fst (fst (vm_version (pg_metadata page))))"
  shows "pool_validate_page env page = Inr ()"
    and "av_page env (fst (fst (vm_version (pg_metadata page)))) (en_key_id (ct_envelope (pg_ciphertext page)))"
proof -
  show "pool_validate_page env page = Inr ()" using assms by (auto simp: publish_def split: sum.splits)
  with assms have "publish_validated env page mc = Some (Inr (), mc')" by (simp add: publish_def)
  then show "av_page env (fst (fst (vm_version (pg_metadata page)))) (en_key_id (ct_envelope (pg_ciphertext page)))"
    by (auto simp: publish_validated_def Let_def retainable_envelope split: sum.splits if_splits)
qed

lemma retainable_copy: "retainable env c = Inr c' \<Longrightarrow> ct_bytes c' = ct_bytes c \<and> \<not> ct_registered c'"
  by (auto simp: retainable_def copy_out_def split: if_splits sum.splits prod.splits)

subsection \<open>A sample run\<close>

text \<open>A page of two bytes in registered storage is published, and expires when nobody asks for it.\<close>

definition sample_key :: page_id where "sample_key = (((1, 2), 3), 0)"

definition sample_plain :: verified_page where
  "sample_plain = \<lparr>vp_inner = 10, vp_page = sample_key, vp_bytes = [5, 6]\<rparr>"

definition sample_cipher :: ciphertext_page where
  "sample_cipher =
     \<lparr>ct_inner = 11,
      ct_envelope = \<lparr>en_cipher = Xaes256Gcm, en_page = sample_key, en_key_id = 7, en_nonce = 0,
        en_plaintext_length = 2, en_ciphertext_length = 18\<rparr>,
      ct_bytes = replicate 18 0, ct_registered = True, ct_amount = 18\<rparr>"

definition sample_page :: page_result where
  "sample_page =
     \<lparr>pg_metadata = \<lparr>vm_content_type = None, vm_version = ((1, 2), 3), vm_length = 2, om_expires_at = 0\<rparr>,
      pg_plaintext = sample_plain, pg_ciphertext = sample_cipher\<rparr>"

definition sample_env :: memory_env where
  "sample_env =
     \<lparr>me_shared = (\<lambda>_. False), me_live = (\<lambda>i. if i = 10 then Some sample_plain else None),
      me_published = Some [(1, False)], me_lease = (\<lambda>c k. c = 1 \<and> k = 7), me_copy_out = (\<lambda>_. Inr (12, 32)),
      me_plaintext_charged = (\<lambda>_. Inr ()), me_ciphertext_charged = (\<lambda>_ _. Inr ()), me_entry_limit = 4\<rparr>"

definition sample_entry :: cached_page where
  "sample_entry =
     \<lparr>cp_metadata = pg_metadata sample_page,
      cp_ciphertext = sample_cipher\<lparr>ct_inner := 12, ct_registered := False, ct_amount := 32\<rparr>, cp_plaintext = 10\<rparr>"

definition sample_stored :: memory_cache where
  "sample_stored = memory_new\<lparr>mc_entries :=
     \<lparr>et_lru = \<lparr>tl_pages = [(sample_key, (1, sample_entry))], tl_lru = [(1, sample_key)], tl_clock = 1,
        tl_reclaim_after = 0, tl_lanes = [(1, \<lparr>ln_order = [(1, sample_key)], ln_after = 0\<rparr>)]\<rparr>,
      et_versions = [(((1, 2), 3), [sample_key])]\<rparr>\<rparr>"

definition sample_aging :: memory_cache where
  "sample_aging = sample_stored\<lparr>mc_expiry :=
     \<lparr>ex_checkpoints = [(1, 1, 0)], ex_verified = Some 0, ex_ciphertext = Some 0\<rparr>\<rparr>"

lemmas sample_simps =
  sample_key_def sample_plain_def sample_cipher_def sample_page_def sample_env_def sample_entry_def

lemmas cache_eval =
  publish_def publish_validated_def admit_entry_def retainable_def copy_out_def entries_insert_def cached_new_def
  entries_remove_def forget_version_def known_version_def tick_len_def tick_insert_def tick_remove_def lanes_insert_def
  lanes_remove_def lane_default_def ordered_remove_def ordered_default_def entries_default_def tick_default_def
  memory_new_def mc_get_def mc_lookup_def verified_def cached_live_def page_available_def entries_touch_def tick_touch_def
  av_cache_def av_passthrough_def av_page_def page_cache_def by_cache_def idle_page_def
  hm_get_def hm_insert_def hm_remove_def hm_update_def bt_get_def bt_remove_def bt_update_def bt_above_def bt_upto_def
  checked_add_def sat_add_def

lemma sample_publish: "publish sample_env sample_page memory_new = Some (Inr (), sample_stored)"
proof -
  have valid: "pool_validate_page sample_env sample_page = Inr ()"
    by (simp add: sample_simps pool_validate_page_def result_validate_metadata_def metadata_validate_def to_unix_millis_def
        validate_ciphertext_length_def validate_association_def validate_page_def envelope_validate_def page_length_def
        immutable_def version_metadata.truncate_def checked_add_def MAX_WIRE_INTEGER_def PAGE_BYTES_def AEAD_TAG_BYTES_def)
  then show ?thesis
    by (simp add: sample_simps sample_stored_def cache_eval expiry_default_def Let_def)
qed

lemma sample_domains:
  "dom (mc_get memory_new) = {}" "dom (cipher_at memory_new) = {}"
  "dom (mc_get sample_stored) = {sample_key}" "dom (cipher_at sample_stored) = {}"
  "mc_get sample_aging = mc_get sample_stored" "cipher_at sample_aging = cipher_at sample_stored"
  by (auto simp: sample_stored_def sample_aging_def cache_eval cipher_at_def split: if_splits)

lemma sample_advance: "expire_idle sample_env 1 sample_stored = Some (([], []), sample_aging)"
  by (simp add: sample_stored_def sample_aging_def expire_idle_def expiry_advance_def memory_new_def expiry_default_def
      ordered_default_def IDLE_TTL_def EXPIRY_CHECKPOINT_def secs_def)

lemma sample_expires:
  "\<exists>mc. expire_idle sample_env 30000000001 sample_aging = Some (([sample_key], []), mc)"
  by (simp add: sample_simps sample_stored_def sample_aging_def expire_idle_def expiry_advance_def cache_eval
      expiry_default_def IDLE_TTL_def EXPIRY_CHECKPOINT_def EXPIRY_BATCH_def secs_def expire_verified_pass_def
      expire_unverified_pass_def tick_expiring_def ordered_expiring_def expiring_def)

lemma sample_evicts:
  "\<exists>mc. evict_idle sample_env 1 sample_stored = Some (32, mc) \<and> mc_get mc sample_key = None"
  by (simp add: sample_simps sample_stored_def evict_idle_def reclaim_ciphertext_def ordered_candidates_def cache_eval
      tick_reclaim_def tick_candidates_def wrap_after_def RECLAIM_WINDOW_def evict_visit_def forget_versions_def)

lemma sample_run: "mem_run 4 [(0, {sample_key})] sample_stored"
proof -
  have "mem_step sample_env 0 (Op_Publish sample_page) memory_new = Some (Re_Published (Inr ()), sample_stored)"
    by (simp add: sample_publish)
  from mem_next [OF mem_start _ _ this, of 4] show ?thesis
    by (simp add: mem_stored_def sample_domains sample_env_def)
qed

lemma sample_run_aging: "mem_run 4 [(1, {}), (0, {sample_key})] sample_aging"
proof -
  have "mem_step sample_env 1 Op_Expire sample_stored = Some (Re_Expired [] [], sample_aging)"
    using sample_advance by simp
  from mem_next [OF sample_run _ _ this] show ?thesis
    by (simp add: mem_stored_def sample_domains sample_env_def)
qed

subsection \<open>Theorems\<close>

text \<open>C9: The memory cache cannot fail: after any sequence of fewer than \<open>u64::MAX\<close> operations on a new cache,
  whatever the rest of the process does in between, every operation finds each key it indexes, keeps the
  tables consistent (the recency indexes list the entries, the page set of a version lists its pages, no
  page is in both tables, every entry belongs to its key, the pages of a version agree) and the number of
  entries within the limit, and no lookup fails.\<close>

theorem memory_run_safe:
  assumes "mem_run limit log mc" and "length log < u64_max" and "me_entry_limit env = limit"
    and "\<forall>e \<in> set log. fst e \<le> now"
  shows "\<exists>reply mc'. mem_step env now op mc = Some (reply, mc') \<and> mem_ok mc' \<and> mc_len mc' \<le> limit \<and>
    (\<forall>e. reply \<noteq> Re_Failed e)"
proof -
  have now: "log_time log \<le> now" using assms(4) by (cases log) (simp_all add: log_time_def)
  have "mc_len mc \<le> limit" using mem_run_ok [OF assms(1)] assms(2) by (simp add: run_ok_def)
  with mem_step_ok [OF mem_run_facts(4,1) [OF assms(1,2)] now mem_run_facts(2,3) [OF assms(1,2)], of env op] assms(3)
  show ?thesis by (auto simp: step_ok_def)
qed

theorem memory_run_safe_witness:
  "\<exists>reply mc'. mem_step sample_env 1 (Op_Get sample_key) sample_stored = Some (reply, mc') \<and> mem_ok mc' \<and>
    mc_len mc' \<le> 4 \<and> (\<forall>e. reply \<noteq> Re_Failed e)"
  using memory_run_safe [OF sample_run, of sample_env 1 "Op_Get sample_key"] by (simp add: sample_env_def)

text \<open>C10: Idle expiry releases only idle pages: what \<open>expire_idle\<close> releases was neither served nor stored in the last
  30 seconds and is shared with nobody, it releases at most 32 entries of either kind, exactly those it
  counts, and keeps all others.\<close>

theorem memory_expiry_sound:
  assumes "mem_run limit log mc" and "length log < u64_max" and "\<forall>e \<in> set log. fst e \<le> now"
    and "expire_idle env now mc = Some ((gone, gone2), mc')"
  shows "(\<forall>k \<in> set gone \<union> set gone2. \<forall>e \<in> set log. k \<in> snd e \<longrightarrow> fst e + IDLE_TTL \<le> now) \<and>
    (\<forall>k \<in> set gone. \<forall>t p. mc_get mc k = Some (t, p) \<longrightarrow> idle_page env p) \<and>
    (\<forall>k \<in> set gone2. \<forall>p. cipher_at mc k = Some p \<longrightarrow> idle_unverified env p) \<and>
    length gone \<le> 32 \<and> length gone2 \<le> 32 \<and>
    mc_get mc' = (\<lambda>k. if k \<in> set gone then None else mc_get mc k) \<and>
    cipher_at mc' = (\<lambda>k. if k \<in> set gone2 then None else cipher_at mc k)"
proof -
  have now: "log_time log \<le> now" using assms(3) by (cases log) (simp_all add: log_time_def)
  have exp: "expires (last_use log) env now mc gone gone2 mc'"
    using expire_idle_ok [OF mem_run_facts(4,1) [OF assms(1,2)] now, of env] assms(4) by auto
  have last: "fst e \<le> last_use log k" if "e \<in> set log" "k \<in> snd e" for e k
    using mem_run_ok [OF assms(1)] assms(2) that by (simp add: run_ok_def)
  have "fst e + IDLE_TTL \<le> now" if "k \<in> set gone \<union> set gone2" "e \<in> set log" "k \<in> snd e" for k e
    using exp last [OF that(2,3)] that(1) unfolding expires_def by (metis add_le_mono1 order_trans)
  moreover have "idle_page env p" if "k \<in> set gone" "mc_get mc k = Some (t, p)" for k t p
    using exp that unfolding expires_def sub_entries_def drops_def
    by (auto simp: mc_get_page reclaimable_def idle_page_def) (metis snd_conv)
  moreover have "idle_unverified env p" if "k \<in> set gone2" "cipher_at mc k = Some p" for k p
    using exp that unfolding expires_def sub_cipher_def drops_def cipher_at_def
    by (auto simp: reclaimable_def idle_unverified_def)
  ultimately show ?thesis using exp unfolding expires_def EXPIRY_BATCH_def by blast
qed

theorem memory_expiry_sound_witness:
  "\<exists>mc'. expire_idle sample_env 30000000001 sample_aging = Some (([sample_key], []), mc') \<and>
    0 + IDLE_TTL \<le> 30000000001 \<and> mc_get mc' = (\<lambda>k. if k \<in> set [sample_key] then None else mc_get sample_aging k)"
proof -
  obtain mc' where e: "expire_idle sample_env 30000000001 sample_aging = Some (([sample_key], []), mc')"
    using sample_expires by blast
  with memory_expiry_sound [OF sample_run_aging _ _ e] show ?thesis by auto
qed

text \<open>C13: A lookup serves only what is admitted: the page asked for, of a cache that is published and not passed
  through, under a leased key. This holds of the plaintext, the ciphertext and the unverified lookup.\<close>

theorem memory_serves_admitted:
  assumes "mem_run limit log mc" and "length log < u64_max"
  shows "(\<forall>q mc'. mc_lookup env k mc = (Inr (Some q), mc') \<longrightarrow> admitted env k (pg_metadata q) (pg_ciphertext q)) \<and>
    (\<forall>c mc'. mc_copy env k mc = (Inr (Some c), mc') \<longrightarrow> admitted env k (cc_metadata c) (cc_ciphertext c)) \<and>
    (\<forall>u mc'. unverified env k mc = (Inr (Some u), mc') \<longrightarrow>
       admitted env k (cc_metadata (up_copy u)) (cc_ciphertext (up_copy u)))"
proof -
  note run = mem_run_facts [OF assms]
  have "admitted env k (pg_metadata q) (pg_ciphertext q)" if "mc_lookup env k mc = (Inr (Some q), mc')" for q mc'
    by (rule lookup_uses [OF run(1,2), of env k]) (use that in auto)
  moreover have "admitted env k (cc_metadata c) (cc_ciphertext c)" if "mc_copy env k mc = (Inr (Some c), mc')" for c mc'
    by (rule copy_uses [OF run(1,2,3), of env k]) (use that in auto)
  moreover have "admitted env k (cc_metadata (up_copy u)) (cc_ciphertext (up_copy u))"
    if "unverified env k mc = (Inr (Some u), mc')" for u mc'
    by (rule unverified_uses [OF run(1,2,3), of env k]) (use that unverified_admitted in auto)
  ultimately show ?thesis by blast
qed

theorem memory_serves_admitted_witness:
  "\<exists>q mc'. mc_lookup sample_env sample_key sample_stored = (Inr (Some q), mc') \<and>
    admitted sample_env sample_key (pg_metadata q) (pg_ciphertext q)"
proof -
  have "\<exists>q mc'. mc_lookup sample_env sample_key sample_stored = (Inr (Some q), mc')"
    by (simp add: sample_simps sample_stored_def cache_eval)
  with memory_serves_admitted [OF sample_run, of sample_env sample_key] show ?thesis by fastforce
qed





end
