(* ===== verification/Racer_Flight.thy ===== *)
theory Racer_Flight
  imports Racer_Maps Racer_Policy
begin

section \<open>Page singleflight (core/src/read/flight.rs, flow/src/coalesce.rs)\<close>

text \<open>
  Concurrent readers of a page share one acquisition: a flight. \<open>State\<close> of \<open>flow::coalesce::flight::state\<close> holds the
  attached waiters and the phase of the acquisition; \<open>core::read::flight\<close> adds the gates, what a polled
  waiter does next and \<open>PageFlights\<close>, the table of flights by page.

  \<^item> A waiter's policy is the pair of functions its trait has, passed to the operations that consult it.
    The errors are those of \<open>racer-core\<close>.
  \<^item> Wake targets are collected in a list, as in the source; the caller fires them afterwards.
  \<^item> The clock closure of an operation gives one reading. Waiter ids and retained operations are counted
    in \<open>nat\<close>.
  \<^item> \<open>None\<close> is the panic of \<open>expect("registered waiter")\<close>.
\<close>

subsection \<open>Flight state\<close>

record 'w waiter_policy =
  wp_check :: "'w \<Rightarrow> error option"
  wp_deadline :: "'w \<Rightarrow> instant"

record ('w, 't) waiter =
  wt_policy :: 'w
  wt_acquisition :: bool
  wt_complete :: bool
  wt_issued :: bool
  wt_error :: "error option"
  wt_waker :: "'t option"

definition eligible :: "('w, 't) waiter \<Rightarrow> bool" where
  "eligible w \<longleftrightarrow> wt_acquisition w \<and> \<not> wt_issued w \<and> wt_error w = None"

datatype 'o flight_outcome = Outcome_Published 'o | Outcome_Failed error | Outcome_Retry

datatype ('c, 'o) phase =
    Acquiring
  | RetryPending
  | Draining "'o flight_outcome"
  | Phase_Complete 'c
  | Phase_Failed error

datatype ('c, 'p) published = Published_Complete 'c | Published_Partial 'p

record identity =
  id_owner :: nat
  id_incarnation :: nat
  id_generation :: nat

datatype gen_exhausted = Gen_Exhausted
datatype stale = Stale

definition same_registration :: "identity \<Rightarrow> identity \<Rightarrow> bool" where
  "same_registration i current \<longleftrightarrow> id_owner i = id_owner current \<and> id_incarnation i = id_incarnation current"

definition identity_validate :: "identity \<Rightarrow> identity \<Rightarrow> stale + unit" where
  "identity_validate i current =
     (if \<not> same_registration i current \<or> id_generation i \<noteq> id_generation current then Inl Stale else Inr ())"

definition identity_advance :: "nat \<Rightarrow> identity \<Rightarrow> (gen_exhausted + unit) \<times> identity" where
  "identity_advance limit i =
     (if id_generation i \<ge> limit then (Inl Gen_Exhausted, i)
      else case checked_add u64_max (id_generation i) 1 of
             None \<Rightarrow> (Inl Gen_Exhausted, i)
           | Some g \<Rightarrow> (Inr (), i\<lparr>id_generation := g\<rparr>))"

record ('c, 'p, 'o, 'w, 't) flight_state =
  fs_phase :: "('c, 'o) phase"
  fs_leader :: "nat option"
  fs_elected :: "nat option"
  fs_handover :: bool
  fs_waiters :: "(nat, ('w, 't) waiter) bmap"
  fs_deadlines :: "(instant \<times> nat, unit) bmap"
  fs_partial :: "'p option"
  fs_cursor :: nat

definition state_default :: "('c, 'p, 'o, 'w, 't) flight_state" where
  "state_default =
     \<lparr>fs_phase = RetryPending, fs_leader = None, fs_elected = None, fs_handover = False, fs_waiters = [],
      fs_deadlines = [], fs_partial = None, fs_cursor = 0\<rparr>"

definition state_register ::
  "'w waiter_policy \<Rightarrow> nat \<Rightarrow> 'w \<Rightarrow> bool \<Rightarrow> bool \<Rightarrow> ('c, 'p, 'o, 'w, 't) flight_state \<Rightarrow>
   ('c, 'p, 'o, 'w, 't) flight_state" where
  "state_register pol i policy acquisition complete st =
     st\<lparr>fs_deadlines := bt_insert (wp_deadline pol policy, i) () (fs_deadlines st),
        fs_waiters := bt_insert i
          \<lparr>wt_policy = policy, wt_acquisition = acquisition, wt_complete = complete, wt_issued = False,
           wt_error = None, wt_waker = None\<rparr> (fs_waiters st)\<rparr>"

definition state_detach ::
  "'w waiter_policy \<Rightarrow> nat \<Rightarrow> ('c, 'p, 'o, 'w, 't) flight_state \<Rightarrow> ('c, 'p, 'o, 'w, 't) flight_state" where
  "state_detach pol i st =
     (case bt_get (fs_waiters st) i of
        None \<Rightarrow> st
      | Some w \<Rightarrow>
          st\<lparr>fs_waiters := bt_remove i (fs_waiters st),
             fs_deadlines := bt_remove (wp_deadline pol (wt_policy w), i) (fs_deadlines st)\<rparr>)"

definition validate_registration ::
  "nat \<Rightarrow> bool \<Rightarrow> identity \<Rightarrow> identity \<Rightarrow> ('c, 'p, 'o, 'w, 't) flight_state \<Rightarrow> stale + unit" where
  "validate_registration i attached registered current st =
     (if \<not> attached \<or> \<not> same_registration registered current \<or> bt_get (fs_waiters st) i = None
      then Inl Stale else Inr ())"

definition state_cancel ::
  "nat \<Rightarrow> error \<Rightarrow> ('c, 'p, 'o, 'w, 't) flight_state \<Rightarrow> ('c, 'p, 'o, 'w, 't) flight_state" where
  "state_cancel i e st = st\<lparr>fs_waiters := bt_update i (\<lambda>w. w\<lparr>wt_error := Some e\<rparr>) (fs_waiters st)\<rparr>"

definition begin_completion ::
  "'o flight_outcome \<Rightarrow> ('c, 'p, 'o, 'w, 't) flight_state \<Rightarrow> ('c, 'p, 'o, 'w, 't) flight_state" where
  "begin_completion r st = st\<lparr>fs_phase := Draining r\<rparr>"

definition state_notify ::
  "('c, 'p, 'o, 'w, 't) flight_state \<times> 't list \<Rightarrow> ('c, 'p, 'o, 'w, 't) flight_state \<times> 't list" where
  "state_notify s =
     (case s of (st, wakes) \<Rightarrow>
        (st\<lparr>fs_waiters := map (\<lambda>(i, w). (i, w\<lparr>wt_waker := None\<rparr>)) (fs_waiters st)\<rparr>,
         wakes @ List.map_filter (\<lambda>(i, w). wt_waker w) (fs_waiters st)))"

definition refresh_waiter ::
  "'w waiter_policy \<Rightarrow> nat \<Rightarrow> ('c, 'p, 'o, 'w, 't) flight_state \<times> 't list \<Rightarrow>
   ('c, 'p, 'o, 'w, 't) flight_state \<times> 't list" where
  "refresh_waiter pol i s =
     (case s of (st, wakes) \<Rightarrow>
        case bt_get (fs_waiters st) i of
          None \<Rightarrow> (st, wakes)
        | Some w \<Rightarrow>
            (case (if wt_error w = None then wp_check pol (wt_policy w) else wt_error w) of
               None \<Rightarrow> (st, wakes)
             | Some e \<Rightarrow>
                 (st\<lparr>fs_waiters := bt_update i (\<lambda>w. w\<lparr>wt_error := Some e, wt_waker := None\<rparr>) (fs_waiters st),
                     fs_deadlines := bt_remove (wp_deadline pol (wt_policy w), i) (fs_deadlines st)\<rparr>,
                  wakes @ (case wt_waker w of None \<Rightarrow> [] | Some t \<Rightarrow> [t]))))"

text \<open>\<open>Cursor::next\<close>\<close>

definition cursor_next :: "nat \<Rightarrow> (nat, 'v) bmap \<Rightarrow> nat option" where
  "cursor_next c m =
     (case bt_above c m of
        p # _ \<Rightarrow> Some (fst p)
      | [] \<Rightarrow> (case m of [] \<Rightarrow> None | p # _ \<Rightarrow> Some (fst p)))"

definition sweep_waiter ::
  "'w waiter_policy \<Rightarrow> ('c, 'p, 'o, 'w, 't) flight_state \<times> 't list \<Rightarrow> ('c, 'p, 'o, 'w, 't) flight_state \<times> 't list" where
  "sweep_waiter pol s =
     (case s of (st, wakes) \<Rightarrow>
        case cursor_next (fs_cursor st) (fs_waiters st) of
          None \<Rightarrow> (st, wakes)
        | Some i \<Rightarrow> refresh_waiter pol i (st\<lparr>fs_cursor := i\<rparr>, wakes))"

definition elect ::
  "nat \<Rightarrow> identity \<Rightarrow> nat \<Rightarrow> ('c, 'p, 'o, 'w, 't) flight_state \<Rightarrow>
   (gen_exhausted + bool) \<times> identity \<times> ('c, 'p, 'o, 'w, 't) flight_state" where
  "elect i identity limit st =
     (if fs_phase st \<noteq> RetryPending then (Inr False, identity, st)
      else case bt_get (fs_waiters st) i of
             None \<Rightarrow> (Inr False, identity, st)
           | Some w \<Rightarrow>
               if \<not> eligible w then (Inr False, identity, st)
               else (case identity_advance limit identity of
                       (Inl e, identity') \<Rightarrow> (Inl e, identity', st)
                     | (Inr _, identity') \<Rightarrow>
                         (Inr True, identity',
                          st\<lparr>fs_phase := Acquiring, fs_leader := Some i, fs_elected := Some i, fs_handover := False,
                             fs_waiters := bt_update i (\<lambda>w. w\<lparr>wt_issued := True\<rparr>) (fs_waiters st)\<rparr>)))"

definition state_allow_handover :: "('c, 'p, 'o, 'w, 't) flight_state \<Rightarrow> ('c, 'p, 'o, 'w, 't) flight_state" where
  "state_allow_handover st = (if fs_phase st = Acquiring then st\<lparr>fs_handover := True\<rparr> else st)"

definition state_handed_over :: "('c, 'p, 'o, 'w, 't) flight_state \<Rightarrow> bool" where
  "state_handed_over st \<longleftrightarrow> fs_phase st = Acquiring \<and> fs_leader st \<noteq> fs_elected st"

definition state_leader_deadline :: "'w waiter_policy \<Rightarrow> ('c, 'p, 'o, 'w, 't) flight_state \<Rightarrow> instant option" where
  "state_leader_deadline pol st =
     (if fs_phase st \<noteq> Acquiring then None
      else case fs_leader st of
             None \<Rightarrow> None
           | Some i \<Rightarrow> map_option (\<lambda>w. wp_deadline pol (wt_policy w)) (bt_get (fs_waiters st) i))"

definition validate_leader :: "nat \<Rightarrow> bool \<Rightarrow> ('c, 'p, 'o, 'w, 't) flight_state \<Rightarrow> stale + unit" where
  "validate_leader i active st =
     (if \<not> active \<or> fs_phase st \<noteq> Acquiring \<or> fs_leader st \<noteq> Some i \<and> fs_elected st \<noteq> Some i
      then Inl Stale else Inr ())"

text \<open>The candidates of \<open>hand_over\<close>, latest deadline first, and its loop over them.\<close>

definition hand_over_candidates :: "'w waiter_policy \<Rightarrow> ('c, 'p, 'o, 'w, 't) flight_state \<Rightarrow> (instant \<times> nat) list" where
  "hand_over_candidates pol st =
     rev (sort (map (\<lambda>(i, w). (wp_deadline pol (wt_policy w), i))
       (filter (\<lambda>(i, w). Some i \<noteq> fs_leader st \<and> eligible w) (fs_waiters st))))"

fun hand_over_scan ::
  "'w waiter_policy \<Rightarrow> (instant \<times> nat) list \<Rightarrow> ('c, 'p, 'o, 'w, 't) flight_state \<times> 't list \<Rightarrow>
   bool \<times> ('c, 'p, 'o, 'w, 't) flight_state \<times> 't list" where
  "hand_over_scan pol [] s = (False, s)"
| "hand_over_scan pol ((_, i) # cs) s =
     (case refresh_waiter pol i s of (st, wakes) \<Rightarrow>
        if (case bt_get (fs_waiters st) i of None \<Rightarrow> False | Some w \<Rightarrow> wt_error w = None)
        then (True, st\<lparr>fs_leader := Some i\<rparr>, wakes)
        else hand_over_scan pol cs (st, wakes))"

definition hand_over ::
  "'w waiter_policy \<Rightarrow> ('c, 'p, 'o, 'w, 't) flight_state \<times> 't list \<Rightarrow>
   bool \<times> ('c, 'p, 'o, 'w, 't) flight_state \<times> 't list" where
  "hand_over pol s = hand_over_scan pol (hand_over_candidates pol (fst s)) s"

definition state_settle ::
  "bool \<Rightarrow> error \<Rightarrow> ('o \<Rightarrow> ('c, 'p) published) \<Rightarrow> ('c, 'p, 'o, 'w, 't) flight_state \<times> 't list \<Rightarrow>
   ('c, 'p, 'o, 'w, 't) flight_state \<times> 't list" where
  "state_settle idle unavailable split s =
     (case s of (st, wakes) \<Rightarrow>
        case fs_phase st of
          Draining r \<Rightarrow>
            if \<not> idle then (st, wakes)
            else
              let st1 = st\<lparr>fs_leader := None, fs_elected := None, fs_handover := False\<rparr> in
              state_notify
                (case r of
                   Outcome_Published v \<Rightarrow>
                     (case split v of
                        Published_Complete c \<Rightarrow> st1\<lparr>fs_partial := None, fs_phase := Phase_Complete c\<rparr>
                      | Published_Partial p \<Rightarrow>
                          st1\<lparr>fs_partial := Some p,
                              fs_waiters := map (\<lambda>(i, w). (i, if wt_complete w then w\<lparr>wt_issued := False\<rparr> else w))
                                              (fs_waiters st),
                              fs_phase := RetryPending\<rparr>)
                 | Outcome_Failed e \<Rightarrow> st1\<lparr>fs_phase := Phase_Failed e\<rparr>
                 | Outcome_Retry \<Rightarrow>
                     st1\<lparr>fs_phase := if list_ex (\<lambda>(i, w). eligible w) (fs_waiters st) then RetryPending
                                     else Phase_Failed unavailable\<rparr>,
                 wakes)
        | _ \<Rightarrow> (st, wakes))"

definition state_revoke ::
  "error \<Rightarrow> ('c, 'p, 'o, 'w, 't) flight_state \<times> 't list \<Rightarrow> ('c, 'p, 'o, 'w, 't) flight_state \<times> 't list" where
  "state_revoke e s =
     (case s of (st, wakes) \<Rightarrow>
        state_notify
          ((case fs_elected st of
              None \<Rightarrow> st
            | Some i \<Rightarrow> st\<lparr>fs_waiters := bt_update i (\<lambda>w. w\<lparr>wt_error := Some e\<rparr>) (fs_waiters st)\<rparr>)
           \<lparr>fs_phase := Draining Outcome_Retry\<rparr>, wakes))"

text \<open>At most \<open>n\<close> due entries of the deadline index.\<close>

fun refresh_expired ::
  "'w waiter_policy \<Rightarrow> instant \<Rightarrow> nat \<Rightarrow> ('c, 'p, 'o, 'w, 't) flight_state \<times> 't list \<Rightarrow>
   ('c, 'p, 'o, 'w, 't) flight_state \<times> 't list" where
  "refresh_expired pol now 0 s = s"
| "refresh_expired pol now (Suc n) (st, wakes) =
     (case fs_deadlines st of
        [] \<Rightarrow> (st, wakes)
      | ((deadline, i), _) # _ \<Rightarrow>
          if deadline > now then (st, wakes)
          else refresh_expired pol now n
                 (refresh_waiter pol i (st\<lparr>fs_deadlines := bt_remove (deadline, i) (fs_deadlines st)\<rparr>, wakes)))"

text \<open>The middle of \<open>refresh\<close>: a running acquisition whose leader is gone or failed passes on or is revoked.\<close>

definition refresh_leader ::
  "'w waiter_policy \<Rightarrow> bool \<Rightarrow> error \<Rightarrow> ('c, 'p, 'o, 'w, 't) flight_state \<times> 't list \<Rightarrow>
   ('c, 'p, 'o, 'w, 't) flight_state \<times> 't list" where
  "refresh_leader pol idle canceled s =
     (case s of (st, wakes) \<Rightarrow>
        if fs_phase st \<noteq> Acquiring then (st, wakes)
        else
          let leader = (case fs_leader st of None \<Rightarrow> None | Some i \<Rightarrow> bt_get (fs_waiters st) i)
          in if (case leader of None \<Rightarrow> True | Some w \<Rightarrow> wt_error w \<noteq> None)
             then
               let e = (case leader of None \<Rightarrow> canceled
                        | Some w \<Rightarrow> (case wt_error w of None \<Rightarrow> canceled | Some e \<Rightarrow> e))
               in if fs_handover st \<and> \<not> idle
                  then (case hand_over pol (st, wakes) of
                          (True, s') \<Rightarrow> s'
                        | (False, s') \<Rightarrow> state_revoke e s')
                  else state_revoke e (st, wakes)
             else (st, wakes))"

definition state_refresh ::
  "'w waiter_policy \<Rightarrow> bool \<Rightarrow> error \<Rightarrow> error \<Rightarrow> instant \<Rightarrow> ('o \<Rightarrow> ('c, 'p) published) \<Rightarrow>
   ('c, 'p, 'o, 'w, 't) flight_state \<times> 't list \<Rightarrow> ('c, 'p, 'o, 'w, 't) flight_state \<times> 't list" where
  "state_refresh pol idle unavailable canceled now split s =
     (let s1 = (case fs_leader (fst s) of None \<Rightarrow> s | Some i \<Rightarrow> refresh_waiter pol i s);
          s2 = refresh_expired pol now 64 s1;
          s3 = refresh_leader pol idle canceled s2;
          (st, wakes) = state_settle idle unavailable split s3
      in if fs_phase st = RetryPending \<and> fs_partial st = None \<and> \<not> list_ex (\<lambda>(i, w). eligible w) (fs_waiters st)
         then state_settle idle unavailable split (st\<lparr>fs_phase := Draining (Outcome_Failed unavailable)\<rparr>, wakes)
         else (st, wakes))"

definition state_stop ::
  "error \<Rightarrow> ('c, 'p, 'o, 'w, 't) flight_state \<times> 't list \<Rightarrow> ('c, 'p, 'o, 'w, 't) flight_state \<times> 't list" where
  "state_stop e s =
     (case s of (st, wakes) \<Rightarrow>
        case state_notify
               (st\<lparr>fs_waiters := map (\<lambda>(i, w). (i, w\<lparr>wt_error := Some e\<rparr>)) (fs_waiters st),
                   fs_phase := Draining (Outcome_Failed e)\<rparr>, wakes) of
          (st', wakes') \<Rightarrow> (st'\<lparr>fs_waiters := [], fs_deadlines := []\<rparr>, wakes'))"

subsection \<open>Joining and waiting\<close>

record flight_limits =
  fl_entries :: nat
  fl_waiters_per_flight :: nat
  fl_operations_per_flight :: nat
  fl_generations_per_flight :: nat

definition flight_limits_default :: flight_limits where
  "flight_limits_default =
     \<lparr>fl_entries = 1024, fl_waiters_per_flight = 256, fl_operations_per_flight = 64, fl_generations_per_flight = 1024\<rparr>"

definition join_budget_gate :: "instant \<Rightarrow> instant \<Rightarrow> nat \<Rightarrow> bool \<Rightarrow> unit res" where
  "join_budget_gate now deadline attempts partial =
     (if now \<ge> deadline then Inl DeadlineExceeded
      else if attempts = 0 \<and> \<not> partial then Inl Unavailable
      else Inr ())"

definition entry_cap_gate :: "nat \<Rightarrow> flight_limits \<Rightarrow> unit res" where
  "entry_cap_gate entries limits = (if entries \<ge> fl_entries limits then Inl Overloaded else Inr ())"

datatype ('c, 'p) settled = Settled_Complete 'c | Settled_Partial 'p

datatype join_reject = Reject_Failed error | Reject_WaiterCap

fun reject_error :: "join_reject \<Rightarrow> error" where
  "reject_error (Reject_Failed e) = e"
| "reject_error Reject_WaiterCap = Overloaded"

text \<open>\<open>Inr None\<close>: register a waiter.\<close>

definition join_existing ::
  "('c, 'p, 'o, 'w, 't) flight_state \<Rightarrow> bool \<Rightarrow> flight_limits \<Rightarrow> join_reject + ('c, 'p) settled option" where
  "join_existing st plaintext limits =
     (case fs_phase st of
        Phase_Complete c \<Rightarrow> Inr (Some (Settled_Complete c))
      | ph \<Rightarrow>
          (case (if plaintext then None else fs_partial st) of
             Some p \<Rightarrow> Inr (Some (Settled_Partial p))
           | None \<Rightarrow>
               (case ph of
                  Phase_Failed e \<Rightarrow> Inl (Reject_Failed e)
                | _ \<Rightarrow>
                    if length (fs_waiters st) \<ge> fl_waiters_per_flight limits then Inl Reject_WaiterCap
                    else Inr None)))"

datatype ('c, 'p) copy_join = Copy_Miss | Copy_Settled "('c, 'p) settled" | Copy_Register

definition join_copy_existing ::
  "('c, 'p, 'o, 'w, 't) flight_state \<Rightarrow> flight_limits \<Rightarrow> ('c, 'p) copy_join res" where
  "join_copy_existing st limits =
     (case fs_phase st of
        Phase_Complete c \<Rightarrow> Inr (Copy_Settled (Settled_Complete c))
      | ph \<Rightarrow>
          (case fs_partial st of
             Some p \<Rightarrow> Inr (Copy_Settled (Settled_Partial p))
           | None \<Rightarrow>
               if (case ph of Phase_Failed _ \<Rightarrow> True | Draining _ \<Rightarrow> True | _ \<Rightarrow> False) then Inr Copy_Miss
               else if length (fs_waiters st) \<ge> fl_waiters_per_flight limits then Inl Overloaded
               else Inr Copy_Register))"

datatype ('c, 'p) waited = Wait_Lead | Wait_Ready "('c, 'p) settled" | Wait_Failed error | Wait_Pending

definition flight_refresh ::
  "'w waiter_policy \<Rightarrow> bool \<Rightarrow> instant \<Rightarrow> ('o \<Rightarrow> ('c, 'p) published) \<Rightarrow>
   ('c, 'p, 'o, 'w, 't) flight_state \<times> 't list \<Rightarrow> ('c, 'p, 'o, 'w, 't) flight_state \<times> 't list" where
  "flight_refresh pol idle now split = state_refresh pol idle Unavailable Cancelled now split"

definition flight_settle ::
  "bool \<Rightarrow> ('o \<Rightarrow> ('c, 'p) published) \<Rightarrow> ('c, 'p, 'o, 'w, 't) flight_state \<times> 't list \<Rightarrow>
   ('c, 'p, 'o, 'w, 't) flight_state \<times> 't list" where
  "flight_settle idle split = state_settle idle Unavailable split"

text \<open>\<open>park\<close> stores \<open>token\<close>.\<close>

definition park :: "nat \<Rightarrow> 't \<Rightarrow> ('c, 'p, 'o, 'w, 't) flight_state \<Rightarrow> ('c, 'p, 'o, 'w, 't) flight_state" where
  "park i token st = st\<lparr>fs_waiters := bt_update i (\<lambda>w. w\<lparr>wt_waker := Some token\<rparr>) (fs_waiters st)\<rparr>"

text \<open>What a waiter finds without acting: the order in which \<open>wait\<close> looks.\<close>

definition wait_found :: "('w, 't) waiter \<Rightarrow> ('c, 'p, 'o, 'w, 't) flight_state \<Rightarrow> ('c, 'p) waited option" where
  "wait_found w st =
     (case wt_error w of
        Some e \<Rightarrow> Some (Wait_Failed e)
      | None \<Rightarrow>
          (case fs_phase st of
             Phase_Complete c \<Rightarrow> Some (Wait_Ready (Settled_Complete c))
           | ph \<Rightarrow>
               (case (if wt_complete w then None else fs_partial st) of
                  Some p \<Rightarrow> Some (Wait_Ready (Settled_Partial p))
                | None \<Rightarrow> (case ph of Phase_Failed e \<Rightarrow> Some (Wait_Failed e) | _ \<Rightarrow> None))))"

definition flight_wait ::
  "'w waiter_policy \<Rightarrow> nat \<Rightarrow> identity \<Rightarrow> nat \<Rightarrow> instant \<Rightarrow> nat \<Rightarrow> bool \<Rightarrow> instant \<Rightarrow> ('o \<Rightarrow> ('c, 'p) published) \<Rightarrow> 't \<Rightarrow>
   ('c, 'p, 'o, 'w, 't) flight_state \<times> 't list \<Rightarrow>
   (('c, 'p) waited \<times> identity \<times> ('c, 'p, 'o, 'w, 't) flight_state \<times> 't list) option" where
  "flight_wait pol i identity generations budget_deadline attempts idle now split token s =
     (case s of (st, wakes) \<Rightarrow>
        case bt_get (fs_waiters st) i of
          None \<Rightarrow> None
        | Some w \<Rightarrow>
            (case wait_found w st of
               Some r \<Rightarrow> Some (r, identity, st, wakes)
             | None \<Rightarrow>
                 if fs_phase st = RetryPending \<and> \<not> wt_issued w
                 then if now \<ge> budget_deadline \<or> attempts = 0 \<and> fs_partial st = None
                      then let e = (if attempts = 0 then Unavailable else DeadlineExceeded)
                           in Some (Wait_Failed e, identity, flight_refresh pol idle now split (state_cancel i e st, wakes))
                      else (case elect i identity generations st of
                              (Inl _, identity', st') \<Rightarrow>
                                Some (Wait_Failed Unavailable, identity',
                                  flight_settle idle split (begin_completion (Outcome_Failed Unavailable) st', wakes))
                            | (Inr _, identity', st') \<Rightarrow> Some (Wait_Lead, identity', st', wakes))
                 else Some (Wait_Pending, identity, park i token st, wakes)))"

text \<open>\<open>None\<close> inside: parked.\<close>

definition copy_wait ::
  "nat \<Rightarrow> 't \<Rightarrow> ('c, 'p, 'o, 'w, 't) flight_state \<Rightarrow>
   (('c, 'p) settled res option \<times> ('c, 'p, 'o, 'w, 't) flight_state) option" where
  "copy_wait i token st =
     (case bt_get (fs_waiters st) i of
        None \<Rightarrow> None
      | Some w \<Rightarrow>
          Some (case wt_error w of
             Some e \<Rightarrow> (Some (Inl e), st)
           | None \<Rightarrow>
               (case fs_phase st of
                  Phase_Failed e \<Rightarrow> (Some (Inl e), st)
                | Phase_Complete c \<Rightarrow> (Some (Inr (Settled_Complete c)), st)
                | _ \<Rightarrow>
                    (case fs_partial st of
                       Some p \<Rightarrow> (Some (Inr (Settled_Partial p)), st)
                     | None \<Rightarrow> (None, park i token st)))))"

definition flight_publish ::
  "'o \<Rightarrow> bool \<Rightarrow> ('o \<Rightarrow> ('c, 'p) published) \<Rightarrow> ('c, 'p, 'o, 'w, 't) flight_state \<times> 't list \<Rightarrow>
   ('c, 'p, 'o, 'w, 't) flight_state \<times> 't list" where
  "flight_publish page idle split s =
     flight_settle idle split (begin_completion (Outcome_Published page) (fst s), snd s)"

definition flight_fail ::
  "nat \<Rightarrow> failure_kind \<Rightarrow> bool \<Rightarrow> ('o \<Rightarrow> ('c, 'p) published) \<Rightarrow> ('c, 'p, 'o, 'w, 't) flight_state \<times> 't list \<Rightarrow>
   ('c, 'p, 'o, 'w, 't) flight_state \<times> 't list" where
  "flight_fail caller failure idle split s =
     (case s of (st, wakes) \<Rightarrow>
        let (outcome, st1) =
          (case failure of
             FailOriginRejected \<Rightarrow> (Outcome_Retry, state_cancel caller OriginRejected st)
           | FailOriginForbidden \<Rightarrow> (Outcome_Retry, state_cancel caller OriginForbidden st)
           | FailTerminal e \<Rightarrow>
               (if state_handed_over st \<and> (e = DeadlineExceeded \<or> e = Cancelled) then Outcome_Retry else Outcome_Failed e, st))
        in flight_settle idle split (state_notify (begin_completion outcome st1, wakes)))"

definition HANDOVER_SPANS :: nat where "HANDOVER_SPANS = 4"

definition handover_ceiling :: "instant \<Rightarrow> instant \<Rightarrow> bool \<Rightarrow> instant" where
  "handover_ceiling now leader_deadline handover =
     (if \<not> handover then leader_deadline else leader_deadline + (leader_deadline - now) * HANDOVER_SPANS)"

subsection \<open>The table of flights\<close>

datatype reserve = Reserve_Waiter | Reserve_Flight

record 'r sim_waiter =
  sw_deadline :: instant
  sw_charge :: 'r

text \<open>The waiters read the table's clock: \<open>now\<close> is the cell they share with it.\<close>

definition sim_policy :: "instant \<Rightarrow> 'r sim_waiter waiter_policy" where
  "sim_policy now =
     \<lparr>wp_check = (\<lambda>w. if now \<ge> sw_deadline w then Some DeadlineExceeded else None), wp_deadline = sw_deadline\<rparr>"

type_synonym ('c, 'p, 'o, 'r) sim_state = "('c, 'p, 'o, 'r sim_waiter, nat) flight_state"

record ('c, 'p, 'o, 'r) flight =
  fg_state :: "('c, 'p, 'o, 'r) sim_state"
  fg_identity :: identity
  fg_operations :: nat
  fg_charge :: 'r

definition flight_idle :: "('c, 'p, 'o, 'r) flight \<Rightarrow> bool" where
  "flight_idle f \<longleftrightarrow> fg_operations f = 0"

datatype ('c, 'p) joined = Joined_Miss | Joined_Settled "('c, 'p) settled" | Joined_Waiter nat

record ('k, 'c, 'p, 'o, 'r) page_flights =
  pf_flights :: "('k, ('c, 'p, 'o, 'r) flight) hmap"
  pf_limits :: flight_limits
  pf_split :: "'o \<Rightarrow> ('c, 'p) published"
  pf_now :: instant
  pf_owner :: nat
  pf_next_id :: nat

definition page_flights_new ::
  "flight_limits \<Rightarrow> ('o \<Rightarrow> ('c, 'p) published) \<Rightarrow> instant \<Rightarrow> nat \<Rightarrow> ('k, 'c, 'p, 'o, 'r) page_flights" where
  "page_flights_new limits split now owner =
     \<lparr>pf_flights = [], pf_limits = limits, pf_split = split, pf_now = now, pf_owner = owner, pf_next_id = 0\<rparr>"

definition pf_waiters :: "'k \<Rightarrow> ('k, 'c, 'p, 'o, 'r) page_flights \<Rightarrow> nat" where
  "pf_waiters page T =
     (case hm_get (pf_flights T) page of None \<Rightarrow> 0 | Some f \<Rightarrow> length (fs_waiters (fg_state f)))"

definition pf_put :: "'k \<Rightarrow> ('c, 'p, 'o, 'r) flight \<Rightarrow> ('k, 'c, 'p, 'o, 'r) page_flights \<Rightarrow> ('k, 'c, 'p, 'o, 'r) page_flights" where
  "pf_put page f T = T\<lparr>pf_flights := hm_update page (\<lambda>_. f) (pf_flights T)\<rparr>"

text \<open>One flight refreshed at the table's clock.\<close>

definition refreshed_flight ::
  "('k, 'c, 'p, 'o, 'r) page_flights \<Rightarrow> ('c, 'p, 'o, 'r) flight \<Rightarrow> nat list \<Rightarrow> ('c, 'p, 'o, 'r) flight \<times> nat list" where
  "refreshed_flight T f wakes =
     (case flight_refresh (sim_policy (pf_now T)) (flight_idle f) (pf_now T) (pf_split T) (fg_state f, wakes) of
        (st, wakes') \<Rightarrow> (f\<lparr>fg_state := st\<rparr>, wakes'))"

definition refreshed ::
  "'k \<Rightarrow> nat list \<Rightarrow> ('k, 'c, 'p, 'o, 'r) page_flights \<Rightarrow>
   ('c, 'p, 'o, 'r) flight option \<times> nat list \<times> ('k, 'c, 'p, 'o, 'r) page_flights" where
  "refreshed page wakes T =
     (case hm_get (pf_flights T) page of
        None \<Rightarrow> (None, wakes, T)
      | Some f \<Rightarrow> (case refreshed_flight T f wakes of (f', wakes') \<Rightarrow> (Some f', wakes', pf_put page f' T)))"

definition pf_waiter ::
  "instant \<Rightarrow> 'r \<Rightarrow> ('k, 'c, 'p, 'o, 'r) page_flights \<Rightarrow> nat \<times> 'r sim_waiter \<times> ('k, 'c, 'p, 'o, 'r) page_flights" where
  "pf_waiter deadline charge T =
     (pf_next_id T, \<lparr>sw_deadline = deadline, sw_charge = charge\<rparr>, T\<lparr>pf_next_id := pf_next_id T + 1\<rparr>)"

definition pf_register ::
  "'k \<Rightarrow> nat \<Rightarrow> 'r sim_waiter \<Rightarrow> bool \<Rightarrow> bool \<Rightarrow> ('k, 'c, 'p, 'o, 'r) page_flights \<Rightarrow> ('k, 'c, 'p, 'o, 'r) page_flights" where
  "pf_register page i w acquisition complete T =
     T\<lparr>pf_flights := hm_update page
       (\<lambda>f. f\<lparr>fg_state := state_register (sim_policy (pf_now T)) i w acquisition complete (fg_state f)\<rparr>) (pf_flights T)\<rparr>"

text \<open>The second half of \<open>join\<close>: the budget gate, the reservations and the registration.\<close>

definition pf_admit ::
  "'k \<Rightarrow> instant \<Rightarrow> instant \<Rightarrow> nat \<Rightarrow> bool \<Rightarrow> bool \<Rightarrow> (reserve \<Rightarrow> 'r res) \<Rightarrow> ('k, 'c, 'p, 'o, 'r) page_flights \<Rightarrow>
   ('c, 'p) joined res \<times> ('k, 'c, 'p, 'o, 'r) page_flights" where
  "pf_admit page now deadline attempts plaintext partial reserve T =
     (case join_budget_gate now deadline attempts partial of
        Inl e \<Rightarrow> (Inl e, T)
      | Inr _ \<Rightarrow>
          (case reserve Reserve_Waiter of
             Inl e \<Rightarrow> (Inl e, T)
           | Inr charge \<Rightarrow>
               (case pf_waiter deadline charge T of (i, w, T1) \<Rightarrow>
                  if hm_get (pf_flights T1) page \<noteq> None
                  then (Inr (Joined_Waiter i), pf_register page i w True plaintext T1)
                  else
                    (case entry_cap_gate (length (pf_flights T1)) (pf_limits T1) of
                       Inl e \<Rightarrow> (Inl e, T1)
                     | Inr _ \<Rightarrow>
                         (case reserve Reserve_Flight of
                            Inl e \<Rightarrow> (Inl e, T1)
                          | Inr fcharge \<Rightarrow>
                              (Inr (Joined_Waiter i),
                               pf_register page i w True plaintext
                                 (T1\<lparr>pf_flights := hm_insert page
                                    \<lparr>fg_state = state_default,
                                     fg_identity = \<lparr>id_owner = pf_owner T1, id_incarnation = 0, id_generation = 0\<rparr>,
                                     fg_operations = 0, fg_charge = fcharge\<rparr> (pf_flights T1)\<rparr>)))))))"

definition pf_join ::
  "'k \<Rightarrow> instant \<Rightarrow> instant \<Rightarrow> nat \<Rightarrow> bool \<Rightarrow> (reserve \<Rightarrow> 'r res) \<Rightarrow> nat list \<Rightarrow> ('k, 'c, 'p, 'o, 'r) page_flights \<Rightarrow>
   ('c, 'p) joined res \<times> nat list \<times> ('k, 'c, 'p, 'o, 'r) page_flights" where
  "pf_join page now deadline attempts plaintext reserve wakes T0 =
     (case refreshed page wakes (T0\<lparr>pf_now := now\<rparr>) of
        (None, wakes', T) \<Rightarrow>
          (case pf_admit page now deadline attempts plaintext False reserve T of (r, T') \<Rightarrow> (r, wakes', T'))
      | (Some f, wakes', T) \<Rightarrow>
          (case join_existing (fg_state f) plaintext (pf_limits T) of
             Inl reject \<Rightarrow> (Inl (reject_error reject), wakes', T)
           | Inr (Some settled) \<Rightarrow> (Inr (Joined_Settled settled), wakes', T)
           | Inr None \<Rightarrow>
               (case pf_admit page now deadline attempts plaintext (fs_partial (fg_state f) \<noteq> None) reserve T of
                  (r, T') \<Rightarrow> (r, wakes', T'))))"

definition pf_join_copy ::
  "'k \<Rightarrow> instant \<Rightarrow> instant \<Rightarrow> (reserve \<Rightarrow> 'r res) \<Rightarrow> nat list \<Rightarrow> ('k, 'c, 'p, 'o, 'r) page_flights \<Rightarrow>
   ('c, 'p) joined res \<times> nat list \<times> ('k, 'c, 'p, 'o, 'r) page_flights" where
  "pf_join_copy page now deadline reserve wakes T0 =
     (case refreshed page wakes (T0\<lparr>pf_now := now\<rparr>) of
        (None, wakes', T) \<Rightarrow> (Inr Joined_Miss, wakes', T)
      | (Some f, wakes', T) \<Rightarrow>
          (case join_copy_existing (fg_state f) (pf_limits T) of
             Inl e \<Rightarrow> (Inl e, wakes', T)
           | Inr Copy_Miss \<Rightarrow> (Inr Joined_Miss, wakes', T)
           | Inr (Copy_Settled settled) \<Rightarrow> (Inr (Joined_Settled settled), wakes', T)
           | Inr Copy_Register \<Rightarrow>
               (case reserve Reserve_Waiter of
                  Inl e \<Rightarrow> (Inl e, wakes', T)
                | Inr charge \<Rightarrow>
                    (case pf_waiter deadline charge T of (i, w, T1) \<Rightarrow>
                       (Inr (Joined_Waiter i), wakes', pf_register page i w False False T1)))))"

definition pf_poll ::
  "'k \<Rightarrow> nat \<Rightarrow> instant \<Rightarrow> nat \<Rightarrow> nat \<Rightarrow> nat list \<Rightarrow> ('k, 'c, 'p, 'o, 'r) page_flights \<Rightarrow>
   (('c, 'p) waited res \<times> nat list \<times> ('k, 'c, 'p, 'o, 'r) page_flights) option" where
  "pf_poll page i now attempts token wakes T0 =
     (let T = T0\<lparr>pf_now := now\<rparr>; pol = sim_policy now; limit = fl_generations_per_flight (pf_limits T) in
      case hm_get (pf_flights T) page of
        None \<Rightarrow> Some (Inl Internal, wakes, T)
      | Some f \<Rightarrow>
          (case bt_get (fs_waiters (fg_state f)) i of
             None \<Rightarrow> Some (Inl Internal, wakes, T)
           | Some w \<Rightarrow>
               let deadline = sw_deadline (wt_policy w); copy = \<not> wt_acquisition w; idle = flight_idle f in
               if wt_error w = Some Cancelled then Some (Inr (Wait_Failed Cancelled), wakes, T)
               else if now \<ge> deadline
               then (case flight_refresh pol idle now (pf_split T) (state_cancel i DeadlineExceeded (fg_state f), wakes) of
                       (st, wakes') \<Rightarrow>
                         Some (Inr (Wait_Failed DeadlineExceeded), wakes', pf_put page (f\<lparr>fg_state := st\<rparr>) T))
               else (case flight_refresh pol idle now (pf_split T) (fg_state f, wakes) of
                       (st, wakes') \<Rightarrow>
                         if copy
                         then map_option (\<lambda>(r, st').
                                (Inr (case r of
                                        None \<Rightarrow> Wait_Pending
                                      | Some (Inr settled) \<Rightarrow> Wait_Ready settled
                                      | Some (Inl e) \<Rightarrow> Wait_Failed e),
                                 wakes', pf_put page (f\<lparr>fg_state := st'\<rparr>) T))
                              (copy_wait i token st)
                         else map_option (\<lambda>(r, identity, st', wakes'').
                                (Inr r, wakes'', pf_put page (f\<lparr>fg_state := st', fg_identity := identity\<rparr>) T))
                              (flight_wait pol i (fg_identity f) limit deadline attempts idle now (pf_split T) token
                                 (st, wakes')))))"

definition pf_leader ::
  "'k \<Rightarrow> nat \<Rightarrow> nat list \<Rightarrow> ('k, 'c, 'p, 'o, 'r) page_flights \<Rightarrow>
   ('c, 'p, 'o, 'r) flight res \<times> nat list \<times> ('k, 'c, 'p, 'o, 'r) page_flights" where
  "pf_leader page i wakes T0 =
     (case refreshed page wakes T0 of
        (None, wakes', T) \<Rightarrow> (Inl Internal, wakes', T)
      | (Some f, wakes', T) \<Rightarrow>
          (case validate_leader i True (fg_state f) of
             Inl _ \<Rightarrow> (Inl Internal, wakes', T)
           | Inr _ \<Rightarrow> (Inr f, wakes', T)))"

definition pf_finish ::
  "'k \<Rightarrow> nat \<Rightarrow> failure_kind + 'o \<Rightarrow> nat list \<Rightarrow> ('k, 'c, 'p, 'o, 'r) page_flights \<Rightarrow>
   unit res \<times> nat list \<times> ('k, 'c, 'p, 'o, 'r) page_flights" where
  "pf_finish page i result wakes T0 =
     (case pf_leader page i wakes T0 of
        (Inl e, wakes', T) \<Rightarrow> (Inl e, wakes', T)
      | (Inr f, wakes', T) \<Rightarrow>
          (case (case result of
                   Inr v \<Rightarrow> flight_publish v (flight_idle f) (pf_split T) (fg_state f, wakes')
                 | Inl failure \<Rightarrow> flight_fail i failure (flight_idle f) (pf_split T) (fg_state f, wakes')) of
             (st, wakes'') \<Rightarrow> (Inr (), wakes'', pf_put page (f\<lparr>fg_state := st\<rparr>) T)))"

definition pf_allow_handover ::
  "'k \<Rightarrow> nat \<Rightarrow> nat list \<Rightarrow> ('k, 'c, 'p, 'o, 'r) page_flights \<Rightarrow> unit res \<times> nat list \<times> ('k, 'c, 'p, 'o, 'r) page_flights" where
  "pf_allow_handover page i wakes T0 =
     (case pf_leader page i wakes T0 of
        (Inl e, wakes', T) \<Rightarrow> (Inl e, wakes', T)
      | (Inr f, wakes', T) \<Rightarrow> (Inr (), wakes', pf_put page (f\<lparr>fg_state := state_allow_handover (fg_state f)\<rparr>) T))"

definition pf_leader_deadline :: "'k \<Rightarrow> ('k, 'c, 'p, 'o, 'r) page_flights \<Rightarrow> instant option" where
  "pf_leader_deadline page T =
     (case hm_get (pf_flights T) page of None \<Rightarrow> None
      | Some f \<Rightarrow> state_leader_deadline (sim_policy (pf_now T)) (fg_state f))"

definition pf_acquiring :: "'k \<Rightarrow> ('k, 'c, 'p, 'o, 'r) page_flights \<Rightarrow> bool" where
  "pf_acquiring page T \<longleftrightarrow>
     (case hm_get (pf_flights T) page of None \<Rightarrow> False | Some f \<Rightarrow> fs_phase (fg_state f) = Acquiring)"

definition pf_handed_over :: "'k \<Rightarrow> ('k, 'c, 'p, 'o, 'r) page_flights \<Rightarrow> bool" where
  "pf_handed_over page T \<longleftrightarrow>
     (case hm_get (pf_flights T) page of None \<Rightarrow> False | Some f \<Rightarrow> state_handed_over (fg_state f))"

definition pf_is_leader :: "'k \<Rightarrow> nat \<Rightarrow> ('k, 'c, 'p, 'o, 'r) page_flights \<Rightarrow> bool" where
  "pf_is_leader page i T \<longleftrightarrow>
     (case hm_get (pf_flights T) page of None \<Rightarrow> False | Some f \<Rightarrow> validate_leader i True (fg_state f) = Inr ())"

definition pf_retain_operation ::
  "'k \<Rightarrow> nat \<Rightarrow> nat list \<Rightarrow> ('k, 'c, 'p, 'o, 'r) page_flights \<Rightarrow> unit res \<times> nat list \<times> ('k, 'c, 'p, 'o, 'r) page_flights" where
  "pf_retain_operation page i wakes T0 =
     (case pf_leader page i wakes T0 of
        (Inl e, wakes', T) \<Rightarrow> (Inl e, wakes', T)
      | (Inr f, wakes', T) \<Rightarrow> (Inr (), wakes', pf_put page (f\<lparr>fg_operations := fg_operations f + 1\<rparr>) T))"

definition pf_remove_quiescent :: "'k \<Rightarrow> ('k, 'c, 'p, 'o, 'r) page_flights \<Rightarrow> ('k, 'c, 'p, 'o, 'r) page_flights" where
  "pf_remove_quiescent page T =
     (case hm_get (pf_flights T) page of
        None \<Rightarrow> T
      | Some f \<Rightarrow>
          if fs_waiters (fg_state f) = [] \<and> flight_idle f
          then T\<lparr>pf_flights := hm_remove page (pf_flights T)\<rparr> else T)"

definition pf_complete_operation ::
  "'k \<Rightarrow> nat list \<Rightarrow> ('k, 'c, 'p, 'o, 'r) page_flights \<Rightarrow> unit res \<times> nat list \<times> ('k, 'c, 'p, 'o, 'r) page_flights" where
  "pf_complete_operation page wakes T =
     (case hm_get (pf_flights T) page of
        None \<Rightarrow> (Inl Internal, wakes, T)
      | Some f \<Rightarrow>
          (case checked_sub (fg_operations f) 1 of
             None \<Rightarrow> (Inl Internal, wakes, T)
           | Some n \<Rightarrow>
               (case refreshed_flight T (f\<lparr>fg_operations := n\<rparr>) wakes of (f1, wakes1) \<Rightarrow>
                  case state_notify (fg_state f1, wakes1) of (st, wakes2) \<Rightarrow>
                    (Inr (), wakes2, pf_remove_quiescent page (pf_put page (f1\<lparr>fg_state := st\<rparr>) T)))))"

definition pf_abandon ::
  "'k \<Rightarrow> nat \<Rightarrow> nat list \<Rightarrow> ('k, 'c, 'p, 'o, 'r) page_flights \<Rightarrow> nat list \<times> ('k, 'c, 'p, 'o, 'r) page_flights" where
  "pf_abandon page i wakes T =
     (case hm_get (pf_flights T) page of
        None \<Rightarrow> (wakes, T)
      | Some f \<Rightarrow>
          if validate_leader i True (fg_state f) \<noteq> Inr () then (wakes, T)
          else (case flight_settle (flight_idle f) (pf_split T) (state_revoke Cancelled (fg_state f, wakes)) of
                  (st, wakes') \<Rightarrow> (wakes', pf_put page (f\<lparr>fg_state := st\<rparr>) T)))"

definition pf_cancel ::
  "'k \<Rightarrow> nat \<Rightarrow> nat list \<Rightarrow> ('k, 'c, 'p, 'o, 'r) page_flights \<Rightarrow> nat list \<times> ('k, 'c, 'p, 'o, 'r) page_flights" where
  "pf_cancel page i wakes T =
     (case hm_get (pf_flights T) page of
        None \<Rightarrow> (wakes, T)
      | Some f \<Rightarrow> snd (refreshed page wakes (pf_put page (f\<lparr>fg_state := state_cancel i Cancelled (fg_state f)\<rparr>) T)))"

definition pf_detach ::
  "'k \<Rightarrow> nat \<Rightarrow> nat list \<Rightarrow> ('k, 'c, 'p, 'o, 'r) page_flights \<Rightarrow> nat list \<times> ('k, 'c, 'p, 'o, 'r) page_flights" where
  "pf_detach page i wakes T =
     (case hm_get (pf_flights T) page of
        None \<Rightarrow> (wakes, T)
      | Some f \<Rightarrow>
          (case refreshed page wakes
                  (pf_put page (f\<lparr>fg_state := state_detach (sim_policy (pf_now T)) i (fg_state f)\<rparr>) T) of
             (_, wakes', T') \<Rightarrow> (wakes', pf_remove_quiescent page T')))"

definition pf_refresh ::
  "'k \<Rightarrow> instant \<Rightarrow> nat list \<Rightarrow> ('k, 'c, 'p, 'o, 'r) page_flights \<Rightarrow> nat list \<times> ('k, 'c, 'p, 'o, 'r) page_flights" where
  "pf_refresh page now wakes T = snd (refreshed page wakes (T\<lparr>pf_now := now\<rparr>))"

end
