(* ===== verification/Spec2Isabelle.thy ===== *)
theory Spec2Isabelle
  imports Racer_Maps Racer_Time Racer_Route Racer_Policy Racer_Walk_Props Racer_Fill_Props Racer_Cache_Props
    Racer_Memory_Runs Racer_Flight
begin

text \<open>
  Verification of the decision logic of \<open>racer\<close> (\<open>src/cmd/racer\<close>).
\<close>

end
